(* ===== verification/Go_Base.thy ===== *)
theory Go_Base
  imports Main "HOL-Library.Word" "HOL-Library.AList" "HOL-Library.Char_ord" "HOL-Library.List_Lexorder"
begin

text \<open>
  The prelude of the development: results of Go code that may panic, instants and durations of
  package time, dictionaries as association lists, the error values that the packages of SpartanRPC
  create, and the locale of step systems from which every state machine of the development takes
  its reachable states and its invariant rule.
\<close>

named_theorems go_simps \<open>rewriting facts about the Go library functions the packages call\<close>
named_theorems op_defs \<open>definitions of the operations that a proof about an operation unfolds\<close>

subsection \<open>Panics\<close>

datatype go_panic =
    NilDereference
  | SliceBounds
  | ReflectPanic
  | LogPanic
  | LogFatal
  | TickerPanic

text \<open>
  A Go call either returns or does not (a panic, or \<^verbatim>\<open>log.Fatal\<close>, which ends the process).
  Error values that are returned are ordinary values and live inside \<open>Ret\<close>.
\<close>

datatype 'a go = Ret 'a | Panic go_panic

fun go_bind :: "'a go \<Rightarrow> ('a \<Rightarrow> 'b go) \<Rightarrow> 'b go" where
  "go_bind (Ret x) f = f x"
| "go_bind (Panic p) f = Panic p"

lemma go_bind_Ret_iff [go_simps]: "go_bind m f = Ret y \<longleftrightarrow> (\<exists>x. m = Ret x \<and> f x = Ret y)"
  by (cases m) auto

lemma go_bind_Panic_iff [go_simps]:
  "go_bind m f = Panic p \<longleftrightarrow> m = Panic p \<or> (\<exists>x. m = Ret x \<and> f x = Panic p)"
  by (cases m) auto

subsection \<open>Instants and durations\<close>

text \<open>
  \<^verbatim>\<open>time.Duration\<close> counts nanoseconds in a signed 64-bit integer; a \<^verbatim>\<open>time.Time\<close> is counted
  here in nanoseconds since the zero instant of package time (January 1, year 1), so the zero
  value of a \<^verbatim>\<open>time.Time\<close> field is 0.
\<close>

type_synonym duration = int
type_synonym time = int

definition time_Second :: duration where "time_Second = 1000000000"
definition time_Minute :: duration where "time_Minute = 60 * time_Second"
definition zero_time :: time where "zero_time = 0"
definition max_duration :: duration where "max_duration = 2 ^ 63 - 1"

definition time_Add :: "time \<Rightarrow> duration \<Rightarrow> time" where "time_Add t d = t + d"
definition time_After :: "time \<Rightarrow> time \<Rightarrow> bool" where "time_After t u \<longleftrightarrow> u < t"

lemmas time_defs = time_Second_def time_Minute_def zero_time_def time_Add_def time_After_def
  max_duration_def

subsection \<open>Error values\<close>

text \<open>
  One constructor for each place of the source that creates an error, with the values that the
  message interpolates; \<open>LibError\<close> is an error that a library call hands back.
\<close>

datatype lib_error =
    EOF
  | UnexpectedEOF
  | JsonSyntax
  | JsonType
  | JsonInvalidTarget
  | JsonUnsupported
  | ConnClosed
  | DialFailed
  | HttpMalformed
  | DeadlineExceeded
  | Canceled

datatype go_error =
    LibError lib_error
  | UserError string
  | NilListener
  | ServiceDefined string
  | InvalidServiceMethod string
  | ServiceMissing string
  | MethodMissing string
  | HandleTimeout string
  | NoServers
  | UnknownMode
  | AlreadyClosed
  | ClientClosed
  | ClientShutdown
  | WrongFormat string
  | UnexpectedStatus string
  | ManyConnectionInfos
  | InvalidCoderType string
  | ConnectTimeout
  | ContextError lib_error
  | BodyDecodeError go_error
  | ResponseError string

subsection \<open>Dictionaries\<close>

text \<open>
  A Go map is an association list with distinct keys: \<^const>\<open>map_of\<close> looks up,
  \<^const>\<open>AList.update\<close> stores and \<^const>\<open>AList.delete\<close> deletes. A \<^verbatim>\<open>range\<close> over a map
  runs through the list; the properties about such loops are stated so that they do not depend on
  the order of the list.
\<close>

type_synonym ('k, 'v) dict = "('k \<times> 'v) list"

abbreviation keys :: "('k, 'v) dict \<Rightarrow> 'k set" where
  "keys m \<equiv> fst ` set m"

abbreviation dict_ok :: "('k, 'v) dict \<Rightarrow> bool" where
  "dict_ok m \<equiv> distinct (map fst m)"

lemma dict_ok_update: "dict_ok m \<Longrightarrow> dict_ok (AList.update k v m)"
  by (simp add: distinct_update)

lemma dict_ok_delete: "dict_ok m \<Longrightarrow> dict_ok (AList.delete k m)"
  by (simp add: distinct_delete)

lemma dict_ok_filter: "dict_ok m \<Longrightarrow> dict_ok (filter P m)"
  by (induction m) (auto simp: image_iff)

lemma map_of_filter_distinct:
  "dict_ok m \<Longrightarrow>
   map_of (filter P m) k = (case map_of m k of None \<Rightarrow> None | Some v \<Rightarrow> if P (k, v) then Some v else None)"
  by (induction m) (auto simp: image_iff split: option.splits dest: map_of_SomeD)

lemma keys_iff_map_of: "k \<in> keys m \<longleftrightarrow> map_of m k \<noteq> None"
  by (metis map_of_eq_None_iff)

lemma map_of_Some_iff: "dict_ok m \<Longrightarrow> map_of m k = Some v \<longleftrightarrow> (k, v) \<in> set m"
  by (rule map_of_eq_Some_iff)

subsection \<open>Step systems\<close>

text \<open>
  A state machine is its initial states and its steps. The reachable states are the least set that
  contains the first and is closed under the second; an inductive invariant holds in all of them.
\<close>

inductive reach :: "('s \<Rightarrow> bool) \<Rightarrow> ('s \<Rightarrow> 's \<Rightarrow> bool) \<Rightarrow> 's \<Rightarrow> bool" for ini stp where
  reach_init: "ini s \<Longrightarrow> reach ini stp s"
| reach_step: "reach ini stp s \<Longrightarrow> stp s t \<Longrightarrow> reach ini stp t"

lemma reach_trans: "reach ini stp s \<Longrightarrow> stp\<^sup>*\<^sup>* s t \<Longrightarrow> reach ini stp t"
  by (rotate_tac) (induction rule: rtranclp_induct, auto intro: reach_step)

locale step_system =
  fixes ini :: "'s \<Rightarrow> bool"
    and stp :: "'s \<Rightarrow> 's \<Rightarrow> bool"
    and invar :: "'s \<Rightarrow> bool"
  assumes invar_init: "ini s \<Longrightarrow> invar s"
    and invar_step: "invar s \<Longrightarrow> stp s t \<Longrightarrow> invar t"
begin

lemma reach_invar: "reach ini stp s \<Longrightarrow> invar s"
  by (induction rule: reach.induct) (auto intro: invar_init invar_step)

lemma steps_invar: "stp\<^sup>*\<^sup>* s t \<Longrightarrow> invar s \<Longrightarrow> invar t"
  by (induction rule: rtranclp_induct) (auto intro: invar_step)

end

end
