(* ===== verification/Go_Strings.thy ===== *)
theory Go_Strings
  imports Go_Base
begin

text \<open>
  The functions of the packages strings, go/ast and net/textproto that SpartanRPC calls, on byte
  strings. \<^verbatim>\<open>Split\<close> and \<^verbatim>\<open>Join\<close> are for the one-byte separators the program passes. Letter case
  and white space are those of ASCII: a byte above 127 is neither a letter nor a space.
\<close>

subsection \<open>Split, Join, TrimSpace, LastIndex\<close>

fun strings_Split :: "char \<Rightarrow> string \<Rightarrow> string list" where
  "strings_Split c [] = [[]]"
| "strings_Split c (x # xs) =
     (if x = c then [] # strings_Split c xs
      else (case strings_Split c xs of [] \<Rightarrow> [[x]] | p # ps \<Rightarrow> (x # p) # ps))"

fun strings_Join :: "char \<Rightarrow> string list \<Rightarrow> string" where
  "strings_Join c [] = []"
| "strings_Join c [s] = s"
| "strings_Join c (s # t # ts) = s @ c # strings_Join c (t # ts)"

definition is_space :: "char \<Rightarrow> bool" where
  "is_space c \<longleftrightarrow> c \<in> set [CHR 0x09, CHR 0x0A, CHR 0x0B, CHR 0x0C, CHR 0x0D, CHR '' '']"

definition strings_TrimSpace :: "string \<Rightarrow> string" where
  "strings_TrimSpace s = rev (dropWhile is_space (rev (dropWhile is_space s)))"

text \<open>The position of the last occurrence, or -1.\<close>

fun strings_LastIndex :: "string \<Rightarrow> char \<Rightarrow> int" where
  "strings_LastIndex [] c = -1"
| "strings_LastIndex (x # xs) c =
     (let i = strings_LastIndex xs c in if 0 \<le> i then i + 1 else if x = c then 0 else -1)"

lemma Split_not_Nil [simp]: "strings_Split c s \<noteq> []"
  by (induction s) (auto split: list.splits)

lemma Split_no_sep: "c \<notin> set s \<Longrightarrow> strings_Split c s = [s]"
  by (induction s) auto

lemma Split_append_sep: "c \<notin> set s \<Longrightarrow> strings_Split c (s @ c # t) = s # strings_Split c t"
  by (induction s) auto

lemma Split_parts_no_sep: "p \<in> set (strings_Split c s) \<Longrightarrow> c \<notin> set p"
  by (induction s arbitrary: p) (auto split: list.splits if_splits)

lemma Join_Cons: "ts \<noteq> [] \<Longrightarrow> strings_Join c (s # ts) = s @ c # strings_Join c ts"
  by (cases ts) auto

lemma Join_Split [go_simps]: "strings_Join c (strings_Split c s) = s"
proof (induction s)
  case (Cons x xs)
  obtain p ps where ps: "strings_Split c xs = p # ps"
    by (meson Split_not_Nil list.exhaust)
  with Cons show ?case by (cases ps) auto
qed simp

text \<open>Joining and splitting again gives the list back when no part contains the separator.\<close>

lemma Split_Join [go_simps]:
  "xs \<noteq> [] \<Longrightarrow> \<forall>x \<in> set xs. c \<notin> set x \<Longrightarrow> strings_Split c (strings_Join c xs) = xs"
  by (induction c xs rule: strings_Join.induct) (auto simp: Split_no_sep Split_append_sep)

lemma Split_length: "length (strings_Split c s) = Suc (count_list s c)"
  by (induction s) (auto split: list.splits)

lemma dropWhile_id: "xs = [] \<or> \<not> P (hd xs) \<Longrightarrow> dropWhile P xs = xs"
  by (cases xs) auto

text \<open>A string with no white space at either end is its own trimmed form.\<close>

definition trimmed :: "string \<Rightarrow> bool" where
  "trimmed s \<longleftrightarrow> s = [] \<or> \<not> is_space (hd s) \<and> \<not> is_space (last s)"

lemma TrimSpace_trimmed [go_simps]: "trimmed s \<Longrightarrow> strings_TrimSpace s = s"
  by (cases "s = []") (auto simp: trimmed_def strings_TrimSpace_def dropWhile_id hd_rev)

lemma dropWhile_rev_hd:
  "hd xs = x \<Longrightarrow> \<not> P x \<Longrightarrow> xs \<noteq> [] \<Longrightarrow>
   rev (dropWhile P (rev xs)) \<noteq> [] \<and> hd (rev (dropWhile P (rev xs))) = x"
proof (induction xs rule: rev_induct)
  case (snoc y ys)
  then show ?case by (cases "ys = []") auto
qed simp

lemma TrimSpace_is_trimmed: "trimmed (strings_TrimSpace s)"
proof -
  define u where "u = dropWhile is_space s"
  have t: "strings_TrimSpace s = rev (dropWhile is_space (rev u))"
    by (simp add: strings_TrimSpace_def u_def)
  show ?thesis
  proof (cases "dropWhile is_space (rev u) = []")
    case True
    then show ?thesis by (simp add: t trimmed_def)
  next
    case False
    then have "u \<noteq> []" by auto
    then have hd: "\<not> is_space (hd u)" using hd_dropWhile[of is_space s] by (simp add: u_def)
    have "hd (rev (dropWhile is_space (rev u))) = hd u"
      using dropWhile_rev_hd[of u "hd u" is_space] hd \<open>u \<noteq> []\<close> by simp
    moreover have "\<not> is_space (hd (dropWhile is_space (rev u)))"
      using False by (rule hd_dropWhile)
    ultimately show ?thesis using hd False by (simp add: t trimmed_def last_rev)
  qed
qed

lemma LastIndex_bounds: "-1 \<le> strings_LastIndex s c \<and> strings_LastIndex s c < int (length s)"
  by (induction s) (auto simp: Let_def)

lemma LastIndex_neg_iff: "strings_LastIndex s c < 0 \<longleftrightarrow> c \<notin> set s"
  by (induction s) (auto simp: Let_def)

lemma LastIndex_append [go_simps]:
  "c \<notin> set t \<Longrightarrow> strings_LastIndex (s @ c # t) c = int (length s)"
proof (induction s)
  case Nil
  then have "strings_LastIndex t c < 0" by (simp add: LastIndex_neg_iff)
  then show ?case by (simp add: Let_def)
qed (simp add: Let_def)

text \<open>The text after the last occurrence does not contain the separator again.\<close>

lemma LastIndex_split:
  assumes "0 \<le> strings_LastIndex s c"
  shows "\<exists>a b. s = a @ c # b \<and> c \<notin> set b \<and> strings_LastIndex s c = int (length a)"
proof -
  have "c \<in> set s" using assms LastIndex_neg_iff[of s c] by force
  then obtain a b where "s = a @ c # b" "c \<notin> set b"
    by (meson split_list_last)
  then show ?thesis by (auto simp: LastIndex_append)
qed

subsection \<open>Slices of a string\<close>

text \<open>\<^verbatim>\<open>s[:n]\<close> and \<^verbatim>\<open>s[n:]\<close> panic when \<^verbatim>\<open>n\<close> is beyond the length.\<close>

definition slice_to :: "string \<Rightarrow> nat \<Rightarrow> string go" where
  "slice_to s n = (if n \<le> length s then Ret (take n s) else Panic SliceBounds)"

definition slice_from :: "string \<Rightarrow> nat \<Rightarrow> string go" where
  "slice_from s n = (if n \<le> length s then Ret (drop n s) else Panic SliceBounds)"

subsection \<open>Letters, exported identifiers, header keys\<close>

definition is_upper :: "char \<Rightarrow> bool" where "is_upper c \<longleftrightarrow> CHR ''A'' \<le> c \<and> c \<le> CHR ''Z''"
definition is_lower :: "char \<Rightarrow> bool" where "is_lower c \<longleftrightarrow> CHR ''a'' \<le> c \<and> c \<le> CHR ''z''"

definition to_upper :: "char \<Rightarrow> char" where
  "to_upper c = (if is_lower c then char_of (of_char c - 32 :: nat) else c)"

definition to_lower :: "char \<Rightarrow> char" where
  "to_lower c = (if is_upper c then char_of (of_char c + 32 :: nat) else c)"

definition ast_IsExported :: "string \<Rightarrow> bool" where
  "ast_IsExported s = (case s of [] \<Rightarrow> False | c # _ \<Rightarrow> is_upper c)"

text \<open>
  \<^verbatim>\<open>textproto.CanonicalMIMEHeaderKey\<close>, which \<^verbatim>\<open>http.Header\<close> applies to the key in \<^verbatim>\<open>Get\<close> and
  \<^verbatim>\<open>Set\<close>: the first letter and every letter after a hyphen in upper case, the rest in lower case
  (the keys the program passes consist of letters and hyphens).
\<close>

fun canonical_key :: "bool \<Rightarrow> string \<Rightarrow> string" where
  "canonical_key up [] = []"
| "canonical_key up (c # cs) =
     (if up then to_upper c else to_lower c) # canonical_key (c = CHR ''-'') cs"

type_synonym http_header = "(string, string) dict"

definition header_Set :: "string \<Rightarrow> string \<Rightarrow> http_header \<Rightarrow> http_header" where
  "header_Set k v h = AList.update (canonical_key True k) v h"

definition header_Get :: "http_header \<Rightarrow> string \<Rightarrow> string" where
  "header_Get h k = (case map_of h (canonical_key True k) of None \<Rightarrow> [] | Some v \<Rightarrow> v)"

lemma header_Get_Set [go_simps]:
  "header_Get (header_Set k v h) k' =
     (if canonical_key True k' = canonical_key True k then v else header_Get h k')"
  by (simp add: header_Get_def header_Set_def update_conv)

lemma header_Get_Nil [simp]: "header_Get [] k = []"
  by (simp add: header_Get_def)

end
