(* ===== verification/Go_Text.thy ===== *)
theory Go_Text
  imports Go_Strings
begin

text \<open>
  Text as bytes: what is well-formed UTF-8, how package encoding/json repairs a string that is not,
  and what \<^verbatim>\<open>fmt.Errorf\<close> makes of a format that it is given without arguments.
\<close>

subsection \<open>UTF-8\<close>

definition in_range :: "nat \<Rightarrow> nat \<Rightarrow> nat \<Rightarrow> bool" where
  "in_range lo hi b \<longleftrightarrow> lo \<le> b \<and> b \<le> hi"

text \<open>
  The length of the encoded rune at the front of a byte sequence, as in the tables of package
  unicode/utf8: 0 when the first byte starts none (\<^verbatim>\<open>DecodeRuneInString\<close> then returns the error
  rune with width 1). Overlong forms, surrogates and runes above 10FFFF are refused.
\<close>

definition lead_len :: "nat \<Rightarrow> nat" where
  "lead_len b = (if b < 0x80 then 1 else if in_range 0xC2 0xDF b then 2
     else if in_range 0xE0 0xEF b then 3 else if in_range 0xF0 0xF4 b then 4 else 0)"

definition second_ok :: "nat \<Rightarrow> nat \<Rightarrow> bool" where
  "second_ok b = in_range (if b = 0xE0 then 0xA0 else if b = 0xF0 then 0x90 else 0x80)
     (if b = 0xED then 0x9F else if b = 0xF4 then 0x8F else 0xBF)"

fun rune_len :: "nat list \<Rightarrow> nat" where
  "rune_len [] = 0"
| "rune_len (b # bs) =
     (let n = lead_len b in
      if n \<le> 1 then n
      else if n \<le> Suc (length bs) \<and> second_ok b (hd bs) \<and> list_all (in_range 0x80 0xBF) (take (n - 2) (tl bs)) then n
      else 0)"

definition rune_size :: "string \<Rightarrow> nat" where
  "rune_size s = rune_len (map of_char s)"

definition replacement :: string where
  "replacement = [CHR 0xEF, CHR 0xBF, CHR 0xBD]"

text \<open>
  \<open>utf8_valid\<close> is \<^verbatim>\<open>utf8.ValidString\<close>; \<open>utf8_repair\<close> is what an encoded string stands for: each byte
  that belongs to no rune is replaced by U+FFFD.
\<close>

fun utf8_valid :: "string \<Rightarrow> bool" where
  "utf8_valid [] = True"
| "utf8_valid (c # cs) = (rune_size (c # cs) \<noteq> 0 \<and> utf8_valid (drop (rune_size (c # cs) - 1) cs))"

fun utf8_repair :: "string \<Rightarrow> string" where
  "utf8_repair [] = []"
| "utf8_repair (c # cs) =
     (if rune_size (c # cs) = 0 then replacement @ utf8_repair cs
      else take (rune_size (c # cs)) (c # cs) @ utf8_repair (drop (rune_size (c # cs) - 1) cs))"

declare utf8_valid.simps(2) [simp del] utf8_repair.simps(2) [simp del]

lemma utf8_repair_valid [simp]: "utf8_valid s \<Longrightarrow> utf8_repair s = s"
proof (induction s rule: utf8_valid.induct)
  case (2 c cs)
  let ?n = "rune_size (c # cs)"
  have "?n \<noteq> 0" and v: "utf8_valid (drop (?n - 1) cs)" using 2(2) by (simp_all add: utf8_valid.simps)
  then have "utf8_repair (c # cs) = take ?n (c # cs) @ drop (?n - 1) cs"
    using 2(1) by (simp add: utf8_repair.simps)
  also have "drop (?n - 1) cs = drop ?n (c # cs)" using \<open>?n \<noteq> 0\<close> by (cases ?n) simp_all
  finally show ?case by simp
qed simp

lemma utf8_repair_Nil [simp]: "utf8_repair s = [] \<longleftrightarrow> s = []"
  by (cases s) (auto simp: utf8_repair.simps replacement_def)

text \<open>A letter in two bytes; a byte that begins a letter without the rest; an overlong form; half of a surrogate pair.\<close>

lemma utf8_examples:
  "utf8_valid [CHR 0xC3, CHR 0xA9]"
  "utf8_repair [CHR 0xC3, CHR ''a''] = replacement @ ''a''"
  "utf8_repair [CHR 0xC0, CHR 0x80] = replacement @ replacement"
  "utf8_repair [CHR 0xED, CHR 0xA0, CHR 0x80] = replacement @ replacement @ replacement"
  by (simp_all add: utf8_valid.simps utf8_repair.simps rune_size_def lead_len_def second_ok_def in_range_def Let_def)

lemma rune_size_ascii: "of_char c < (0x80 :: nat) \<Longrightarrow> rune_size (c # cs) = 1"
  by (simp add: rune_size_def lead_len_def)

lemma utf8_valid_ascii [simp]: "of_char c < (0x80 :: nat) \<Longrightarrow> utf8_valid (c # cs) = utf8_valid cs"
  by (simp add: utf8_valid.simps rune_size_ascii)

lemma utf8_repair_ascii: "of_char c < (0x80 :: nat) \<Longrightarrow> utf8_repair (c # cs) = c # utf8_repair cs"
  by (simp add: utf8_repair.simps rune_size_ascii)

text \<open>A rune is a rune whatever follows it, and a repaired string is well formed.\<close>

lemma rune_len_append: "rune_len bs \<noteq> 0 \<Longrightarrow> rune_len (bs @ cs) = rune_len bs"
  by (cases bs; cases "tl bs") (auto simp: Let_def split: if_splits)

lemma rune_len_le: "rune_len bs \<le> length bs"
  by (cases bs) (auto simp: Let_def)

lemma rune_len_take: "rune_len (take (rune_len bs) bs) = rune_len bs"
proof (cases bs)
  case (Cons b bs')
  show ?thesis
  proof (cases "rune_len bs \<le> 1")
    case True
    then show ?thesis using Cons by (auto simp: Let_def le_Suc_eq split: if_splits)
  next
    case False
    then have r: "rune_len bs = lead_len b" "2 \<le> lead_len b" "lead_len b \<le> Suc (length bs')" "second_ok b (hd bs')"
      "list_all (in_range 0x80 0xBF) (take (lead_len b - 2) (tl bs'))"
      using Cons by (auto simp: Let_def split: if_splits)
    then obtain m where "lead_len b = Suc (Suc m)" by (metis add_2_eq_Suc le_Suc_ex)
    then show ?thesis using r Cons by (cases bs') (simp_all add: Let_def)
  qed
qed simp

lemma utf8_valid_rune:
  assumes "rune_size s = n" and "n \<noteq> 0" and "length s = n"
  shows "utf8_valid (s @ t) = utf8_valid t"
proof (cases s)
  case (Cons c cs)
  have "rune_size (c # cs @ t) = n"
    using rune_len_append[of "map of_char s" "map of_char t"] assms Cons by (simp add: rune_size_def)
  then show ?thesis using assms Cons by (simp add: utf8_valid.simps)
qed (use assms in simp)

lemma utf8_valid_repair [simp]: "utf8_valid (utf8_repair s)"
proof (induction s rule: utf8_repair.induct)
  case (2 c cs)
  let ?n = "rune_size (c # cs)"
  show ?case
  proof (cases "?n = 0")
    case True
    have "rune_size replacement = 3" "length replacement = 3"
      by (simp_all add: rune_size_def replacement_def lead_len_def second_ok_def in_range_def)
    then show ?thesis using True 2 utf8_valid_rune[of replacement 3] by (simp add: utf8_repair.simps)
  next
    case False
    have "rune_size (take ?n (c # cs)) = ?n" "length (take ?n (c # cs)) = ?n"
      using rune_len_take[of "map of_char (c # cs)"] rune_len_le[of "map of_char (c # cs)"]
      unfolding rune_size_def by (simp_all only: take_map length_take length_map)
    then show ?thesis using False 2 utf8_valid_rune[of "take ?n (c # cs)" ?n] by (simp add: utf8_repair.simps)
  qed
qed simp

lemma utf8_repair_twice [simp]: "utf8_repair (utf8_repair s) = utf8_repair s"
  by simp

text \<open>Repairing a text that is not UTF-8 never gives a text of ASCII characters.\<close>

lemma utf8_repair_is_ascii:
  "list_all (\<lambda>c. of_char c < (0x80 :: nat)) (utf8_repair s) \<Longrightarrow> utf8_repair s = s"
proof (induction s rule: utf8_repair.induct)
  case (2 c cs)
  let ?n = "rune_size (c # cs)"
  have n: "?n \<noteq> 0"
  proof
    assume "?n = 0"
    then show False using 2(3) by (simp add: utf8_repair.simps replacement_def)
  qed
  then obtain k where "?n = Suc k" by (cases ?n) auto
  then have "of_char c < (0x80 :: nat)" using 2(3) by (simp add: utf8_repair.simps)
  then show ?case using 2(2)[OF n] 2(3) n by (simp add: utf8_repair_ascii rune_size_ascii)
qed simp

lemma utf8_repair_id: "utf8_repair s = s \<longleftrightarrow> utf8_valid s"
  by (metis utf8_valid_repair utf8_repair_valid)

subsection \<open>fmt.Errorf without arguments\<close>

text \<open>
  \<^verbatim>\<open>doPrintf\<close> of package fmt, for an empty list of arguments: the text between verbs is copied, \<open>%%\<close>
  is a percent sign, and every other verb is reported as missing its argument. \<open>parse_num\<close> is its
  \<^verbatim>\<open>parsenum\<close> (a number that is too large makes it skip the rest), \<open>arg_number\<close> its \<^verbatim>\<open>argNumber\<close>: whether
  an index in brackets was found (with no arguments, never a valid one), whether it makes the verb bad,
  and the text after it.
\<close>

fun parse_num :: "nat \<Rightarrow> bool \<Rightarrow> string \<Rightarrow> bool \<times> string" where
  "parse_num n isnum [] = (isnum, [])"
| "parse_num n isnum (c # cs) =
     (if CHR ''0'' \<le> c \<and> c \<le> CHR ''9'' then
        (if n > 1000000 then (False, []) else parse_num (10 * n + (of_char c - 48)) True cs)
      else (isnum, c # cs))"

definition arg_number :: "string \<Rightarrow> bool \<times> string" where
  "arg_number s =
     (if s = [] \<or> hd s \<noteq> CHR ''['' then (False, s)
      else if length s < 3 \<or> CHR '']'' \<notin> set s then (True, tl s)
      else (True, tl (dropWhile (\<lambda>c. c \<noteq> CHR '']'') s)))"

text \<open>
  The second component of \<^verbatim>\<open>argNumber\<close>'s result, the flag \<^verbatim>\<open>found\<close>, is that of a number between the
  brackets.
\<close>

definition index_found :: "string \<Rightarrow> bool" where
  "index_found s \<longleftrightarrow> \<not> (s = [] \<or> hd s \<noteq> CHR ''['') \<and> \<not> (length s < 3 \<or> CHR '']'' \<notin> set s) \<and>
     parse_num 0 False (takeWhile (\<lambda>c. c \<noteq> CHR '']'') (tl s)) = (True, [])"

definition fmt_width :: "bool \<Rightarrow> string \<Rightarrow> string \<times> bool \<times> bool \<times> string" where
  "fmt_width after s =
     (if s \<noteq> [] \<and> hd s = CHR ''*'' then (''%!(BADWIDTH)'', False, False, tl s)
      else (let (isnum, t) = parse_num 0 False s in ([], after \<and> isnum, after, t)))"

definition fmt_precision :: "bool \<Rightarrow> string \<Rightarrow> string \<times> bool \<times> bool \<times> string" where
  "fmt_precision after s =
     (if s = [] \<or> hd s \<noteq> CHR ''.'' then ([], False, after, s)
      else (let (bad, t) = arg_number (tl s) in
        if t \<noteq> [] \<and> hd t = CHR ''*'' then (''%!(BADPREC)'', after \<or> bad, False, tl t)
        else ([], after \<or> bad, index_found (tl s), snd (parse_num 0 False t))))"

text \<open>What a verb prints, and the text after it.\<close>

definition fmt_verb :: "string \<Rightarrow> string \<times> string" where
  "fmt_verb s =
     (let s1 = dropWhile (\<lambda>c. c \<in> set ''#0+- '') s;
          (bad1, s2) = arg_number s1;
          (w, bad2, after2, s3) = fmt_width (index_found s1) s2;
          (p, bad3, after3, s4) = fmt_precision after2 s3;
          (bad4, s5) = (if after3 then (False, s4) else arg_number s4);
          bad = (bad1 \<or> bad2 \<or> bad3 \<or> bad4)
      in case s5 of
           [] \<Rightarrow> (w @ p @ ''%!(NOVERB)'', [])
         | c # cs \<Rightarrow>
             (if c = CHR ''%'' then (w @ p @ ''%'', cs)
              else (let n = rune_size (c # cs);
                        verb = (if n = 0 then replacement else take n (c # cs))
                    in (w @ p @ ''%!'' @ verb @ (if bad then ''(BADINDEX)'' else ''(MISSING)''), drop (n - 1) cs))))"

lemma parse_num_le: "length (snd (parse_num n b s)) \<le> length s"
  by (induction n b s rule: parse_num.induct) auto

lemma arg_number_le: "length (snd (arg_number s)) \<le> length s"
proof -
  have "length (dropWhile P s) \<le> length s" for P :: "char \<Rightarrow> bool" by (rule length_dropWhile_le)
  from this[of "\<lambda>c. c \<noteq> CHR '']''"] show ?thesis by (auto simp: arg_number_def)
qed

lemma fmt_width_le: "fmt_width a s = (w, b, a', t) \<Longrightarrow> length t \<le> length s"
  using parse_num_le[of 0 False s] by (auto simp: fmt_width_def split: if_splits prod.splits)

lemma fmt_precision_le: "fmt_precision a s = (w, b, a', t) \<Longrightarrow> length t \<le> length s"
  using parse_num_le[of 0 False "snd (arg_number (tl s))"] arg_number_le[of "tl s"]
  by (auto simp: fmt_precision_def split: if_splits prod.splits)

lemma fmt_verb_le: "length (snd (fmt_verb s)) \<le> length s"
proof -
  let ?s1 = "dropWhile (\<lambda>c. c \<in> set ''#0+- '') s"
  obtain bad1 s2 where 1: "arg_number ?s1 = (bad1, s2)" by fastforce
  obtain w bad2 after2 s3 where 2: "fmt_width (index_found ?s1) s2 = (w, bad2, after2, s3)"
    by (metis prod_cases4)
  obtain p bad3 after3 s4 where 3: "fmt_precision after2 s3 = (p, bad3, after3, s4)" by (metis prod_cases4)
  obtain bad4 s5 where 4: "(if after3 then (False, s4) else arg_number s4) = (bad4, s5)" by fastforce
  have "length s5 \<le> length s4" using 4 arg_number_le[of s4] by (auto split: if_splits)
  also have "\<dots> \<le> length s3" using 3 by (rule fmt_precision_le)
  also have "\<dots> \<le> length s2" using 2 by (rule fmt_width_le)
  also have "\<dots> \<le> length ?s1" using 1 arg_number_le[of ?s1] by simp
  also have "\<dots> \<le> length s" by (rule length_dropWhile_le)
  finally have "length s5 \<le> length s" .
  moreover have "length (snd (fmt_verb s)) \<le> length s5"
    by (simp only: fmt_verb_def Let_def 1 2 3 4 split_beta fst_conv snd_conv) (auto split: list.split)
  ultimately show ?thesis by linarith
qed

function fmt_Errorf :: "string \<Rightarrow> string" where
  "fmt_Errorf [] = []"
| "fmt_Errorf (c # cs) =
     (if c = CHR ''%'' then fst (fmt_verb cs) @ fmt_Errorf (snd (fmt_verb cs)) else c # fmt_Errorf cs)"
  by pat_completeness auto
termination
  by (relation "measure length") (auto simp: le_imp_less_Suc fmt_verb_le)

text \<open>A text without a percent sign is copied; one with a percent sign need not be.\<close>

lemma fmt_Errorf_plain: "CHR ''%'' \<notin> set s \<Longrightarrow> fmt_Errorf s = s"
  by (induction s) auto

lemma fmt_Errorf_examples:
  "fmt_Errorf ''disk 100% full'' = ''disk 100%!f(MISSING)ull''"
  "fmt_Errorf ''100%'' = ''100%!(NOVERB)''"
  "fmt_Errorf ''50%% of %5.2d'' = ''50% of %!d(MISSING)''"
  "fmt_Errorf ''%[1]s %*d'' = ''%!s(BADINDEX) %!(BADWIDTH)%!d(MISSING)''"
  by (simp_all add: fmt_verb_def arg_number_def index_found_def fmt_width_def fmt_precision_def rune_size_def
      lead_len_def)

end
