(* ===== verification/Go_Values.thy ===== *)
theory Go_Values
  imports Go_Text
begin

text \<open>
  The part of package reflect and of package encoding/json that SpartanRPC uses: Go types and
  values, their zero values, and the encoding of a value as JSON and back. JSON text is represented
  by its value: \<open>marshal\<close> gives the value that \<^verbatim>\<open>json.Encoder\<close> prints (or fails on a type that JSON
  cannot express) and \<open>unmarshal\<close> stores a parsed value into a variable of a Go type, with the
  flag that \<^verbatim>\<open>json.Decoder\<close> turns into its type error. A string of a JSON value is what the text
  stands for; JSON text is UTF-8, so \<open>marshal\<close> repairs the strings that are not.
\<close>

subsection \<open>Types\<close>

datatype go_type =
    TBool
  | TInt
  | TUint64
  | TString
  | TError
  | TFunc
  | TPtr go_type
  | TSlice go_type
  | TArray nat go_type
  | TMap go_type go_type
  | TStruct "(string \<times> go_type) list"
  | TNamed string string go_type

datatype go_kind = KBool | KInt | KUint64 | KString | KInterface | KFunc | KPtr | KSlice | KArray | KMap | KStruct

fun type_Name :: "go_type \<Rightarrow> string" where
  "type_Name TBool = ''bool''"
| "type_Name TInt = ''int''"
| "type_Name TUint64 = ''uint64''"
| "type_Name TString = ''string''"
| "type_Name TError = ''error''"
| "type_Name (TNamed pkg name t) = name"
| "type_Name _ = ''''"

fun type_PkgPath :: "go_type \<Rightarrow> string" where
  "type_PkgPath (TNamed pkg name t) = pkg"
| "type_PkgPath _ = ''''"

fun underlying :: "go_type \<Rightarrow> go_type" where
  "underlying (TNamed pkg name t) = underlying t"
| "underlying t = t"

fun type_Kind :: "go_type \<Rightarrow> go_kind" where
  "type_Kind TBool = KBool"
| "type_Kind TInt = KInt"
| "type_Kind TUint64 = KUint64"
| "type_Kind TString = KString"
| "type_Kind TError = KInterface"
| "type_Kind TFunc = KFunc"
| "type_Kind (TPtr t) = KPtr"
| "type_Kind (TSlice t) = KSlice"
| "type_Kind (TArray n t) = KArray"
| "type_Kind (TMap k t) = KMap"
| "type_Kind (TStruct fs) = KStruct"
| "type_Kind (TNamed pkg name t) = type_Kind t"

text \<open>\<^verbatim>\<open>Type.Elem\<close> panics unless the kind is array, map, pointer or slice (or channel).\<close>

fun type_Elem :: "go_type \<Rightarrow> go_type go" where
  "type_Elem (TPtr t) = Ret t"
| "type_Elem (TSlice t) = Ret t"
| "type_Elem (TArray n t) = Ret t"
| "type_Elem (TMap k t) = Ret t"
| "type_Elem (TNamed pkg name t) = type_Elem t"
| "type_Elem _ = Panic ReflectPanic"

text \<open>A value of type \<open>v\<close> can be passed where \<open>t\<close> is expected.\<close>

definition is_named :: "go_type \<Rightarrow> bool" where
  "is_named t \<longleftrightarrow> (case t of TPtr _ \<Rightarrow> False | TSlice _ \<Rightarrow> False | TArray _ _ \<Rightarrow> False
     | TMap _ _ \<Rightarrow> False | TStruct _ \<Rightarrow> False | TFunc \<Rightarrow> False | _ \<Rightarrow> True)"

definition assignable :: "go_type \<Rightarrow> go_type \<Rightarrow> bool" where
  "assignable v t \<longleftrightarrow> v = t \<or> (underlying v = underlying t \<and> \<not> (is_named v \<and> is_named t))"

text \<open>The types of the keys of a map that package json can print and read.\<close>

definition key_type :: "go_type \<Rightarrow> bool" where
  "key_type t \<longleftrightarrow> type_Kind t \<in> {KString, KInt, KUint64}"

subsection \<open>Values\<close>

text \<open>
  \<open>VNil\<close> is a nil pointer, slice, map or interface. \<open>VOpaque\<close> is a value of a type that package json
  refuses whatever the value is (nil too): a function, or a map whose keys are not of a \<open>key_type\<close>.
\<close>

datatype go_value =
    VNil
  | VBool bool
  | VInt int
  | VUint "64 word"
  | VStr string
  | VOpaque
  | VPtr go_value
  | VSlice "go_value list"
  | VArray "go_value list"
  | VMap "(go_value \<times> go_value) list"
  | VStruct "(string \<times> go_value) list"

fun zero_value :: "go_type \<Rightarrow> go_value" where
  "zero_value TBool = VBool False"
| "zero_value TInt = VInt 0"
| "zero_value TUint64 = VUint 0"
| "zero_value TString = VStr ''''"
| "zero_value (TArray n t) = VArray (replicate n (zero_value t))"
| "zero_value (TStruct fs) = VStruct (map (\<lambda>(n, t). (n, zero_value t)) fs)"
| "zero_value (TNamed pkg name t) = zero_value t"
| "zero_value TFunc = VOpaque"
| "zero_value (TMap k t) = (if key_type k then VNil else VOpaque)"
| "zero_value _ = VNil"

text \<open>A \<^verbatim>\<open>reflect.Value\<close> carries its type.\<close>

record reflect_value =
  rv_Type :: go_type
  rv_Val :: go_value

definition reflect_New :: "go_type \<Rightarrow> reflect_value" where
  "reflect_New t = \<lparr>rv_Type = TPtr t, rv_Val = VPtr (zero_value t)\<rparr>"

text \<open>\<^verbatim>\<open>reflect.MakeMap\<close>: an empty map of the type.\<close>

fun reflect_MakeMap :: "go_type \<Rightarrow> go_value" where
  "reflect_MakeMap (TNamed pkg name t) = reflect_MakeMap t"
| "reflect_MakeMap (TMap k t) = (if key_type k then VMap [] else VOpaque)"
| "reflect_MakeMap _ = VNil"

subsection \<open>Decimal numerals, for the keys of maps\<close>

fun show_nat :: "nat \<Rightarrow> string" where
  "show_nat n = (if n < 10 then [char_of (48 + n)] else show_nat (n div 10) @ [char_of (48 + n mod 10)])"

definition show_int :: "int \<Rightarrow> string" where
  "show_int i = (if i < 0 then CHR ''-'' # show_nat (nat (- i)) else show_nat (nat i))"

definition is_digit :: "char \<Rightarrow> bool" where
  "is_digit c \<longleftrightarrow> CHR ''0'' \<le> c \<and> c \<le> CHR ''9''"

definition read_nat :: "string \<Rightarrow> nat option" where
  "read_nat s = (if s \<noteq> [] \<and> list_all is_digit s
                 then Some (foldl (\<lambda>n c. 10 * n + (of_char c - 48)) 0 s) else None)"

definition read_int :: "string \<Rightarrow> int option" where
  "read_int s = (case s of [] \<Rightarrow> None
     | c # cs \<Rightarrow> if c = CHR ''-'' then map_option (\<lambda>n. - int n) (read_nat cs)
                 else if c = CHR ''+'' then map_option int (read_nat cs)
                 else map_option int (read_nat s))"

subsection \<open>Encoding\<close>

datatype json =
    JNull
  | JBool bool
  | JNum int
  | JFrac string
  | JStr string
  | JArr "json list"
  | JObj "(string \<times> json) list"

fun map_key :: "go_value \<Rightarrow> string option" where
  "map_key (VStr s) = Some s"
| "map_key (VInt i) = Some (show_int i)"
| "map_key (VUint w) = Some (show_int (uint w))"
| "map_key _ = None"

text \<open>
  \<open>None\<close> stands for \<^verbatim>\<open>json.UnsupportedTypeError\<close>. Fields that are not exported are left out; the
  keys of a map are printed in ascending order. The encoder writes U+FFFD for each byte of a string
  or key that is not UTF-8 (the names of fields are identifiers).
\<close>

fun marshal :: "go_value \<Rightarrow> json option"
  and marshal_list :: "go_value list \<Rightarrow> json list option"
  and marshal_entries :: "(go_value \<times> go_value) list \<Rightarrow> (string \<times> json) list option"
  and marshal_fields :: "(string \<times> go_value) list \<Rightarrow> (string \<times> json) list option" where
  "marshal VNil = Some JNull"
| "marshal (VBool b) = Some (JBool b)"
| "marshal (VInt i) = Some (JNum i)"
| "marshal (VUint w) = Some (JNum (uint w))"
| "marshal (VStr s) = Some (JStr (utf8_repair s))"
| "marshal VOpaque = None"
| "marshal (VPtr v) = marshal v"
| "marshal (VSlice vs) = map_option JArr (marshal_list vs)"
| "marshal (VArray vs) = map_option JArr (marshal_list vs)"
| "marshal (VMap es) = map_option (\<lambda>kvs. JObj (map (map_prod utf8_repair id) (sort_key fst kvs))) (marshal_entries es)"
| "marshal (VStruct fs) = map_option JObj (marshal_fields fs)"
| "marshal_list [] = Some []"
| "marshal_list (v # vs) =
     (case marshal v of None \<Rightarrow> None
      | Some j \<Rightarrow> map_option ((#) j) (marshal_list vs))"
| "marshal_entries [] = Some []"
| "marshal_entries ((k, v) # es) =
     (case (map_key k, marshal v) of (Some s, Some j) \<Rightarrow> map_option ((#) (s, j)) (marshal_entries es)
      | _ \<Rightarrow> None)"
| "marshal_fields [] = Some []"
| "marshal_fields ((n, v) # fs) =
     (if ast_IsExported n then
        (case marshal v of None \<Rightarrow> None
         | Some j \<Rightarrow> map_option ((#) (n, j)) (marshal_fields fs))
      else marshal_fields fs)"

subsection \<open>Decoding\<close>

definition int_ok :: "int \<Rightarrow> bool" where "int_ok i \<longleftrightarrow> - (2 ^ 63) \<le> i \<and> i < 2 ^ 63"
definition uint64_ok :: "int \<Rightarrow> bool" where "uint64_ok i \<longleftrightarrow> 0 \<le> i \<and> i < 2 ^ 64"

text \<open>A key selects the exported field of that name, or else one that differs in letter case only.\<close>

definition find_field :: "string \<Rightarrow> (string \<times> go_type) list \<Rightarrow> (string \<times> go_type) option" where
  "find_field k fs =
     (let es = filter (\<lambda>f. ast_IsExported (fst f)) fs
      in case find (\<lambda>f. fst f = k) es of
           Some f \<Rightarrow> Some f
         | None \<Rightarrow> find (\<lambda>f. map to_lower (fst f) = map to_lower k) es)"

fun read_key :: "go_type \<Rightarrow> string \<Rightarrow> go_value option" where
  "read_key TString s = Some (VStr s)"
| "read_key TInt s =
     (case read_int s of Some i \<Rightarrow> if int_ok i then Some (VInt i) else None | None \<Rightarrow> None)"
| "read_key TUint64 s =
     (case read_nat s of Some n \<Rightarrow> if uint64_ok (int n) then Some (VUint (of_nat n)) else None | None \<Rightarrow> None)"
| "read_key (TNamed pkg name t) s = read_key t s"
| "read_key _ s = None"

lemma size_list_take_le: "size_list f (take n xs) \<le> size_list f xs"
proof (induction xs arbitrary: n)
  case (Cons x xs)
  then show ?case by (cases n) auto
qed simp

text \<open>
  \<open>unmarshal t j v\<close> decodes \<open>j\<close> into a variable of type \<open>t\<close> that holds \<open>v\<close>; the flag says that some
  part did not fit its type. Such a part is skipped and the decoding goes on, as in package json.
\<close>

function (sequential) unmarshal :: "go_type \<Rightarrow> json \<Rightarrow> go_value \<Rightarrow> go_value \<times> bool"
  and unmarshal_list :: "go_type \<Rightarrow> json list \<Rightarrow> go_value list \<Rightarrow> go_value list \<times> bool"
  and unmarshal_entries ::
    "go_type \<Rightarrow> go_type \<Rightarrow> (string \<times> json) list \<Rightarrow> (go_value \<times> go_value) list \<Rightarrow> (go_value \<times> go_value) list \<times> bool"
  and unmarshal_fields ::
    "(string \<times> go_type) list \<Rightarrow> (string \<times> json) list \<Rightarrow> (string \<times> go_value) list \<Rightarrow> (string \<times> go_value) list \<times> bool"
where
  "unmarshal (TNamed pkg name t) j v = unmarshal t j v"
| "unmarshal (TPtr t) JNull v = (VNil, False)"
| "unmarshal (TPtr t) j v =
     (let (w, e) = unmarshal t j (case v of VPtr w \<Rightarrow> w | _ \<Rightarrow> zero_value t) in (VPtr w, e))"
| "unmarshal TBool j v =
     (case j of JBool b \<Rightarrow> (VBool b, False) | JNull \<Rightarrow> (v, False) | _ \<Rightarrow> (v, True))"
| "unmarshal TInt j v =
     (case j of JNum i \<Rightarrow> if int_ok i then (VInt i, False) else (v, True)
      | JNull \<Rightarrow> (v, False) | _ \<Rightarrow> (v, True))"
| "unmarshal TUint64 j v =
     (case j of JNum i \<Rightarrow> if uint64_ok i then (VUint (word_of_int i), False) else (v, True)
      | JNull \<Rightarrow> (v, False) | _ \<Rightarrow> (v, True))"
| "unmarshal TString j v =
     (case j of JStr s \<Rightarrow> (VStr s, False) | JNull \<Rightarrow> (v, False) | _ \<Rightarrow> (v, True))"
| "unmarshal TError j v = (if j = JNull then (VNil, False) else (v, True))"
| "unmarshal TFunc j v = (v, j \<noteq> JNull)"
| "unmarshal (TSlice t) (JArr js) v =
     (let (ws, e) = unmarshal_list t js (case v of VSlice us \<Rightarrow> us | _ \<Rightarrow> []) in (VSlice ws, e))"
| "unmarshal (TSlice t) j v = (if j = JNull then (VNil, False) else (v, True))"
| "unmarshal (TArray n t) (JArr js) v =
     (let (ws, e) = unmarshal_list t (take n js) (case v of VArray us \<Rightarrow> us | _ \<Rightarrow> [])
      in (VArray (ws @ replicate (n - length ws) (zero_value t)), e))"
| "unmarshal (TArray n t) j v = (v, j \<noteq> JNull)"
| "unmarshal (TMap k t) (JObj kvs) v =
     (if key_type k
      then (let (es, e) = unmarshal_entries k t kvs (case v of VMap es \<Rightarrow> es | _ \<Rightarrow> []) in (VMap es, e))
      else (v, True))"
| "unmarshal (TMap k t) j v = (if j = JNull then (if key_type k then VNil else VOpaque, False) else (v, True))"
| "unmarshal (TStruct fts) (JObj kvs) v =
     (let (fs, e) = unmarshal_fields fts kvs (case v of VStruct fs \<Rightarrow> fs | _ \<Rightarrow> []) in (VStruct fs, e))"
| "unmarshal (TStruct fts) j v = (v, j \<noteq> JNull)"
| "unmarshal_list t [] us = ([], False)"
| "unmarshal_list t (j # js) us =
     (let (w, e) = unmarshal t j (case us of [] \<Rightarrow> zero_value t | u # _ \<Rightarrow> u);
          (ws, e') = unmarshal_list t js (tl us)
      in (w # ws, e \<or> e'))"
| "unmarshal_entries k t [] es = (es, False)"
| "unmarshal_entries k t ((s, j) # kvs) es =
     (let (w, e) = unmarshal t j (zero_value t)
      in case read_key k s of
           None \<Rightarrow> (let (es', e') = unmarshal_entries k t kvs es in (es', True))
         | Some key \<Rightarrow> (let (es', e') = unmarshal_entries k t kvs (AList.update key w es) in (es', e \<or> e')))"
| "unmarshal_fields fts [] fs = (fs, False)"
| "unmarshal_fields fts ((s, j) # kvs) fs =
     (case find_field s fts of
        None \<Rightarrow> unmarshal_fields fts kvs fs
      | Some (n, t) \<Rightarrow>
          (let (w, e) = unmarshal t j (case map_of fs n of Some v \<Rightarrow> v | None \<Rightarrow> zero_value t);
               (fs', e') = unmarshal_fields fts kvs (AList.update n w fs)
           in (fs', e \<or> e')))"
  by pat_completeness auto
termination
  by (relation "measures
    [\<lambda>x. case x of
        Inl (Inl (t, j, v)) \<Rightarrow> size j
      | Inl (Inr (t, js, us)) \<Rightarrow> size_list size js
      | Inr (Inl (k, t, kvs, es)) \<Rightarrow> size_list (size_prod (\<lambda>_. 0) size) kvs
      | Inr (Inr (fts, kvs, fs)) \<Rightarrow> size_list (size_prod (\<lambda>_. 0) size) kvs,
     \<lambda>x. case x of
        Inl (Inl (t, j, v)) \<Rightarrow> size t
      | _ \<Rightarrow> 0]") (auto intro: le_imp_less_Suc size_list_take_le)

subsection \<open>Typed values\<close>

text \<open>
  The values a variable of a Go type can hold (of an interface type, only nil is represented).
\<close>

function (sequential) typed :: "go_type \<Rightarrow> go_value \<Rightarrow> bool"
  and typed_list :: "go_type \<Rightarrow> go_value list \<Rightarrow> bool"
  and typed_entries :: "go_type \<Rightarrow> go_type \<Rightarrow> (go_value \<times> go_value) list \<Rightarrow> bool"
  and typed_fields :: "(string \<times> go_type) list \<Rightarrow> (string \<times> go_value) list \<Rightarrow> bool" where
  "typed (TNamed pkg name t) v = typed t v"
| "typed TBool v = (case v of VBool b \<Rightarrow> True | _ \<Rightarrow> False)"
| "typed TInt v = (case v of VInt i \<Rightarrow> int_ok i | _ \<Rightarrow> False)"
| "typed TUint64 v = (case v of VUint w \<Rightarrow> True | _ \<Rightarrow> False)"
| "typed TString v = (case v of VStr s \<Rightarrow> True | _ \<Rightarrow> False)"
| "typed TError v = (v = VNil)"
| "typed TFunc v = (v = VOpaque)"
| "typed (TPtr t) (VPtr v) = typed t v"
| "typed (TPtr t) v = (v = VNil)"
| "typed (TSlice t) (VSlice vs) = typed_list t vs"
| "typed (TSlice t) v = (v = VNil)"
| "typed (TArray n t) (VArray vs) = (length vs = n \<and> typed_list t vs)"
| "typed (TArray n t) v = False"
| "typed (TMap k t) (VMap es) = (key_type k \<and> dict_ok es \<and> typed_entries k t es)"
| "typed (TMap k t) v = (if key_type k then v = VNil else v = VOpaque)"
| "typed (TStruct fts) (VStruct fs) = (dict_ok fts \<and> typed_fields fts fs)"
| "typed (TStruct fts) v = False"
| "typed_list t [] = True"
| "typed_list t (v # vs) = (typed t v \<and> typed_list t vs)"
| "typed_entries k t [] = True"
| "typed_entries k t ((x, v) # es) = (typed k x \<and> typed t v \<and> typed_entries k t es)"
| "typed_fields [] [] = True"
| "typed_fields ((n, t) # fts) ((m, v) # fs) = (n = m \<and> typed t v \<and> typed_fields fts fs)"
| "typed_fields _ _ = False"
  by pat_completeness auto
termination
  by (relation "measures
    [\<lambda>x. case x of
        Inl (Inl (t, v)) \<Rightarrow> size v
      | Inl (Inr (t, vs)) \<Rightarrow> size_list size vs
      | Inr (Inl (k, t, es)) \<Rightarrow> size_list (size_prod size size) es
      | Inr (Inr (fts, fs)) \<Rightarrow> size_list (size_prod (\<lambda>_. 0) size) fs,
     \<lambda>x. case x of
        Inl (Inl (t, v)) \<Rightarrow> size t
      | _ \<Rightarrow> 0]") auto

text \<open>A type whose structures have distinct field names, as Go requires.\<close>

fun type_ok :: "go_type \<Rightarrow> bool" where
  "type_ok (TNamed pkg name t) = type_ok t"
| "type_ok (TPtr t) = type_ok t"
| "type_ok (TSlice t) = type_ok t"
| "type_ok (TArray n t) = type_ok t"
| "type_ok (TMap k t) = (type_ok k \<and> type_ok t)"
| "type_ok (TStruct fts) = (dict_ok fts \<and> (\<forall>f \<in> set fts. type_ok (snd f)))"
| "type_ok _ = True"

lemma typed_list_iff: "typed_list t vs \<longleftrightarrow> (\<forall>v \<in> set vs. typed t v)"
  by (induction vs) auto

lemma typed_entries_iff: "typed_entries k t es \<longleftrightarrow> (\<forall>e \<in> set es. typed k (fst e) \<and> typed t (snd e))"
  by (induction es) auto

lemma typed_fields_iff:
  "typed_fields fts fs \<longleftrightarrow> list_all2 (\<lambda>f g. fst f = fst g \<and> typed (snd f) (snd g)) fts fs"
proof (induction fts fs rule: list_induct2')
  case (4 f fts g fs)
  then show ?case by (cases f; cases g) simp
next
  case (2 f fts)
  show ?case by (cases f) simp
next
  case (3 g fs)
  show ?case by (cases g) simp
qed simp

lemma zero_typed: "type_ok t \<Longrightarrow> typed t (zero_value t)"
proof (induction t)
  case (TStruct fts)
  have "typed (snd f) (zero_value (snd f))" if "f \<in> set fts" for f
    using TStruct.IH[OF that, of "snd f"] TStruct.prems that by (cases f) auto
  then have "typed_fields fts (map (\<lambda>(n, t). (n, zero_value t)) fts)"
    by (simp add: typed_fields_iff list_all2_map2 list.rel_refl_strong split_def)
  with TStruct.prems show ?case by simp
qed (auto simp: typed_list_iff int_ok_def)

end
