(* ===== verification/Go_Json_Laws.thy ===== *)
theory Go_Json_Laws
  imports Go_Values
begin

text \<open>
  Two laws of the JSON representation: decoding anything into a typed variable leaves it typed
  (whatever the peer sends, a method gets an input of its declared type), and a value that JSON can
  represent comes back from its encoding unchanged.
\<close>

subsection \<open>Fields\<close>

lemma find_member: "find P xs = Some x \<Longrightarrow> x \<in> set xs \<and> P x"
  by (induction xs) (auto split: if_splits)

lemma find_field_member: "find_field s fts = Some (n, t) \<Longrightarrow> (n, t) \<in> set fts"
  by (auto simp: find_field_def Let_def dest!: find_member split: option.splits)

lemma typed_fields_lookup:
  "typed_fields fts fs \<Longrightarrow> dict_ok fts \<Longrightarrow> (n, t) \<in> set fts \<Longrightarrow> \<exists>v. map_of fs n = Some v \<and> typed t v"
proof (induction fts fs rule: list_induct2')
  case (4 f fts g fs)
  then show ?case by (cases f; cases g) (force simp: image_iff)
next
  case (2 f fts)
  then show ?case by (cases f) simp
qed simp_all

lemma typed_fields_update:
  "typed_fields fts fs \<Longrightarrow> dict_ok fts \<Longrightarrow> (n, t) \<in> set fts \<Longrightarrow> typed t w \<Longrightarrow>
   typed_fields fts (AList.update n w fs)"
proof (induction fts fs rule: list_induct2')
  case (4 f fts g fs)
  then show ?case by (cases f; cases g) (force simp: image_iff)
next
  case (2 f fts)
  then show ?case by (cases f) simp
qed simp_all

lemma typed_entries_update:
  "typed_entries k t es \<Longrightarrow> typed k key \<Longrightarrow> typed t w \<Longrightarrow> typed_entries k t (AList.update key w es)"
proof (induction es)
  case (Cons e es)
  then show ?case by (cases e) auto
qed simp

lemma read_key_typed: "read_key k s = Some x \<Longrightarrow> typed k x"
  by (induction k s rule: read_key.induct) (auto split: option.splits if_splits)

lemma unmarshal_list_length: "length (fst (unmarshal_list t js us)) = length js"
  by (induction js arbitrary: us) (auto simp: Let_def split: prod.splits, metis fst_conv)

subsection \<open>Decoding keeps the type\<close>

lemma typed_parts:
  "typed (TPtr t) v \<Longrightarrow> type_ok t \<Longrightarrow> typed t (case v of VPtr w \<Rightarrow> w | _ \<Rightarrow> zero_value t)"
  "typed (TSlice t) v \<Longrightarrow> typed_list t (case v of VSlice us \<Rightarrow> us | _ \<Rightarrow> [])"
  "typed (TArray n t) v \<Longrightarrow> typed_list t (case v of VArray us \<Rightarrow> us | _ \<Rightarrow> [])"
  "typed (TMap k t) v \<Longrightarrow> typed_entries k t (case v of VMap es \<Rightarrow> es | _ \<Rightarrow> [])"
  "typed (TMap k t) v \<Longrightarrow> dict_ok (case v of VMap es \<Rightarrow> es | _ \<Rightarrow> [])"
  "typed (TStruct fts) v \<Longrightarrow> typed_fields fts (case v of VStruct fs \<Rightarrow> fs | _ \<Rightarrow> [])"
  "typed_list t us \<Longrightarrow> type_ok t \<Longrightarrow> typed t (case us of [] \<Rightarrow> zero_value t | u # _ \<Rightarrow> u)"
  "typed_list t us \<Longrightarrow> typed_list t (tl us)"
  by (cases v; auto intro: zero_typed)+ (cases us; auto intro: zero_typed)+

lemma typed_scalar:
  "typed TBool v \<Longrightarrow> typed TBool (fst (unmarshal TBool j v))"
  "typed TInt v \<Longrightarrow> typed TInt (fst (unmarshal TInt j v))"
  "typed TUint64 v \<Longrightarrow> typed TUint64 (fst (unmarshal TUint64 j v))"
  "typed TString v \<Longrightarrow> typed TString (fst (unmarshal TString j v))"
  by (cases j; simp)+

lemma unmarshal_typed_all:
  "typed t v \<longrightarrow> type_ok t \<longrightarrow> typed t (fst (unmarshal t j v))"
  "typed_list t us \<longrightarrow> type_ok t \<longrightarrow> typed_list t (fst (unmarshal_list t js us))"
  "typed_entries k t' es \<and> dict_ok es \<longrightarrow> type_ok t' \<longrightarrow>
     typed_entries k t' (fst (unmarshal_entries k t' kvs es)) \<and> dict_ok (fst (unmarshal_entries k t' kvs es))"
  "typed_fields fts fs \<and> dict_ok fts \<longrightarrow> (\<forall>f \<in> set fts. type_ok (snd f)) \<longrightarrow>
     typed_fields fts (fst (unmarshal_fields fts kvs' fs))"
  apply (induction t j v and t js us and k t' kvs es and fts kvs' fs
         rule: unmarshal_unmarshal_list_unmarshal_entries_unmarshal_fields.induct)
  apply (simp_all add: Let_def split_def typed_parts)
  subgoal for j v by (cases v; cases j) simp_all
  subgoal for j v by (cases v; cases j) simp_all
  subgoal for j v by (cases v; cases j) simp_all
  subgoal for j v by (cases v; cases j) simp_all
  subgoal for n t js v
    using typed_parts(3)[of n t v] by (auto simp: typed_list_iff unmarshal_list_length zero_typed)
  subgoal for t j js us
    using typed_parts(7,8)[of t us] by (metis surjective_pairing)
  subgoal for k t s j kvs es
    by (cases "unmarshal t j (zero_value t)"; cases "read_key k s")
      (auto simp: split_def Let_def zero_typed typed_entries_update dict_ok_update read_key_typed)
  subgoal premises IH for fts s j kvs fs
  proof (cases "find_field s fts")
    case None
    with IH(1) show ?thesis by simp
  next
    case (Some p)
    obtain n t where p: "p = (n, t)" by (cases p)
    let ?r = "unmarshal t j (case map_of fs n of None \<Rightarrow> zero_value t | Some v \<Rightarrow> v)"
    show ?thesis
    proof (intro impI)
      assume a: "typed_fields fts fs \<and> dict_ok fts" and ok: "\<forall>f \<in> set fts. type_ok (snd f)"
      have m: "(n, t) \<in> set fts" using Some p by (simp add: find_field_member)
      then obtain v where "map_of fs n = Some v" "typed t v"
        using a typed_fields_lookup by blast
      moreover have "type_ok t" using ok m by force
      ultimately have "typed t (fst ?r)" using IH(2)[OF Some p[symmetric]] by simp
      then have "typed_fields fts (AList.update n (fst ?r) fs)"
        using typed_fields_update a m by blast
      then show "typed_fields fts (fst (case find_field s fts of None \<Rightarrow> unmarshal_fields fts kvs fs
            | Some (n, t) \<Rightarrow>
                let (w, e) = unmarshal t j (case map_of fs n of None \<Rightarrow> zero_value t | Some v \<Rightarrow> v);
                    (fs', e') = unmarshal_fields fts kvs (AList.update n w fs)
                in (fs', e \<or> e')))"
        using IH(3)[OF Some p[symmetric] refl surjective_pairing[symmetric]] Some p a ok
        by (simp add: split_def Let_def cong: option.case_cong)
    qed
  qed
  done

theorem unmarshal_typed: "type_ok t \<Longrightarrow> typed t v \<Longrightarrow> typed t (fst (unmarshal t j v))"
  using unmarshal_typed_all(1) by blast

subsection \<open>Encoding and decoding\<close>

text \<open>
  The values that JSON represents faithfully: every part is exported and encodable, strings
  are well-formed UTF-8, a pointer does not point to something that is printed as null, and a map has
  string keys (listed in order, as a map has no order of its own).
\<close>

fun key_string :: "go_value \<Rightarrow> string" where
  "key_string (VStr s) = s"
| "key_string _ = []"

fun sendable :: "go_value \<Rightarrow> bool" where
  "sendable (VPtr v) = (sendable v \<and> marshal v \<noteq> Some JNull)"
| "sendable (VSlice vs) = (\<forall>v \<in> set vs. sendable v)"
| "sendable (VArray vs) = (\<forall>v \<in> set vs. sendable v)"
| "sendable (VMap es) = (sorted (map (key_string \<circ> fst) es) \<and>
     (\<forall>e \<in> set es. fst e = VStr (key_string (fst e)) \<and> utf8_valid (key_string (fst e)) \<and> sendable (snd e)))"
| "sendable (VStruct fs) = (\<forall>f \<in> set fs. ast_IsExported (fst f) \<and> sendable (snd f))"
| "sendable (VStr s) = utf8_valid s"
| "sendable VOpaque = False"
| "sendable _ = True"

lemma typed_underlying: "typed (underlying t) v = typed t v"
  by (induction t) auto

lemma unmarshal_underlying: "unmarshal (underlying t) j v = unmarshal t j v"
  by (induction t) auto

lemma zero_underlying: "zero_value (underlying t) = zero_value t"
  by (induction t) auto

lemma underlying_not_named: "underlying t \<noteq> TNamed p n u"
  by (induction t) auto

lemma read_key_string: "typed k (VStr s) \<Longrightarrow> read_key k s = Some (VStr s)"
  by (induction k) (auto split: if_splits)

text \<open>Each part of a list, of a map and of a structure, given the law for the parts.\<close>

definition decodes :: "go_type \<Rightarrow> go_value \<Rightarrow> bool" where
  "decodes t v \<longleftrightarrow> (\<forall>j. marshal v = Some j \<longrightarrow> unmarshal t j (zero_value t) = (v, False))"

lemma decodes_list:
  "\<forall>v \<in> set vs. decodes t v \<Longrightarrow> marshal_list vs = Some js \<Longrightarrow> n = 0 \<or> n = length vs \<Longrightarrow>
   unmarshal_list t js (replicate n (zero_value t)) = (vs, False)"
proof (induction vs arbitrary: js n)
  case (Cons v vs)
  then obtain j js' where j: "marshal v = Some j" "marshal_list vs = Some js'" "js = j # js'"
    by (auto split: option.splits)
  have "unmarshal_list t js' (replicate (n - 1) (zero_value t)) = (vs, False)"
    using Cons.prems Cons.IH[OF _ j(2), of "n - 1"] by auto
  moreover have "unmarshal t j (zero_value t) = (v, False)"
    using Cons.prems(1) j(1) by (simp add: decodes_def)
  ultimately show ?case using Cons.prems(3) j(3) by (cases n) auto
qed simp

lemma marshal_list_length: "marshal_list vs = Some js \<Longrightarrow> length js = length vs"
  by (induction vs arbitrary: js) (auto split: option.splits)

lemma update_new: "k \<notin> keys es \<Longrightarrow> AList.update k w es = es @ [(k, w)]"
  by (induction es) auto

lemma decodes_entries:
  assumes "\<forall>e \<in> set es. decodes t (snd e) \<and> fst e = VStr (key_string (fst e)) \<and> typed k (fst e)"
    and "dict_ok (ds @ es)" and "marshal_entries es = Some kvs"
  shows "unmarshal_entries k t kvs ds = (ds @ es, False)"
  using assms
proof (induction es arbitrary: ds kvs)
  case (Cons e es)
  obtain s v where e: "e = (VStr s, v)" using Cons.prems(1) by (cases e) auto
  then obtain j kvs' where j: "marshal v = Some j" "marshal_entries es = Some kvs'" "kvs = (s, j) # kvs'"
    using Cons.prems(3) by (auto split: option.splits)
  have "unmarshal t j (zero_value t) = (v, False)"
    using Cons.prems(1) e j(1) by (simp add: decodes_def)
  moreover have "read_key k s = Some (VStr s)"
    using Cons.prems(1) e by (simp add: read_key_string)
  moreover have "AList.update (VStr s) v ds = ds @ [e]"
    using Cons.prems(2) e by (simp add: update_new image_iff)
  moreover have "unmarshal_entries k t kvs' (ds @ [e]) = ((ds @ [e]) @ es, False)"
    using Cons.prems j(2) by (intro Cons.IH) auto
  ultimately show ?case using j(3) by simp
qed simp

lemma marshal_entries_keys:
  "\<forall>e \<in> set es. fst e = VStr (key_string (fst e)) \<Longrightarrow> marshal_entries es = Some kvs \<Longrightarrow>
   map fst kvs = map (key_string \<circ> fst) es"
proof (induction es arbitrary: kvs)
  case (Cons e es)
  obtain s v where "e = (VStr s, v)" using Cons.prems(1) by (cases e) auto
  then show ?case using Cons by (auto split: option.splits)
qed simp

lemma find_field_exact:
  assumes "(n, t) \<in> set fts" and "dict_ok fts" and "ast_IsExported n"
  shows "find_field n fts = Some (n, t)"
proof -
  have "find (\<lambda>f. fst f = n) (filter (\<lambda>f. ast_IsExported (fst f)) fts) = Some (n, t)"
    using assms by (induction fts) (auto simp: image_iff)
  then show ?thesis by (simp add: find_field_def)
qed

lemma update_middle: "n \<notin> keys ds \<Longrightarrow> AList.update n w (ds @ (n, u) # es) = ds @ (n, w) # es"
  by (induction ds) auto

lemma decodes_fields:
  assumes "dict_ok fts" and "fts = gts @ hts" and "map fst ds = map fst gts"
    and "list_all2 (\<lambda>f g. fst f = fst g \<and> decodes (snd f) (snd g)) hts fs"
    and "\<forall>f \<in> set fs. ast_IsExported (fst f)" and "marshal_fields fs = Some kvs"
  shows "unmarshal_fields fts kvs (ds @ map (\<lambda>(n, t). (n, zero_value t)) hts) = (ds @ fs, False)"
  using assms
proof (induction fs arbitrary: gts hts ds kvs)
  case (Cons f fs)
  obtain n v where f: "f = (n, v)" by (cases f)
  obtain t hts' where h: "hts = (n, t) # hts'" and dv: "decodes t v"
    and r: "list_all2 (\<lambda>f g. fst f = fst g \<and> decodes (snd f) (snd g)) hts' fs"
    using Cons.prems(4) f by (auto simp: list_all2_Cons2)
  have n: "ast_IsExported n" using Cons.prems(5) f by simp
  then obtain j kvs' where j: "marshal v = Some j" "marshal_fields fs = Some kvs'" "kvs = (n, j) # kvs'"
    using Cons.prems(6) f by (auto split: option.splits)
  have m: "(n, t) \<in> set fts" using Cons.prems(2) h by simp
  have "n \<notin> fst ` set gts" using Cons.prems(1,2) h by auto
  then have new: "n \<notin> keys ds" using Cons.prems(3) by (metis list.set_map)
  let ?zs = "map (\<lambda>(n, t). (n, zero_value t)) hts'"
  have "find_field n fts = Some (n, t)" using m Cons.prems(1) n by (rule find_field_exact)
  moreover have "map_of (ds @ (n, zero_value t) # ?zs) n = Some (zero_value t)"
    using new by (simp add: map_add_Some_iff map_of_eq_None_iff)
  moreover have "unmarshal t j (zero_value t) = (v, False)" using dv j(1) by (simp add: decodes_def)
  moreover have "unmarshal_fields fts kvs' ((ds @ [f]) @ ?zs) = ((ds @ [f]) @ fs, False)"
    using Cons.prems(1,2,3,5) h f r j(2) by (intro Cons.IH[of "gts @ [(n, t)]"]) auto
  ultimately show ?case using h f j(3) new by (simp add: update_middle)
qed simp

lemma type_ok_underlying: "type_ok (underlying t) = type_ok t"
  by (induction t) auto

lemma decodes_underlying: "decodes (underlying t) v = decodes t v"
  by (simp add: decodes_def unmarshal_underlying zero_underlying)

lemma decodes_ptr: "decodes t v \<Longrightarrow> marshal v \<noteq> Some JNull \<Longrightarrow> decodes (TPtr t) (VPtr v)"
  unfolding decodes_def
proof (intro allI impI)
  fix j
  assume "\<forall>j. marshal v = Some j \<longrightarrow> unmarshal t j (zero_value t) = (v, False)"
    and "marshal v \<noteq> Some JNull" and "marshal (VPtr v) = Some j"
  then show "unmarshal (TPtr t) j (zero_value (TPtr t)) = (VPtr v, False)" by (cases j) auto
qed

lemma decodes_map:
  assumes "\<forall>e \<in> set es. decodes t (snd e)" and "dict_ok es" and "typed_entries k t es"
    and "sendable (VMap es)" and "key_type k"
  shows "decodes (TMap k t) (VMap es)"
proof -
  have e: "\<forall>e \<in> set es. decodes t (snd e) \<and> fst e = VStr (key_string (fst e)) \<and> typed k (fst e)"
    using assms by (auto simp: typed_entries_iff)
  have "map (map_prod utf8_repair id) (sort_key fst kvs) = kvs" if "marshal_entries es = Some kvs" for kvs
  proof -
    have k: "map fst kvs = map (key_string \<circ> fst) es" using e that by (intro marshal_entries_keys) auto
    with assms(4) have "sorted (map fst kvs)" by simp
    then have "sort_key fst kvs = kvs" by (rule sort_key_id_if_sorted)
    moreover have "utf8_valid s" if "s \<in> set (map fst kvs)" for s using that assms(4) unfolding k by auto
    ultimately show ?thesis by (force intro!: map_idI)
  qed
  then show ?thesis
    using decodes_entries[OF e, of "[]"] assms(2,5) by (auto simp: decodes_def)
qed

lemma decodes_struct:
  assumes "list_all2 (\<lambda>f g. fst f = fst g \<and> decodes (snd f) (snd g)) fts fs" and "dict_ok fts"
    and "\<forall>f \<in> set fs. ast_IsExported (fst f)"
  shows "decodes (TStruct fts) (VStruct fs)"
  using decodes_fields[OF assms(2), of "[]" fts "[]" fs] assms by (auto simp: decodes_def)

text \<open>The shape of the underlying type of a value.\<close>

lemma typed_shape:
  "typed t (VBool b) \<Longrightarrow> underlying t = TBool"
  "typed t (VInt i) \<Longrightarrow> underlying t = TInt \<and> int_ok i"
  "typed t (VUint w) \<Longrightarrow> underlying t = TUint64"
  "typed t (VStr s) \<Longrightarrow> underlying t = TString"
  "typed t (VPtr v) \<Longrightarrow> \<exists>u. underlying t = TPtr u \<and> typed u v"
  "typed t (VSlice vs) \<Longrightarrow> \<exists>u. underlying t = TSlice u \<and> (\<forall>v \<in> set vs. typed u v)"
  "typed t (VArray vs) \<Longrightarrow> \<exists>u. underlying t = TArray (length vs) u \<and> (\<forall>v \<in> set vs. typed u v)"
  "typed t (VMap es) \<Longrightarrow> \<exists>k u. underlying t = TMap k u \<and> key_type k \<and> dict_ok es \<and> typed_entries k u es"
  "typed t (VStruct fs) \<Longrightarrow> \<exists>fts. underlying t = TStruct fts \<and> dict_ok fts \<and> typed_fields fts fs"
  by (induction t; simp add: typed_list_iff split: if_splits)+

lemma decodes_nil: "typed t VNil \<Longrightarrow> decodes t VNil"
  by (induction t) (auto simp: decodes_def)

lemma decodes_scalar:
  "decodes TBool (VBool b)" "int_ok i \<Longrightarrow> decodes TInt (VInt i)" "decodes TUint64 (VUint w)"
  "utf8_valid s \<Longrightarrow> decodes TString (VStr s)"
  using uint_bounded[of w] by (auto simp: decodes_def uint64_ok_def)

lemma decodes_seq:
  assumes "\<forall>v \<in> set vs. decodes t v"
  shows "decodes (TSlice t) (VSlice vs)" and "decodes (TArray (length vs) t) (VArray vs)"
proof -
  show "decodes (TSlice t) (VSlice vs)"
    using decodes_list[OF assms, of _ 0] by (auto simp: decodes_def)
  have "unmarshal (TArray (length vs) t) (JArr js) (zero_value (TArray (length vs) t)) = (VArray vs, False)"
    if "marshal_list vs = Some js" for js
    using decodes_list[OF assms that, of "length vs"] marshal_list_length[OF that] by simp
  then show "decodes (TArray (length vs) t) (VArray vs)" by (auto simp: decodes_def)
qed

lemma decodes_typed: "typed t v \<Longrightarrow> type_ok t \<Longrightarrow> sendable v \<Longrightarrow> decodes t v"
proof (induction v arbitrary: t)
  case VNil
  then show ?case by (simp add: decodes_nil)
next
  case (VPtr v)
  obtain u where u: "underlying t = TPtr u" "typed u v" using VPtr.prems(1) typed_shape(5) by blast
  then have "decodes u v" using VPtr.IH[of u] VPtr.prems type_ok_underlying[of t] by simp
  then have "decodes (TPtr u) (VPtr v)" using VPtr.prems(3) by (intro decodes_ptr) auto
  then show ?case using u decodes_underlying[of t] by simp
next
  case (VSlice vs)
  obtain u where u: "underlying t = TSlice u" "\<forall>v \<in> set vs. typed u v"
    using VSlice.prems(1) typed_shape(6) by blast
  then have "\<forall>v \<in> set vs. decodes u v"
    using VSlice.IH VSlice.prems type_ok_underlying[of t] by simp
  then show ?case using decodes_seq(1) u decodes_underlying[of t] by metis
next
  case (VArray vs)
  obtain u where u: "underlying t = TArray (length vs) u" "\<forall>v \<in> set vs. typed u v"
    using VArray.prems(1) typed_shape(7) by blast
  then have "\<forall>v \<in> set vs. decodes u v"
    using VArray.IH VArray.prems type_ok_underlying[of t] by simp
  then show ?case using decodes_seq(2) u decodes_underlying[of t] by metis
next
  case (VMap es)
  obtain k u where u: "underlying t = TMap k u" "dict_ok es" "typed_entries k u es" "key_type k"
    using VMap.prems(1) typed_shape(8) by blast
  have "decodes u (snd e)" if "e \<in> set es" for e
  proof (rule VMap.IH(2)[OF that])
    show "snd e \<in> Basic_BNFs.snds e" by (cases e) simp
  qed (use that u VMap.prems type_ok_underlying[of t] in \<open>auto simp: typed_entries_iff\<close>)
  then show ?case
    using decodes_map[of es u k] u VMap.prems(3) decodes_underlying[of t] by simp
next
  case (VStruct fs)
  obtain fts where u: "underlying t = TStruct fts" "dict_ok fts" "typed_fields fts fs"
    using VStruct.prems(1) typed_shape(9) by blast
  have d: "decodes (snd f) (snd g)" if "g \<in> set fs" "f \<in> set fts" "typed (snd f) (snd g)" for f g
  proof (rule VStruct.IH[OF that(1)])
    show "snd g \<in> Basic_BNFs.snds g" by (cases g) simp
  qed (use that u VStruct.prems type_ok_underlying[of t] in auto)
  have "list_all2 (\<lambda>f g. fst f = fst g \<and> decodes (snd f) (snd g)) fts fs"
    using u(3) unfolding typed_fields_iff by (rule list.rel_mono_strong) (use d in auto)
  then show ?case
    using decodes_struct[of fts fs] u VStruct.prems(3) decodes_underlying[of t] by simp
next
  case (VBool b)
  then show ?case using typed_shape(1) decodes_scalar(1) decodes_underlying[of t] by metis
next
  case (VInt i)
  then show ?case using typed_shape(2) decodes_scalar(2) decodes_underlying[of t] by metis
next
  case (VUint w)
  then show ?case using typed_shape(3) decodes_scalar(3) decodes_underlying[of t] by metis
next
  case (VStr s)
  then have "decodes TString (VStr s)" by (simp add: decodes_scalar)
  then show ?case using VStr.prems(1) typed_shape(4) decodes_underlying[of t] by metis
qed simp

text \<open>A representable value that is sent is received unchanged.\<close>

theorem unmarshal_marshal:
  "typed t v \<Longrightarrow> type_ok t \<Longrightarrow> sendable v \<Longrightarrow> marshal v = Some j \<Longrightarrow>
   unmarshal t j (zero_value t) = (v, False)"
  using decodes_typed by (simp add: decodes_def)

end
