(* ===== verification/Coder.thy ===== *)
theory Coder
  imports Go_Json_Laws
begin

text \<open>
  Package coder: the message header, the connection, the JSON coder over it and the table of
  coders. The Go interface \<^verbatim>\<open>Coder\<close> is the locale \<open>message_coder\<close>, which \<^verbatim>\<open>JsonCoder\<close>
  interprets; its lemma is the round trip of any sequence of messages.
\<close>

subsection \<open>The message header (coder.go)\<close>

record MessageHeader =
  ServiceDotMethod :: string
  SequenceNumber :: "64 word"
  Error :: string

definition empty_header :: MessageHeader where
  "empty_header = \<lparr>ServiceDotMethod = '''', SequenceNumber = 0, Error = ''''\<rparr>"

definition header_type :: go_type where
  "header_type = TNamed ''Distributed-RPC-Framework/coder'' ''MessageHeader''
     (TStruct [(''ServiceDotMethod'', TString), (''SequenceNumber'', TUint64), (''Error'', TString)])"

definition header_value :: "MessageHeader \<Rightarrow> go_value" where
  "header_value h = VStruct [(''ServiceDotMethod'', VStr (ServiceDotMethod h)),
     (''SequenceNumber'', VUint (SequenceNumber h)), (''Error'', VStr (Error h))]"

fun value_header :: "go_value \<Rightarrow> MessageHeader" where
  "value_header (VStruct [(_, VStr s), (_, VUint n), (_, VStr e)]) =
     \<lparr>ServiceDotMethod = s, SequenceNumber = n, Error = e\<rparr>"
| "value_header _ = empty_header"

text \<open>
  The JSON of a header, in which the strings are UTF-8 (\<open>marshal\<close>), and the header that is read back:
  the same one when its strings are well-formed UTF-8.
\<close>

definition header_json :: "MessageHeader \<Rightarrow> json" where
  "header_json h = JObj [(''ServiceDotMethod'', JStr (utf8_repair (ServiceDotMethod h))),
     (''SequenceNumber'', JNum (uint (SequenceNumber h))), (''Error'', JStr (utf8_repair (Error h)))]"

definition received_header :: "MessageHeader \<Rightarrow> MessageHeader" where
  "received_header h = \<lparr>ServiceDotMethod = utf8_repair (ServiceDotMethod h), SequenceNumber = SequenceNumber h,
     Error = utf8_repair (Error h)\<rparr>"

definition header_ok :: "MessageHeader \<Rightarrow> bool" where
  "header_ok h \<longleftrightarrow> utf8_valid (ServiceDotMethod h) \<and> utf8_valid (Error h)"

lemma received_header_simps [simp]:
  "ServiceDotMethod (received_header h) = utf8_repair (ServiceDotMethod h)"
  "SequenceNumber (received_header h) = SequenceNumber h"
  "Error (received_header h) = utf8_repair (Error h)"
  by (simp_all add: received_header_def)

lemma received_header_ok [simp]: "header_ok h \<Longrightarrow> received_header h = h"
  by (simp add: header_ok_def received_header_def)

lemma header_okI [simp]: "utf8_valid (ServiceDotMethod h) \<Longrightarrow> utf8_valid (Error h) \<Longrightarrow> header_ok h"
  by (simp add: header_ok_def)

lemma value_header_value [simp]: "value_header (header_value h) = h"
  by (simp add: header_value_def)

lemma marshal_header [simp]: "marshal (header_value h) = Some (header_json h)"
  by (simp add: header_value_def header_json_def ast_IsExported_def is_upper_def)

lemma unmarshal_header:
  "unmarshal header_type (header_json h) (header_value empty_header) = (header_value (received_header h), False)"
proof -
  let ?h = "received_header h"
  have "unmarshal header_type (header_json h) (zero_value header_type) = (header_value ?h, False)"
  proof (rule unmarshal_marshal)
    show "typed header_type (header_value ?h)" by (simp add: header_type_def header_value_def)
    show "type_ok header_type" by (simp add: header_type_def)
    show "sendable (header_value ?h)"
      by (simp add: header_value_def ast_IsExported_def is_upper_def)
    show "marshal (header_value ?h) = Some (header_json h)" by (simp add: header_json_def)
  qed
  then show ?thesis by (simp add: header_type_def header_value_def empty_header_def)
qed

subsection \<open>Connections\<close>

text \<open>
  A connection delivers what the peer sent in chunks: \<open>conn_recv\<close> lists, for each successful
  \<^verbatim>\<open>Read\<close> to come, the JSON values that it completes, and \<open>conn_end\<close> is the error of the reads
  after the last one (end of file, or a syntax error, after which a decoder stays at that error).
  \<open>conn_sent\<close> is what has been written. A closed connection fails every read and write.
\<close>

record connection =
  conn_recv :: "json list list"
  conn_end :: lib_error
  conn_sent :: "json list"
  conn_open :: bool

definition conn_Close :: "connection \<Rightarrow> lib_error option \<times> connection" where
  "conn_Close c = (if conn_open c then (None, c\<lparr>conn_open := False\<rparr>) else (Some ConnClosed, c))"

text \<open>
  A \<^verbatim>\<open>json.Decoder\<close> keeps what it has read and not yet decoded; it reads again when that is
  empty. Another decoder on the same connection does not see what the first one keeps.
\<close>

fun next_chunk :: "json list list \<Rightarrow> (json \<times> json list \<times> json list list) option" where
  "next_chunk [] = None"
| "next_chunk ([] # cs) = next_chunk cs"
| "next_chunk ((j # js) # cs) = Some (j, js, cs)"

definition dec_read :: "json list \<Rightarrow> connection \<Rightarrow> (lib_error + json) \<times> json list \<times> connection" where
  "dec_read buf c =
     (case buf of
        j # js \<Rightarrow> (Inr j, js, c)
      | [] \<Rightarrow>
          (if \<not> conn_open c then (Inl ConnClosed, [], c)
           else case next_chunk (conn_recv c) of
             None \<Rightarrow> (Inl (conn_end c), [], c\<lparr>conn_recv := []\<rparr>)
           | Some (j, js, cs) \<Rightarrow> (Inr j, js, c\<lparr>conn_recv := cs\<rparr>)))"

text \<open>\<^verbatim>\<open>Decode\<close> into a variable of type \<open>t\<close> that holds \<open>v\<close>, and \<^verbatim>\<open>Decode(nil)\<close>.\<close>

definition dec_Decode ::
  "json list \<Rightarrow> connection \<Rightarrow> go_type \<Rightarrow> go_value \<Rightarrow> (lib_error option \<times> go_value) \<times> json list \<times> connection" where
  "dec_Decode buf c t v =
     (case dec_read buf c of
        (Inl e, buf', c') \<Rightarrow> ((Some e, v), buf', c')
      | (Inr j, buf', c') \<Rightarrow>
          (let (w, bad) = unmarshal t j v
           in ((if bad then Some JsonType else None, w), buf', c')))"

definition dec_Decode_nil ::
  "json list \<Rightarrow> connection \<Rightarrow> lib_error option \<times> json list \<times> connection" where
  "dec_Decode_nil buf c =
     (case dec_read buf c of
        (Inl e, buf', c') \<Rightarrow> (Some e, buf', c')
      | (Inr j, buf', c') \<Rightarrow> (Some JsonInvalidTarget, buf', c'))"

subsection \<open>The JSON coder (json_coder.go)\<close>

text \<open>
  \<open>wbuf\<close> is the content of the \<^verbatim>\<open>bufio.Writer\<close>, with its sticky error; \<open>enc_err\<close> is the sticky
  error of the \<^verbatim>\<open>json.Encoder\<close>; \<open>dbuf\<close> belongs to the decoder. (A \<^verbatim>\<open>bufio.Writer\<close> that runs full
  flushes by itself; the values it holds reach the connection in the same order either way.)
\<close>

record JsonCoder =
  connection :: connection
  wbuf :: "json list"
  buf_err :: "lib_error option"
  enc_err :: "lib_error option"
  dbuf :: "json list"

definition NewJsonCoder :: "connection \<Rightarrow> JsonCoder" where
  "NewJsonCoder c = \<lparr>connection = c, wbuf = [], buf_err = None, enc_err = None, dbuf = []\<rparr>"

definition enc_Encode :: "JsonCoder \<Rightarrow> go_value \<Rightarrow> lib_error option \<times> JsonCoder" where
  "enc_Encode jc v =
     (case enc_err jc of
        Some e \<Rightarrow> (Some e, jc)
      | None \<Rightarrow>
          (case marshal v of
             None \<Rightarrow> (Some JsonUnsupported, jc)
           | Some j \<Rightarrow>
               (case buf_err jc of
                  Some e \<Rightarrow> (Some e, jc\<lparr>enc_err := Some e\<rparr>)
                | None \<Rightarrow> (None, jc\<lparr>wbuf := wbuf jc @ [j]\<rparr>))))"

definition buf_Flush :: "JsonCoder \<Rightarrow> JsonCoder" where
  "buf_Flush jc =
     (if buf_err jc \<noteq> None \<or> wbuf jc = [] then jc
      else if \<not> conn_open (connection jc) then jc\<lparr>buf_err := Some ConnClosed\<rparr>
      else jc\<lparr>connection := (connection jc)\<lparr>conn_sent := conn_sent (connection jc) @ wbuf jc\<rparr>, wbuf := []\<rparr>)"

definition jc_Close :: "JsonCoder \<Rightarrow> lib_error option \<times> JsonCoder" where
  "jc_Close jc = (let (e, c) = conn_Close (connection jc) in (e, jc\<lparr>connection := c\<rparr>))"

definition jc_DecodeMessageHeader ::
  "JsonCoder \<Rightarrow> MessageHeader \<Rightarrow> (lib_error option \<times> MessageHeader) \<times> JsonCoder" where
  "jc_DecodeMessageHeader jc h =
     (let ((e, v), buf, c) = dec_Decode (dbuf jc) (connection jc) header_type (header_value h)
      in ((e, value_header v), jc\<lparr>dbuf := buf, connection := c\<rparr>))"

text \<open>The body is nil or an interface that holds a value; only a non-nil pointer can be decoded into.\<close>

definition pointer_target :: "reflect_value option \<Rightarrow> (go_type \<times> go_value) option" where
  "pointer_target body =
     (case body of None \<Rightarrow> None
      | Some rv \<Rightarrow> (case (underlying (rv_Type rv), rv_Val rv) of (TPtr t, VPtr v) \<Rightarrow> Some (t, v) | _ \<Rightarrow> None))"

definition jc_DecodeMessageBody ::
  "JsonCoder \<Rightarrow> reflect_value option \<Rightarrow> (lib_error option \<times> reflect_value option) \<times> JsonCoder" where
  "jc_DecodeMessageBody jc body =
     (case pointer_target body of
        None \<Rightarrow>
          (let (e, buf, c) = dec_Decode_nil (dbuf jc) (connection jc)
           in ((e, body), jc\<lparr>dbuf := buf, connection := c\<rparr>))
      | Some (t, v) \<Rightarrow>
          (let ((e, w), buf, c) = dec_Decode (dbuf jc) (connection jc) t v
           in ((e, map_option (\<lambda>rv. rv\<lparr>rv_Val := VPtr w\<rparr>) body), jc\<lparr>dbuf := buf, connection := c\<rparr>)))"

text \<open>
  The two early returns come before the deferred function is registered; when that runs, the named
  result is nil.
\<close>

definition jc_EncodeMessageHeaderAndBody ::
  "JsonCoder \<Rightarrow> MessageHeader \<Rightarrow> go_value \<Rightarrow> lib_error option \<times> JsonCoder" where
  "jc_EncodeMessageHeaderAndBody jc h body =
     (case enc_Encode jc (header_value h) of
        (Some e, jc1) \<Rightarrow> (Some e, jc1)
      | (None, jc1) \<Rightarrow>
          (case enc_Encode jc1 body of
             (Some e, jc2) \<Rightarrow> (Some e, jc2)
           | (error, jc2) \<Rightarrow>
               (let jc3 = buf_Flush jc2;
                    jc4 = (if error \<noteq> None then snd (jc_Close jc3) else jc3)
                in (error, jc4))))"

subsection \<open>The table of coders (coder.go)\<close>

type_synonym CoderType = string

definition Json :: CoderType where "Json = ''application/json''"

definition CoderInitializerMap :: "(CoderType, connection \<Rightarrow> JsonCoder) dict" where
  "CoderInitializerMap = AList.update Json NewJsonCoder []"

lemma CoderInitializerMap_lookup:
  "map_of CoderInitializerMap t = (if t = Json then Some NewJsonCoder else None)"
  by (simp add: CoderInitializerMap_def)

subsection \<open>What a coder receives and sends\<close>

definition incoming :: "JsonCoder \<Rightarrow> json list" where
  "incoming jc = dbuf jc @ concat (conn_recv (connection jc))"

definition sent :: "JsonCoder \<Rightarrow> json list" where
  "sent jc = conn_sent (connection jc)"

definition healthy :: "JsonCoder \<Rightarrow> bool" where
  "healthy jc \<longleftrightarrow> conn_open (connection jc) \<and> wbuf jc = [] \<and> buf_err jc = None \<and> enc_err jc = None"

lemma next_chunk_None: "next_chunk cs = None \<longleftrightarrow> concat cs = []"
  by (induction cs rule: next_chunk.induct) auto

lemma next_chunk_Some: "next_chunk cs = Some (j, js, cs') \<Longrightarrow> concat cs = j # js @ concat cs'"
  by (induction cs rule: next_chunk.induct) auto

text \<open>Chunks do not matter to one decoder: it sees the values one after the other.\<close>

lemma dec_read_Cons:
  assumes "buf @ concat (conn_recv c) = j # w" and "conn_open c"
  shows "\<exists>buf' c'. dec_read buf c = (Inr j, buf', c') \<and> buf' @ concat (conn_recv c') = w \<and>
           conn_open c' \<and> conn_sent c' = conn_sent c \<and> conn_end c' = conn_end c"
proof (cases buf)
  case Nil
  then obtain j' js cs where n: "next_chunk (conn_recv c) = Some (j', js, cs)"
    using assms(1) next_chunk_None[of "conn_recv c"] by (cases "next_chunk (conn_recv c)") auto
  then show ?thesis using Nil assms next_chunk_Some[OF n] by (simp add: dec_read_def)
qed (use assms in \<open>simp add: dec_read_def\<close>)

lemma dec_read_Nil:
  assumes "buf @ concat (conn_recv c) = []"
  shows "\<exists>c'. dec_read buf c = (Inl (if conn_open c then conn_end c else ConnClosed), [], c') \<and>
           concat (conn_recv c') = [] \<and> conn_open c' = conn_open c \<and> conn_sent c' = conn_sent c \<and> conn_end c' = conn_end c"
  using assms next_chunk_None[of "conn_recv c"] by (auto simp: dec_read_def)

lemma dec_read_shrinks:
  "dec_read buf c = (r, buf', c') \<Longrightarrow>
   length (buf' @ concat (conn_recv c')) \<le> length (buf @ concat (conn_recv c)) \<and>
   (\<forall>j. r = Inr j \<longrightarrow> length (buf' @ concat (conn_recv c')) < length (buf @ concat (conn_recv c)))"
  by (auto simp: dec_read_def dest: next_chunk_Some split: list.splits option.splits if_splits)

lemma header_shrinks:
  "jc_DecodeMessageHeader jc h = ((e, h'), jc') \<Longrightarrow>
   length (incoming jc') \<le> length (incoming jc) \<and> (e = None \<longrightarrow> length (incoming jc') < length (incoming jc))"
  using dec_read_shrinks[of "dbuf jc" "connection jc"]
  by (auto simp: jc_DecodeMessageHeader_def dec_Decode_def incoming_def Let_def
           split: prod.splits sum.splits)

lemma body_shrinks:
  "jc_DecodeMessageBody jc b = ((e, b'), jc') \<Longrightarrow> length (incoming jc') \<le> length (incoming jc)"
  using dec_read_shrinks[of "dbuf jc" "connection jc"]
  by (auto simp: jc_DecodeMessageBody_def dec_Decode_def dec_Decode_nil_def incoming_def Let_def
           split: prod.splits sum.splits option.splits)

subsection \<open>Encoding, by case\<close>

lemma encode_ok:
  assumes "healthy jc" and "marshal body = Some j"
  shows "\<exists>jc'. jc_EncodeMessageHeaderAndBody jc h body = (None, jc') \<and> healthy jc' \<and>
           sent jc' = sent jc @ [header_json h, j] \<and> incoming jc' = incoming jc"
  using assms
  by (simp add: jc_EncodeMessageHeaderAndBody_def enc_Encode_def buf_Flush_def healthy_def sent_def
      incoming_def)

text \<open>A body that JSON cannot express leaves its header behind in the buffer, and the connection open.\<close>

lemma encode_unsupported:
  assumes "healthy jc" and "marshal body = None"
  shows "jc_EncodeMessageHeaderAndBody jc h body = (Some JsonUnsupported, jc\<lparr>wbuf := [header_json h]\<rparr>)"
  using assms by (simp add: jc_EncodeMessageHeaderAndBody_def enc_Encode_def healthy_def)

lemma encode_after_unsupported:
  assumes "healthy jc" and "marshal body = Some j"
  shows "\<exists>jc'. jc_EncodeMessageHeaderAndBody (jc\<lparr>wbuf := [stale]\<rparr>) h body = (None, jc') \<and>
           sent jc' = sent jc @ [stale, header_json h, j]"
  using assms
  by (simp add: jc_EncodeMessageHeaderAndBody_def enc_Encode_def buf_Flush_def healthy_def sent_def)

text \<open>A write to a closed connection is reported by the next message only.\<close>

lemma encode_closed:
  assumes "\<not> conn_open (connection jc)" and "enc_err jc = None" and "buf_err jc = None"
    and "marshal body = Some j"
  shows "\<exists>jc'. jc_EncodeMessageHeaderAndBody jc h body = (None, jc') \<and> sent jc' = sent jc \<and>
           buf_err jc' = Some ConnClosed \<and> fst (jc_EncodeMessageHeaderAndBody jc' h' body') = Some ConnClosed"
  using assms
  by (simp add: jc_EncodeMessageHeaderAndBody_def enc_Encode_def buf_Flush_def sent_def)

text \<open>On a closed connection nothing is written.\<close>

lemma closed_encode:
  "\<not> conn_open (connection jc) \<Longrightarrow> sent (snd (jc_EncodeMessageHeaderAndBody jc h body)) = sent jc"
  by (simp add: jc_EncodeMessageHeaderAndBody_def enc_Encode_def buf_Flush_def sent_def split: option.split)

text \<open>An error of the coder is an error of one of its two encoders; the deferred close never runs.\<close>

lemma encode_keeps_open:
  "conn_open (connection (snd (jc_EncodeMessageHeaderAndBody jc h body))) = conn_open (connection jc)"
  by (simp add: jc_EncodeMessageHeaderAndBody_def enc_Encode_def buf_Flush_def split: option.split)

lemma encode_error_sends_nothing:
  "jc_EncodeMessageHeaderAndBody jc h body = (Some e, jc') \<Longrightarrow> connection jc' = connection jc"
  by (auto simp: jc_EncodeMessageHeaderAndBody_def enc_Encode_def Let_def split: option.splits if_splits)

lemma encode_incoming: "incoming (snd (jc_EncodeMessageHeaderAndBody jc h body)) = incoming jc"
  by (simp add: jc_EncodeMessageHeaderAndBody_def enc_Encode_def buf_Flush_def incoming_def split: option.split)

subsection \<open>Decoding, by case\<close>

lemma decode_header_next:
  assumes "conn_open (connection jc)" and "incoming jc = header_json h # w"
  shows "\<exists>jc'. jc_DecodeMessageHeader jc empty_header = ((None, received_header h), jc') \<and> incoming jc' = w \<and>
           sent jc' = sent jc \<and> healthy jc' = healthy jc \<and> conn_open (connection jc')"
  using dec_read_Cons[of "dbuf jc" "connection jc" "header_json h" w] assms
  by (auto simp: jc_DecodeMessageHeader_def dec_Decode_def incoming_def sent_def healthy_def unmarshal_header)

lemma decode_header_end:
  assumes "incoming jc = []"
  shows "\<exists>e jc'. jc_DecodeMessageHeader jc h = ((Some e, h), jc') \<and> incoming jc' = []"
  using dec_read_Nil[of "dbuf jc" "connection jc"] assms
  by (auto simp: jc_DecodeMessageHeader_def dec_Decode_def incoming_def)

lemma decode_body_next:
  assumes "conn_open (connection jc)" and "incoming jc = j # w" and "unmarshal t j v = (u, bad)"
  shows "\<exists>jc'. jc_DecodeMessageBody jc (Some \<lparr>rv_Type = TPtr t, rv_Val = VPtr v\<rparr>) =
             ((if bad then Some JsonType else None, Some \<lparr>rv_Type = TPtr t, rv_Val = VPtr u\<rparr>), jc') \<and>
           incoming jc' = w \<and> sent jc' = sent jc \<and> healthy jc' = healthy jc \<and> conn_open (connection jc')"
  using dec_read_Cons[of "dbuf jc" "connection jc" j w] assms
  by (auto simp: jc_DecodeMessageBody_def pointer_target_def dec_Decode_def incoming_def sent_def healthy_def)

text \<open>\<^verbatim>\<open>Decode(nil)\<close> never succeeds: the value is consumed and the target is rejected.\<close>

lemma decode_nil_fails: "\<exists>e. fst (fst (jc_DecodeMessageBody jc None)) = Some e"
  by (auto simp: jc_DecodeMessageBody_def pointer_target_def dec_Decode_nil_def Let_def
           split: prod.splits sum.splits)

lemma decode_nil_next:
  assumes "conn_open (connection jc)" and "incoming jc = j # w"
  shows "\<exists>jc'. jc_DecodeMessageBody jc None = ((Some JsonInvalidTarget, None), jc') \<and> incoming jc' = w \<and>
           sent jc' = sent jc \<and> healthy jc' = healthy jc"
  using dec_read_Cons[of "dbuf jc" "connection jc" j w] assms
  by (auto simp: jc_DecodeMessageBody_def pointer_target_def dec_Decode_nil_def incoming_def sent_def healthy_def)

subsection \<open>The interface\<close>

text \<open>The decoding of a sequence of messages whose bodies have the given types.\<close>

fun receive_all ::
  "('c \<Rightarrow> MessageHeader \<Rightarrow> (lib_error option \<times> MessageHeader) \<times> 'c) \<Rightarrow>
   ('c \<Rightarrow> reflect_value option \<Rightarrow> (lib_error option \<times> reflect_value option) \<times> 'c) \<Rightarrow>
   go_type list \<Rightarrow> 'c \<Rightarrow> (MessageHeader \<times> go_value) list option \<times> 'c" where
  "receive_all dh db [] c = (Some [], c)"
| "receive_all dh db (t # ts) c =
     (case dh c empty_header of
        ((Some e, h), c1) \<Rightarrow> (None, c1)
      | ((None, h), c1) \<Rightarrow>
          (case db c1 (Some (reflect_New t)) of
             ((None, Some rv), c2) \<Rightarrow>
               (case rv_Val rv of
                  VPtr v \<Rightarrow> (let (ms, c3) = receive_all dh db ts c2 in (map_option ((#) (h, v)) ms, c3))
                | _ \<Rightarrow> (None, c2))
           | (_, c2) \<Rightarrow> (None, c2)))"

text \<open>
  A message that survives the wire: the strings of its header are well-formed UTF-8, its body is a value
  of its type, can be encoded, and is one that JSON represents faithfully.
\<close>

definition message_ok :: "MessageHeader \<times> go_type \<times> go_value \<Rightarrow> bool" where
  "message_ok m \<longleftrightarrow> (case m of (h, t, v) \<Rightarrow>
     header_ok h \<and> typed t v \<and> type_ok t \<and> sendable v \<and> marshal v \<noteq> None)"

definition message_frames :: "MessageHeader \<times> go_type \<times> go_value \<Rightarrow> json list" where
  "message_frames m = (case m of (h, t, v) \<Rightarrow> [header_json h, the (marshal v)])"

text \<open>
  What the client and the server rely on: a message that can be encoded is appended to what is
  sent as its header and its body, and what is incoming is decoded from the front.
\<close>

locale message_coder =
  fixes encode :: "'c \<Rightarrow> MessageHeader \<Rightarrow> go_value \<Rightarrow> lib_error option \<times> 'c"
    and decode_header :: "'c \<Rightarrow> MessageHeader \<Rightarrow> (lib_error option \<times> MessageHeader) \<times> 'c"
    and decode_body :: "'c \<Rightarrow> reflect_value option \<Rightarrow> (lib_error option \<times> reflect_value option) \<times> 'c"
    and out :: "'c \<Rightarrow> json list"
    and inp :: "'c \<Rightarrow> json list"
    and ok :: "'c \<Rightarrow> bool"
  assumes encode_appends: "ok c \<Longrightarrow> marshal v = Some j \<Longrightarrow>
      \<exists>c'. encode c h v = (None, c') \<and> ok c' \<and> out c' = out c @ [header_json h, j]"
    and header_front: "ok c \<Longrightarrow> inp c = header_json h # w \<Longrightarrow>
      \<exists>c'. decode_header c empty_header = ((None, received_header h), c') \<and> inp c' = w \<and> ok c'"
    and body_front: "ok c \<Longrightarrow> inp c = j # w \<Longrightarrow> unmarshal t j v = (u, False) \<Longrightarrow>
      \<exists>c'. decode_body c (Some \<lparr>rv_Type = TPtr t, rv_Val = VPtr v\<rparr>) =
             ((None, Some \<lparr>rv_Type = TPtr t, rv_Val = VPtr u\<rparr>), c') \<and> inp c' = w \<and> ok c'"
begin

text \<open>The coder at the other end decodes every message of a sequence, in order and unchanged.\<close>

lemma encode_all:
  assumes "ok c" and "\<forall>m \<in> set ms. message_ok m"
  shows "ok (foldl (\<lambda>c (h, t, v). snd (encode c h v)) c ms) \<and>
         out (foldl (\<lambda>c (h, t, v). snd (encode c h v)) c ms) = out c @ concat (map message_frames ms)"
  using assms
proof (induction ms arbitrary: c)
  case (Cons m ms)
  obtain h t v where m: "m = (h, t, v)" by (cases m)
  then obtain j where j: "marshal v = Some j" using Cons.prems(2) by (auto simp: message_ok_def)
  then obtain c' where "encode c h v = (None, c')" "ok c'" "out c' = out c @ [header_json h, j]"
    using encode_appends[OF Cons.prems(1)] by blast
  then show ?case using Cons.IH[of c'] Cons.prems(2) m j by (simp add: message_frames_def)
qed simp

lemma decode_one:
  assumes "ok c" and "inp c = [header_json h, j] @ w" and "marshal v = Some j"
    and "typed t v" and "type_ok t" and "sendable v" and "header_ok h"
  shows "\<exists>c1 c2. decode_header c empty_header = ((None, h), c1) \<and>
           decode_body c1 (Some (reflect_New t)) = ((None, Some \<lparr>rv_Type = TPtr t, rv_Val = VPtr v\<rparr>), c2) \<and>
           inp c2 = w \<and> ok c2"
proof -
  obtain c1 where c1: "decode_header c empty_header = ((None, h), c1)" "inp c1 = j # w" "ok c1"
    using header_front[OF assms(1)] assms(2,7) by force
  then obtain c2 where "decode_body c1 (Some \<lparr>rv_Type = TPtr t, rv_Val = VPtr (zero_value t)\<rparr>) =
      ((None, Some \<lparr>rv_Type = TPtr t, rv_Val = VPtr v\<rparr>), c2)" "inp c2 = w" "ok c2"
    using body_front[OF c1(3) c1(2) unmarshal_marshal[OF assms(4,5,6,3)]] by blast
  with c1 show ?thesis by (simp add: reflect_New_def)
qed

lemma decode_all:
  assumes "ok c" and "\<forall>m \<in> set ms. message_ok m" and "inp c = concat (map message_frames ms) @ w"
  shows "\<exists>c'. receive_all decode_header decode_body (map (fst \<circ> snd) ms) c =
           (Some (map (\<lambda>(h, t, v). (h, v)) ms), c') \<and> inp c' = w \<and> ok c'"
  using assms
proof (induction ms arbitrary: c)
  case (Cons m ms)
  obtain h t v where m: "m = (h, t, v)" by (cases m)
  then obtain j where j: "marshal v = Some j" and mo: "typed t v" "type_ok t" "sendable v" "header_ok h"
    using Cons.prems(2) by (auto simp: message_ok_def)
  have "message_frames m = [header_json h, j]" using m j by (simp add: message_frames_def)
  then have "inp c = [header_json h, j] @ (concat (map message_frames ms) @ w)"
    using Cons.prems(3) by simp
  then obtain c1 c2 where "decode_header c empty_header = ((None, h), c1)"
    "decode_body c1 (Some (reflect_New t)) = ((None, Some \<lparr>rv_Type = TPtr t, rv_Val = VPtr v\<rparr>), c2)"
    "inp c2 = concat (map message_frames ms) @ w" "ok c2"
    using decode_one[OF Cons.prems(1) _ j mo] by blast
  then show ?case using Cons.IH[of c2] Cons.prems(2) m by auto
qed simp

end

interpretation jc: message_coder jc_EncodeMessageHeaderAndBody jc_DecodeMessageHeader
    jc_DecodeMessageBody sent incoming healthy
proof unfold_locales
  fix c :: JsonCoder and h and j and v and w and t and u
  assume h: "healthy c"
  show "marshal v = Some j \<Longrightarrow> \<exists>c'. jc_EncodeMessageHeaderAndBody c h v = (None, c') \<and> healthy c' \<and>
          sent c' = sent c @ [header_json h, j]"
    using encode_ok[OF h] by blast
  show "incoming c = header_json h # w \<Longrightarrow>
          \<exists>c'. jc_DecodeMessageHeader c empty_header = ((None, received_header h), c') \<and> incoming c' = w \<and> healthy c'"
    using decode_header_next[of c h w] h by (auto simp: healthy_def)
  show "incoming c = j # w \<Longrightarrow> unmarshal t j v = (u, False) \<Longrightarrow>
          \<exists>c'. jc_DecodeMessageBody c (Some \<lparr>rv_Type = TPtr t, rv_Val = VPtr v\<rparr>) =
             ((None, Some \<lparr>rv_Type = TPtr t, rv_Val = VPtr u\<rparr>), c') \<and> incoming c' = w \<and> healthy c'"
    using decode_body_next[of c j w t v u False] h by (auto simp: healthy_def)
qed

subsection \<open>Properties\<close>

definition encode_messages :: "JsonCoder \<Rightarrow> (MessageHeader \<times> go_type \<times> go_value) list \<Rightarrow> JsonCoder" where
  "encode_messages jc ms = foldl (\<lambda>c (h, t, v). snd (jc_EncodeMessageHeaderAndBody c h v)) jc ms"

text \<open>
  C19. Any sequence of messages survives the wire: when one coder encodes messages with typed,
  sendable bodies and the coder at the other end is given what was sent, in whatever chunks, it
  decodes the same headers and bodies, in the same order, and nothing is left over.
\<close>

theorem coder_round_trip:
  assumes "healthy a" and "healthy b" and "\<forall>m \<in> set ms. message_ok m"
    and "incoming b = drop (length (sent a)) (sent (encode_messages a ms))"
  shows "\<exists>b'. receive_all jc_DecodeMessageHeader jc_DecodeMessageBody (map (fst \<circ> snd) ms) b =
    (Some (map (\<lambda>(h, t, v). (h, v)) ms), b') \<and> incoming b' = [] \<and> healthy b'"
proof -
  have "sent (encode_messages a ms) = sent a @ concat (map message_frames ms)"
    using jc.encode_all[OF assms(1,3)] by (simp add: encode_messages_def)
  then have "incoming b = concat (map message_frames ms) @ []" using assms(4) by simp
  from jc.decode_all[OF assms(2,3) this] show ?thesis by blast
qed

definition sample_connection :: "json list list \<Rightarrow> connection" where
  "sample_connection chunks = \<lparr>conn_recv = chunks, conn_end = EOF, conn_sent = [], conn_open = True\<rparr>"

definition sample_header :: MessageHeader where
  "sample_header = \<lparr>ServiceDotMethod = ''Test.Echo'', SequenceNumber = 1, Error = []\<rparr>"

lemma NewJsonCoder_healthy [simp]:
  "healthy (NewJsonCoder (sample_connection chunks))"
  "incoming (NewJsonCoder (sample_connection chunks)) = concat chunks"
  "sent (NewJsonCoder (sample_connection chunks)) = []"
  by (simp_all add: NewJsonCoder_def sample_connection_def healthy_def incoming_def sent_def)

text \<open>The string is one letter (e with an acute accent) in two bytes.\<close>

theorem coder_round_trip_witness:
  "\<exists>b'. receive_all jc_DecodeMessageHeader jc_DecodeMessageBody [TString, TInt]
      (NewJsonCoder (sample_connection [[header_json sample_header], [JStr [CHR 0xC3, CHR 0xA9], header_json sample_header, JNum 7]])) =
    (Some [(sample_header, VStr [CHR 0xC3, CHR 0xA9]), (sample_header, VInt 7)], b')"
proof -
  let ?a = "NewJsonCoder (sample_connection [])"
  let ?b = "NewJsonCoder (sample_connection [[header_json sample_header], [JStr [CHR 0xC3, CHR 0xA9], header_json sample_header, JNum 7]])"
  let ?ms = "[(sample_header, TString, VStr [CHR 0xC3, CHR 0xA9]), (sample_header, TInt, VInt 7)]"
  have ok: "\<forall>m \<in> set ?ms. message_ok m" by (simp add: message_ok_def int_ok_def sample_header_def utf8_examples(1))
  have h: "healthy ?a" by simp
  have "sent (encode_messages ?a ?ms) = [header_json sample_header, JStr [CHR 0xC3, CHR 0xA9], header_json sample_header, JNum 7]"
    using jc.encode_all[OF h ok] by (simp add: encode_messages_def message_frames_def utf8_examples(1))
  then show ?thesis
    using coder_round_trip[of ?a ?b ?ms] ok by auto
qed

text \<open>
  A body that JSON cannot express is reported to the caller, but its header stays in the buffer:
  the next message goes out behind it, and the peer reads that message's header as the stale
  header's body.
\<close>

theorem coder_stale_header:
  assumes "healthy jc" and "marshal bad = None" and "marshal body = Some j"
  shows "\<exists>jc1 jc2. jc_EncodeMessageHeaderAndBody jc h1 bad = (Some JsonUnsupported, jc1) \<and>
    jc_EncodeMessageHeaderAndBody jc1 h2 body = (None, jc2) \<and>
    sent jc1 = sent jc \<and> sent jc2 = sent jc @ [header_json h1, header_json h2, j]"
  using encode_unsupported[OF assms(1,2), of h1] encode_after_unsupported[OF assms(1,3), of "header_json h1" h2]
  by (auto simp: sent_def)

theorem coder_stale_header_witness:
  "\<exists>jc1 jc2. jc_EncodeMessageHeaderAndBody (NewJsonCoder (sample_connection [])) sample_header VOpaque = (Some JsonUnsupported, jc1) \<and>
    jc_EncodeMessageHeaderAndBody jc1 sample_header (VInt 3) = (None, jc2) \<and>
    sent jc2 = [header_json sample_header, header_json sample_header, JNum 3]"
  using coder_stale_header[of "NewJsonCoder (sample_connection [])" VOpaque "VInt 3" "JNum 3" sample_header sample_header]
  by auto

end
