(* ===== verification/Service.thy ===== *)
theory Service
  imports Go_Json_Laws
begin

text \<open>
  Package service: which methods of a registered value become remote methods, how the input and
  the output of a call are created by reflection, and the call itself with its counter.
\<close>

subsection \<open>What reflection sees of a registered value\<close>

text \<open>
  The code of a method is a parameter: from the receiver, the input and the output it computes
  its error (the text, if any) and the receiver and the output it leaves behind, or it panics.
\<close>

type_synonym method_code =
  "go_value \<Rightarrow> go_value \<Rightarrow> go_value \<Rightarrow> (string option \<times> go_value \<times> go_value) go"

text \<open>A \<^verbatim>\<open>reflect.Method\<close>; the first input type is the receiver's.\<close>

record reflect_method =
  rm_Name :: string
  rm_In :: "go_type list"
  rm_Out :: "go_type list"
  rm_Func :: method_code

text \<open>A value with its type and the exported methods of its type, in the order reflect lists them.\<close>

record service_value =
  sv_Type :: go_type
  sv_Val :: go_value
  sv_Methods :: "reflect_method list"

subsection \<open>State\<close>

record Method =
  MethodName :: string
  methodType :: reflect_method
  InputType :: go_type
  OutputType :: go_type
  callCounts :: "64 word"

record Service =
  ServiceName :: string
  serviceType :: go_type
  serviceValue :: service_value
  ServiceMethod :: "(string, Method) dict"

definition method_CallCounts :: "Method \<Rightarrow> 64 word" where
  "method_CallCounts m = callCounts m"

subsection \<open>Input and output of a call\<close>

definition CreateInput :: "Method \<Rightarrow> reflect_value go" where
  "CreateInput m =
     (case type_Kind (InputType m) of
        KPtr \<Rightarrow> go_bind (type_Elem (InputType m)) (\<lambda>t. Ret (reflect_New t))
      | _ \<Rightarrow> Ret \<lparr>rv_Type = InputType m, rv_Val = zero_value (InputType m)\<rparr>)"

definition CreateOutput :: "Method \<Rightarrow> reflect_value go" where
  "CreateOutput m =
     go_bind (type_Elem (OutputType m)) (\<lambda>t.
       (let output = reflect_New t
        in if type_Kind t = KMap then Ret (output\<lparr>rv_Val := VPtr (reflect_MakeMap t)\<rparr>)
           else if type_Kind t = KSlice then Ret (output\<lparr>rv_Val := VPtr (VSlice [])\<rparr>)
           else Ret output))"

subsection \<open>Registration\<close>

definition exported_or_builtin :: "go_type \<Rightarrow> bool" where
  "exported_or_builtin t \<longleftrightarrow> ast_IsExported (type_Name t) \<or> type_PkgPath t = ''''"

fun createMethod :: "reflect_method list \<Rightarrow> (string, Method) dict \<Rightarrow> (string, Method) dict" where
  "createMethod [] ms = ms"
| "createMethod (m # rest) ms =
     (if length (rm_In m) \<noteq> 3 then createMethod rest ms
      else if length (rm_Out m) \<noteq> 1 then createMethod rest ms
      else if rm_Out m ! 0 \<noteq> TError then createMethod rest ms
      else
        (let inputType = rm_In m ! 1; outputType = rm_In m ! 2
         in if \<not> exported_or_builtin inputType then createMethod rest ms
            else if \<not> exported_or_builtin outputType then createMethod rest ms
            else createMethod rest
                   (AList.update (rm_Name m)
                      \<lparr>MethodName = rm_Name m, methodType = m, InputType = inputType,
                       OutputType = outputType, callCounts = 0\<rparr> ms)))"

text \<open>\<^verbatim>\<open>reflect.Indirect\<close>: the type behind a pointer; there is none behind a nil pointer.\<close>

definition indirect_type :: "service_value \<Rightarrow> go_type go" where
  "indirect_type sv =
     (if type_Kind (sv_Type sv) = KPtr
      then (if sv_Val sv = VNil then Panic ReflectPanic else type_Elem (sv_Type sv))
      else Ret (sv_Type sv))"

definition CreateService :: "service_value \<Rightarrow> Service go" where
  "CreateService sv =
     go_bind (indirect_type sv) (\<lambda>t.
       (let name = type_Name t
        in if \<not> ast_IsExported name then Panic LogFatal
           else Ret \<lparr>ServiceName = name, serviceType = sv_Type sv, serviceValue = sv,
                     ServiceMethod = createMethod (sv_Methods sv) []\<rparr>))"

subsection \<open>The call\<close>

text \<open>
  The counter first, then the function, which \<^verbatim>\<open>reflect.Value.Call\<close> only enters when the input and
  the output can be assigned to its parameters. The result is the error and the output, and the
  service with its counter and its receiver updated.
\<close>

definition count_call :: "string \<Rightarrow> Service \<Rightarrow> Service" where
  "count_call name s =
     (case map_of (ServiceMethod s) name of
        None \<Rightarrow> s
      | Some m \<Rightarrow> s\<lparr>ServiceMethod :=
           AList.update name (m\<lparr>callCounts := callCounts m + 1\<rparr>) (ServiceMethod s)\<rparr>)"

definition service_Call ::
  "Service \<Rightarrow> Method \<Rightarrow> reflect_value \<Rightarrow> reflect_value \<Rightarrow> (go_error option \<times> reflect_value) go \<times> Service" where
  "service_Call s m input output =
     (let s1 = count_call (MethodName m) s; f = methodType m
      in if \<not> (assignable (rv_Type input) (rm_In f ! 1) \<and> assignable (rv_Type output) (rm_In f ! 2))
         then (Panic ReflectPanic, s1)
         else case rm_Func f (sv_Val (serviceValue s1)) (rv_Val input) (rv_Val output) of
           Panic p \<Rightarrow> (Panic p, s1)
         | Ret (err, receiver, out) \<Rightarrow>
             (Ret (map_option UserError err, output\<lparr>rv_Val := out\<rparr>),
              s1\<lparr>serviceValue := (serviceValue s1)\<lparr>sv_Val := receiver\<rparr>\<rparr>))"

lemmas service_defs [op_defs] = CreateInput_def CreateOutput_def CreateService_def service_Call_def
  count_call_def

subsection \<open>Which methods are registered\<close>

definition suitable :: "reflect_method \<Rightarrow> bool" where
  "suitable m \<longleftrightarrow> length (rm_In m) = 3 \<and> rm_Out m = [TError] \<and>
     exported_or_builtin (rm_In m ! 1) \<and> exported_or_builtin (rm_In m ! 2)"

definition new_Method :: "reflect_method \<Rightarrow> Method" where
  "new_Method m = \<lparr>MethodName = rm_Name m, methodType = m, InputType = rm_In m ! 1,
     OutputType = rm_In m ! 2, callCounts = 0\<rparr>"

lemma one_error: "(length ts = 1 \<and> ts ! 0 = TError) = (ts = [TError])"
  by (cases ts) auto

lemma createMethod_step:
  "createMethod (m # rest) ms =
     createMethod rest (if suitable m then AList.update (rm_Name m) (new_Method m) ms else ms)"
  using one_error[of "rm_Out m"] by (auto simp: suitable_def new_Method_def Let_def)

declare createMethod.simps(2) [simp del]

lemma createMethod_lookup:
  "distinct (map rm_Name rms) \<Longrightarrow>
   map_of (createMethod rms ms) n =
     (case find (\<lambda>m. rm_Name m = n \<and> suitable m) rms of
        Some m \<Rightarrow> Some (new_Method m) | None \<Rightarrow> map_of ms n)"
proof (induction rms arbitrary: ms)
  case (Cons m rest)
  have "rm_Name m = n \<Longrightarrow> find (\<lambda>m. rm_Name m = n \<and> suitable m) rest = None"
    using Cons.prems by (auto simp: find_None_iff image_iff)
  with Cons show ?case
    by (auto simp: createMethod_step update_conv split: option.splits)
qed simp

lemma createMethod_member:
  "map_of (createMethod rms ms) n = Some m \<Longrightarrow>
   map_of ms n = Some m \<or> (\<exists>r \<in> set rms. suitable r \<and> m = new_Method r \<and> n = rm_Name r)"
proof (induction rms arbitrary: ms)
  case (Cons r rms)
  then show ?case by (fastforce simp: createMethod_step update_conv split: if_splits)
qed simp

subsection \<open>Inputs and outputs are well typed\<close>

lemma underlying_ptr: "type_Kind t = KPtr \<Longrightarrow> \<exists>u. underlying t = TPtr u \<and> type_Elem t = Ret u"
  by (induction t) auto

lemma assignable_refl [simp]: "assignable t t"
  by (simp add: assignable_def)

lemma assignable_ptr: "underlying t = TPtr u \<Longrightarrow> assignable (TPtr u) t"
  by (simp add: assignable_def is_named_def)

lemma type_ok_elem: "underlying t = TPtr u \<Longrightarrow> type_ok t \<Longrightarrow> type_ok u"
  using type_ok_underlying[of t] by simp

lemma CreateInput_typed:
  assumes "type_ok (InputType m)"
  shows "\<exists>rv. CreateInput m = Ret rv \<and> assignable (rv_Type rv) (InputType m) \<and>
           type_ok (rv_Type rv) \<and> typed (rv_Type rv) (rv_Val rv) \<and>
           (type_Kind (InputType m) = KPtr \<longrightarrow> rv_Val rv \<noteq> VNil)"
proof (cases "type_Kind (InputType m) = KPtr")
  case True
  then obtain u where u: "underlying (InputType m) = TPtr u" "type_Elem (InputType m) = Ret u"
    using underlying_ptr by blast
  then have "type_ok u" using assms type_ok_elem by blast
  with True u show ?thesis
    by (simp add: CreateInput_def reflect_New_def assignable_ptr zero_typed)
next
  case False
  then show ?thesis
    using assms zero_typed by (auto simp: CreateInput_def split: go_kind.split)
qed

lemma kind_map: "type_Kind t = KMap \<Longrightarrow> typed t (reflect_MakeMap t)"
  by (induction t) auto

lemma kind_slice: "type_Kind t = KSlice \<Longrightarrow> typed t (VSlice [])"
  by (induction t) auto

lemma CreateOutput_typed:
  assumes "type_ok (OutputType m)" and "type_Kind (OutputType m) = KPtr"
  shows "\<exists>u v. CreateOutput m = Ret \<lparr>rv_Type = TPtr u, rv_Val = VPtr v\<rparr> \<and>
           assignable (TPtr u) (OutputType m) \<and> underlying (OutputType m) = TPtr u \<and> typed u v"
proof -
  obtain u where u: "underlying (OutputType m) = TPtr u" "type_Elem (OutputType m) = Ret u"
    using underlying_ptr[OF assms(2)] by blast
  then have "type_ok u" using assms(1) type_ok_elem by blast
  with u show ?thesis
    by (auto simp: CreateOutput_def reflect_New_def assignable_ptr zero_typed kind_map kind_slice Let_def)
qed

text \<open>An output type that is not a pointer is registered, and a call of the method panics.\<close>

lemma CreateOutput_panics:
  "type_Kind (OutputType m) \<in> {KBool, KInt, KUint64, KString, KInterface, KFunc, KStruct} \<Longrightarrow>
   CreateOutput m = Panic ReflectPanic"
proof -
  have "type_Kind t \<in> {KBool, KInt, KUint64, KString, KInterface, KFunc, KStruct} \<Longrightarrow>
        type_Elem t = Panic ReflectPanic" for t
    by (induction t) auto
  then show "type_Kind (OutputType m) \<in> {KBool, KInt, KUint64, KString, KInterface, KFunc, KStruct} \<Longrightarrow>
      CreateOutput m = Panic ReflectPanic"
    by (simp add: CreateOutput_def)
qed

subsection \<open>The counter\<close>

lemma count_call_lookup:
  "map_of (ServiceMethod (count_call n s)) k =
     (if k = n then map_option (\<lambda>m. m\<lparr>callCounts := callCounts m + 1\<rparr>) (map_of (ServiceMethod s) n)
      else map_of (ServiceMethod s) k)"
  by (simp add: count_call_def update_conv split: option.split)

lemma service_Call_methods:
  "ServiceMethod (snd (service_Call s m input output)) = ServiceMethod (count_call (MethodName m) s)"
  by (simp add: service_Call_def Let_def split: go.split prod.split)

lemma service_Call_name: "ServiceName (snd (service_Call s m input output)) = ServiceName s"
  by (simp add: service_Call_def count_call_def Let_def split: go.split prod.split option.split)

subsection \<open>Properties\<close>

text \<open>
  C37. Registration makes a remote method of exactly the suitable methods: those with two parameters
  beside the receiver and the single result \<^verbatim>\<open>error\<close>, whose parameter types are exported or built in;
  each is stored under its own name with its parameter types and a counter of 0.
\<close>

theorem registered_methods:
  assumes "CreateService sv = Ret s" and "distinct (map rm_Name (sv_Methods sv))"
  shows "map_of (ServiceMethod s) n =
    map_option new_Method (find (\<lambda>r. rm_Name r = n \<and> suitable r) (sv_Methods sv))"
proof -
  have "ServiceMethod s = createMethod (sv_Methods sv) []"
    using assms(1) by (auto simp: CreateService_def go_simps Let_def split: if_splits)
  then show ?thesis using createMethod_lookup[OF assms(2), of "[]" n] by (simp split: option.split)
qed

text \<open>The sample service of the unit tests, with a method that is not suitable.\<close>

definition input_type :: go_type where
  "input_type = TNamed ''main'' ''Input'' (TStruct [(''A'', TInt), (''B'', TInt)])"

definition output_type :: go_type where
  "output_type = TNamed ''main'' ''Output'' (TStruct [(''C'', TInt)])"

fun addition :: method_code where
  "addition recv (VPtr (VStruct [(_, VInt a), (_, VInt b)])) out =
     Ret (None, recv, VPtr (VStruct [(''C'', VInt (sint (word_of_int (a + b) :: 64 word)))]))"
| "addition recv inp out = Panic NilDereference"

fun division :: method_code where
  "division recv (VPtr (VStruct [(_, VInt a), (_, VInt b)])) out =
     (if b = 0 then Ret (Some ''divide by zero'', recv, out)
      else Ret (None, recv, VPtr (VStruct [(''C'', VInt (sint (word_of_int (sgn a * sgn b * (\<bar>a\<bar> div \<bar>b\<bar>)) :: 64 word)))])))"
| "division recv inp out = Panic NilDereference"

definition arithmetic_type :: go_type where
  "arithmetic_type = TNamed ''main'' ''Arithmetic'' TInt"

definition arithmetic_methods :: "reflect_method list" where
  "arithmetic_methods =
     [\<lparr>rm_Name = ''Addition'', rm_In = [TPtr arithmetic_type, TPtr input_type, TPtr output_type],
       rm_Out = [TError], rm_Func = addition\<rparr>,
      \<lparr>rm_Name = ''Division'', rm_In = [TPtr arithmetic_type, TPtr input_type, TPtr output_type],
       rm_Out = [TError], rm_Func = division\<rparr>,
      \<lparr>rm_Name = ''Name'', rm_In = [TPtr arithmetic_type], rm_Out = [TString], rm_Func = division\<rparr>]"

definition arithmetic :: service_value where
  "arithmetic = \<lparr>sv_Type = TPtr arithmetic_type, sv_Val = VPtr (VInt 0), sv_Methods = arithmetic_methods\<rparr>"

definition arithmetic_service :: Service where
  "arithmetic_service = \<lparr>ServiceName = ''Arithmetic'', serviceType = TPtr arithmetic_type,
     serviceValue = arithmetic, ServiceMethod = createMethod arithmetic_methods []\<rparr>"

lemma arithmetic_created: "CreateService arithmetic = Ret arithmetic_service"
  by (simp add: CreateService_def indirect_type_def arithmetic_def arithmetic_service_def arithmetic_type_def
      ast_IsExported_def is_upper_def Let_def)

theorem registered_methods_witness:
  "map_of (ServiceMethod arithmetic_service) ''Addition'' = Some (new_Method (hd arithmetic_methods)) \<and>
   map_of (ServiceMethod arithmetic_service) ''Name'' = None"
  using registered_methods[OF arithmetic_created, of "''Addition''"] registered_methods[OF arithmetic_created, of "''Name''"]
  by (simp add: arithmetic_def arithmetic_methods_def suitable_def exported_or_builtin_def input_type_def output_type_def)

text \<open>
  An output type that is not a pointer is accepted by registration all the same, and every
  request for such a method panics when the output is created (for scalar, structure, interface
  and function types).
\<close>

theorem registered_output_panics:
  assumes "suitable r" and "type_Kind (rm_In r ! 2) \<in> {KBool, KInt, KUint64, KString, KInterface, KFunc, KStruct}"
  shows "map_of (createMethod [r] []) (rm_Name r) = Some (new_Method r) \<and> CreateOutput (new_Method r) = Panic ReflectPanic"
  using assms createMethod_lookup[of "[r]" "[]" "rm_Name r"] CreateOutput_panics[of "new_Method r"]
  by (simp add: new_Method_def)

theorem registered_output_panics_witness:
  "CreateOutput (new_Method \<lparr>rm_Name = ''F'', rm_In = [TPtr arithmetic_type, TInt, TInt], rm_Out = [TError],
     rm_Func = division\<rparr>) = Panic ReflectPanic"
  using registered_output_panics[of "\<lparr>rm_Name = ''F'', rm_In = [TPtr arithmetic_type, TInt, TInt], rm_Out = [TError],
     rm_Func = division\<rparr>"]
  by (simp add: suitable_def exported_or_builtin_def)

text \<open>
  A call counts itself before anything else, so it is counted also when it fails or panics: the
  64-bit counter of its method goes up by one (and wraps), all other counters stay.
\<close>

theorem call_is_counted:
  assumes "map_of (ServiceMethod s) (MethodName m) = Some m"
  shows "map_option method_CallCounts (map_of (ServiceMethod (snd (service_Call s m input output))) k) =
    (if k = MethodName m then Some (callCounts m + 1) else map_option method_CallCounts (map_of (ServiceMethod s) k))"
  using assms by (simp add: service_Call_methods count_call_lookup method_CallCounts_def)

theorem call_is_counted_witness:
  "map_option method_CallCounts (map_of (ServiceMethod (snd (service_Call arithmetic_service
     (new_Method (hd arithmetic_methods)) (reflect_New input_type) (reflect_New TInt)))) ''Addition'') = Some 1"
proof -
  have "map_of (ServiceMethod arithmetic_service) (MethodName (new_Method (hd arithmetic_methods))) =
      Some (new_Method (hd arithmetic_methods))"
    using createMethod_lookup[of arithmetic_methods "[]" "''Addition''"]
    by (simp add: arithmetic_service_def arithmetic_methods_def new_Method_def suitable_def exported_or_builtin_def
        input_type_def output_type_def)
  from call_is_counted[OF this, of "reflect_New input_type" "reflect_New TInt" "''Addition''"] show ?thesis
    by (simp add: new_Method_def arithmetic_methods_def)
qed

end
