(* ===== verification/Info_Page.thy ===== *)
theory Info_Page
  imports Service "HOL-Library.Sublist"
begin

text \<open>
  The information page of the server (server_info.go): the template \<^verbatim>\<open>serverInfoText\<close> as package
  html/template renders it. Every action of the template stands in the text of an element, so its
  value is printed as \<^verbatim>\<open>fmt\<close> does and then escaped for HTML text; a \<^verbatim>\<open>range\<close> over a map runs in the
  order of its keys.
\<close>

subsection \<open>Printing and escaping\<close>

text \<open>
  \<^verbatim>\<open>Type.String\<close> for the types of the model; a named type is printed with the name of its package,
  which is taken to be the last element of the package's path.
\<close>

definition package_name :: "string \<Rightarrow> string" where
  "package_name path = last (strings_Split CHR ''/'' path)"

fun type_String :: "go_type \<Rightarrow> string"
  and fields_String :: "(string \<times> go_type) list \<Rightarrow> string" where
  "type_String TBool = ''bool''"
| "type_String TInt = ''int''"
| "type_String TUint64 = ''uint64''"
| "type_String TString = ''string''"
| "type_String TError = ''error''"
| "type_String TFunc = ''func()''"
| "type_String (TPtr t) = ''*'' @ type_String t"
| "type_String (TSlice t) = ''[]'' @ type_String t"
| "type_String (TArray n t) = ''['' @ show_nat n @ '']'' @ type_String t"
| "type_String (TMap k t) = ''map['' @ type_String k @ '']'' @ type_String t"
| "type_String (TStruct []) = ''struct {}''"
| "type_String (TStruct (f # fs)) = ''struct { '' @ fields_String (f # fs) @ '' }''"
| "type_String (TNamed pkg name t) = package_name pkg @ ''.'' @ name"
| "fields_String [] = []"
| "fields_String [(n, t)] = n @ '' '' @ type_String t"
| "fields_String ((n, t) # f # fs) = n @ '' '' @ type_String t @ ''; '' @ fields_String (f # fs)"

text \<open>The replacements of html/template in the text of an element.\<close>

definition escape_char :: "char \<Rightarrow> string" where
  "escape_char c =
     (if c = CHR 0x00 then [CHR 0xEF, CHR 0xBF, CHR 0xBD]
      else if c = CHR 0x22 then ''&#34;''
      else if c = CHR ''&'' then ''&amp;''
      else if c = CHR 0x27 then ''&#39;''
      else if c = CHR ''+'' then ''&#43;''
      else if c = CHR ''<'' then ''&lt;''
      else if c = CHR ''>'' then ''&gt;''
      else [c])"

definition html_escape :: "string \<Rightarrow> string" where
  "html_escape s = concat (map escape_char s)"

subsection \<open>The template\<close>

text \<open>A line break with the tabs that follow it in the template, and the text after them.\<close>

definition html_line :: "nat \<Rightarrow> string \<Rightarrow> string" where
  "html_line tabs s = CHR 0x0A # replicate tabs (CHR 0x09) @ s"

definition method_row :: "string \<times> Method \<Rightarrow> string" where
  "method_row e = (case e of (name, m) \<Rightarrow>
     html_line 3 ''<tr>'' @
     html_line 3 ''<td align=left font=fixed>'' @ html_escape name @ ''('' @ html_escape (type_String (InputType m)) @
       '', '' @ html_escape (type_String (OutputType m)) @ '') error</td>'' @
     html_line 3 ''<td align=center>'' @ html_escape (show_int (uint (method_CallCounts m))) @ ''</td>'' @
     html_line 3 ''</tr>'' @ html_line 2 [])"

definition service_table :: "string \<times> (string, Method) dict \<Rightarrow> string" where
  "service_table e = (case e of (name, methods) \<Rightarrow>
     html_line 1 ''<hr>'' @ html_line 1 ''Service '' @ html_escape name @ html_line 1 ''<hr>'' @
     html_line 2 ''<table>'' @
     html_line 2 ''<th align=center>Method</th><th align=center>Calls</th>'' @
     html_line 2 [] @ concat (map method_row (sort_key fst methods)) @
     html_line 2 ''</table>'' @ html_line 1 [])"

definition serverInfo :: "(string \<times> (string, Method) dict) list \<Rightarrow> string" where
  "serverInfo services =
     ''<html>'' @ html_line 1 ''<body>'' @ html_line 1 ''<title>Spartan RPC Services</title>'' @
     html_line 1 [] @ concat (map service_table services) @
     html_line 1 ''</body>'' @ html_line 1 ''</html>'' @ html_line 0 []"

subsection \<open>Lemmas\<close>

text \<open>Escaped text has no character that could begin or end a tag.\<close>

lemma escape_char_safe: "c \<in> {CHR ''<'', CHR ''>'', CHR 0x22, CHR 0x27} \<Longrightarrow> c \<notin> set (escape_char d)"
  by (auto simp: escape_char_def)

lemma html_escape_safe: "c \<in> {CHR ''<'', CHR ''>'', CHR 0x22, CHR 0x27} \<Longrightarrow> c \<notin> set (html_escape s)"
  unfolding html_escape_def set_concat set_map using escape_char_safe by blast

lemma count_escape [simp]: "count_list (html_escape s) CHR ''<'' = 0"
  using html_escape_safe[of "CHR ''<''" s] by (simp add: count_list_0_iff)

lemma count_line [simp]: "count_list (html_line n s) CHR ''<'' = count_list s CHR ''<''"
  by (simp add: html_line_def count_list_0_iff)

lemma count_method_row: "count_list (method_row e) CHR ''<'' = 6"
  by (simp add: method_row_def split: prod.split)

lemma count_service_table: "count_list (service_table (name, ms)) CHR ''<'' = 8 + 6 * length ms"
proof -
  have "count_list (concat (map method_row es)) CHR ''<'' = 6 * length es" for es
    by (induction es) (simp_all add: count_method_row)
  then show ?thesis by (simp add: service_table_def)
qed

text \<open>The rows of a table come in the order of the names, whatever the order of the map.\<close>

lemma sort_key_dict:
  assumes "dict_ok ms" and "dict_ok ms'" and "set ms = set (ms' :: (string, 'v) dict)"
  shows "sort_key fst ms = sort_key fst ms'"
proof (rule map_sorted_distinct_set_unique[of fst])
  have "inj_on fst (set ms)" using assms(1) by (simp add: distinct_map)
  then show "inj_on fst (set (sort_key fst ms) \<union> set (sort_key fst ms'))" using assms(3) by simp
qed (use assms in \<open>simp_all add: distinct_map\<close>)

lemma createMethod_distinct: "dict_ok ms \<Longrightarrow> dict_ok (createMethod rms ms)"
  by (induction rms arbitrary: ms) (simp_all add: createMethod_step dict_ok_update del: createMethod.simps(2))

lemma sublist_concat: "x \<in> set xs \<Longrightarrow> sublist x (concat xs)"
  by (metis append.assoc concat.simps(2) concat_append in_set_conv_decomp sublist_def)

lemma sublist_before: "sublist x ys \<Longrightarrow> sublist x (xs @ ys)"
  and sublist_after: "sublist x ys \<Longrightarrow> sublist x (ys @ zs)"
  by (metis append.assoc sublist_def)+

lemma service_table_row: "(n, m) \<in> set ms \<Longrightarrow> sublist (method_row (n, m)) (service_table (name, ms))"
  unfolding service_table_def prod.case
  using sublist_concat[of "method_row (n, m)" "map method_row (sort_key fst ms)"]
  by (force intro: sublist_before sublist_after)

lemma serverInfo_row:
  assumes "(name, ms) \<in> set services" and "(n, m) \<in> set ms"
  shows "sublist (method_row (n, m)) (serverInfo services)"
proof -
  have "sublist (service_table (name, ms)) (concat (map service_table services))"
    by (rule sublist_concat) (use assms(1) in force)
  with service_table_row[OF assms(2)] have "sublist (method_row (n, m)) (concat (map service_table services))"
    by (rule sublist_order.order.trans)
  then show ?thesis
    unfolding serverInfo_def by (blast intro: sublist_before sublist_after)
qed

end
