(* ===== verification/Registry.thy ===== *)
theory Registry
  imports Go_Strings
begin

text \<open>
  Package registry: the register of RPC servers, its HTTP endpoint, and the specification of what
  it lists. A server posts its address (a heartbeat), which stamps it with the time; a client gets
  the sorted list of the servers whose stamp is younger than the timeout, and the expired ones are
  deleted on the way. The specification remembers every heartbeat; the refinement says that the
  deletions never show.
\<close>

subsection \<open>Listeners and HTTP messages\<close>

text \<open>Of a \<^verbatim>\<open>net.Listener\<close> the program reads its network and its address.\<close>

record listener =
  addr_Network :: string
  addr_String :: string

record http_request =
  req_Method :: string
  req_Header :: http_header

record http_response =
  resp_Status :: nat
  resp_Header :: http_header

definition StatusOK :: nat where "StatusOK = 200"
definition StatusNotFound :: nat where "StatusNotFound = 404"
definition StatusMethodNotAllowed :: nat where "StatusMethodNotAllowed = 405"
definition StatusInternalServerError :: nat where "StatusInternalServerError = 500"

lemmas status_defs = StatusOK_def StatusNotFound_def StatusMethodNotAllowed_def
  StatusInternalServerError_def

subsection \<open>State and constructor\<close>

record ServerInfo =
  info_ServerAddress :: string
  lastUpdateTime :: time

record Registry =
  reg_Listener :: listener
  RegistryAddress :: string
  RegistryURL :: string
  Timeout :: duration
  RpcServerAddressToServerInfoMap :: "(string, ServerInfo) dict"

abbreviation reg_map :: "Registry \<Rightarrow> (string, ServerInfo) dict" where
  "reg_map \<equiv> RpcServerAddressToServerInfoMap"

definition DefaultRegistryPath :: string where
  "DefaultRegistryPath = ''/_srpc_/registry''"

definition DefaultTimeout :: duration where
  "DefaultTimeout = time_Minute * 2"

text \<open>
  The address of a listener on every interface is printed as \<^verbatim>\<open>[::]:port\<close>; the test for it takes
  the first four bytes, which panics on an address shorter than that.
\<close>

definition CreateRegistry :: "listener option \<Rightarrow> duration \<Rightarrow> (go_error + Registry) go" where
  "CreateRegistry lis timeout =
     (case lis of None \<Rightarrow> Ret (Inl NilListener)
      | Some l \<Rightarrow>
          go_bind (slice_to (addr_String l) 4) (\<lambda>prefix.
          go_bind (if prefix = ''[::]''
                   then go_bind (slice_from (addr_String l) 4) (\<lambda>port.
                          Ret (''http://localhost'' @ port @ DefaultRegistryPath))
                   else Ret (''http://'' @ addr_String l @ DefaultRegistryPath)) (\<lambda>url.
          Ret (Inr \<lparr>reg_Listener = l, RegistryAddress = ''http'' @ ''@'' @ addr_String l,
                    RegistryURL = url, Timeout = timeout,
                    RpcServerAddressToServerInfoMap = []\<rparr>))))"

subsection \<open>Operations\<close>

definition registerServer :: "time \<Rightarrow> string \<Rightarrow> Registry \<Rightarrow> Registry" where
  "registerServer now a reg =
     (case map_of (reg_map reg) a of
        None \<Rightarrow> reg\<lparr>RpcServerAddressToServerInfoMap :=
                     AList.update a \<lparr>info_ServerAddress = a, lastUpdateTime = now\<rparr> (reg_map reg)\<rparr>
      | Some info \<Rightarrow> reg\<lparr>RpcServerAddressToServerInfoMap :=
                     AList.update a (info\<lparr>lastUpdateTime := now\<rparr>) (reg_map reg)\<rparr>)"

text \<open>The clock is read again for every entry of the map: \<open>clk a\<close> is the reading at \<open>a\<close>.\<close>

definition is_alive :: "duration \<Rightarrow> (string \<Rightarrow> time) \<Rightarrow> string \<times> ServerInfo \<Rightarrow> bool" where
  "is_alive timeout clk e \<longleftrightarrow>
     timeout = 0 \<or> time_After (time_Add (lastUpdateTime (snd e)) timeout) (clk (fst e))"

fun alive_scan ::
  "duration \<Rightarrow> (string \<Rightarrow> time) \<Rightarrow> (string, ServerInfo) dict \<Rightarrow> string list \<times> (string, ServerInfo) dict" where
  "alive_scan timeout clk [] = ([], [])"
| "alive_scan timeout clk (e # es) =
     (let (as, kept) = alive_scan timeout clk es
      in if is_alive timeout clk e then (fst e # as, e # kept) else (as, kept))"

definition getAliveServerList :: "(string \<Rightarrow> time) \<Rightarrow> Registry \<Rightarrow> string list \<times> Registry" where
  "getAliveServerList clk reg =
     (let (as, kept) = alive_scan (Timeout reg) clk (reg_map reg)
      in (sort as, reg\<lparr>RpcServerAddressToServerInfoMap := kept\<rparr>))"

definition reg_ServeHTTP ::
  "(string \<Rightarrow> time) \<Rightarrow> http_request \<Rightarrow> Registry \<Rightarrow> http_response \<times> Registry" where
  "reg_ServeHTTP clk req reg =
     (if req_Method req = ''GET'' then
        (let (as, reg') = getAliveServerList clk reg
         in (\<lparr>resp_Status = StatusOK,
              resp_Header = header_Set ''GET-SpartanRPC-AliveServers'' (strings_Join CHR '','' as) []\<rparr>, reg'))
      else if req_Method req = ''POST'' then
        (let a = header_Get (req_Header req) ''POST-SpartanRPC-AliveServer''
         in if a = [] then (\<lparr>resp_Status = StatusInternalServerError, resp_Header = []\<rparr>, reg)
            else (\<lparr>resp_Status = StatusOK, resp_Header = []\<rparr>, registerServer (clk a) a reg))
      else (\<lparr>resp_Status = StatusMethodNotAllowed, resp_Header = []\<rparr>, reg))"

text \<open>The multiplexer has one path; any other path is answered by its not-found page.\<close>

definition reg_LaunchAndServe ::
  "string \<Rightarrow> (string \<Rightarrow> time) \<Rightarrow> http_request \<Rightarrow> Registry \<Rightarrow> http_response \<times> Registry" where
  "reg_LaunchAndServe path clk req reg =
     (if path = DefaultRegistryPath then reg_ServeHTTP clk req reg
      else (\<lparr>resp_Status = StatusNotFound, resp_Header = []\<rparr>, reg))"

lemmas registry_defs [op_defs] = registerServer_def getAliveServerList_def reg_ServeHTTP_def

subsection \<open>Invariant of the map\<close>

definition reg_inv :: "Registry \<Rightarrow> bool" where
  "reg_inv reg \<longleftrightarrow> dict_ok (reg_map reg) \<and>
     (\<forall>a info. (a, info) \<in> set (reg_map reg) \<longrightarrow> info_ServerAddress info = a \<and> a \<noteq> [])"

lemma alive_scan_filter:
  "alive_scan timeout clk m = (map fst (filter (is_alive timeout clk) m), filter (is_alive timeout clk) m)"
  by (induction m) (auto simp: Let_def)

lemma getAlive_eq:
  "getAliveServerList clk reg =
     (sort (map fst (filter (is_alive (Timeout reg) clk) (reg_map reg))),
      reg\<lparr>RpcServerAddressToServerInfoMap := filter (is_alive (Timeout reg) clk) (reg_map reg)\<rparr>)"
  by (simp add: getAliveServerList_def alive_scan_filter)

lemma registerServer_lookup:
  "map_of (reg_map (registerServer now a reg)) b =
     (if b = a then Some (case map_of (reg_map reg) a of
                            None \<Rightarrow> \<lparr>info_ServerAddress = a, lastUpdateTime = now\<rparr>
                          | Some info \<Rightarrow> info\<lparr>lastUpdateTime := now\<rparr>)
      else map_of (reg_map reg) b)"
  by (simp add: registerServer_def update_conv split: option.splits)

lemma registerServer_Timeout [simp]: "Timeout (registerServer now a reg) = Timeout reg"
  by (simp add: registerServer_def split: option.splits)

lemma reg_inv_alt:
  "reg_inv reg \<longleftrightarrow> dict_ok (reg_map reg) \<and>
     (\<forall>a info. map_of (reg_map reg) a = Some info \<longrightarrow> info_ServerAddress info = a \<and> a \<noteq> [])"
  unfolding reg_inv_def by (metis map_of_Some_iff)

lemma dict_ok_registerServer: "dict_ok (reg_map reg) \<Longrightarrow> dict_ok (reg_map (registerServer now a reg))"
  by (auto simp: registerServer_def split: option.splits intro: dict_ok_update)

lemma reg_inv_registerServer: "reg_inv reg \<Longrightarrow> a \<noteq> [] \<Longrightarrow> reg_inv (registerServer now a reg)"
  unfolding reg_inv_alt registerServer_lookup
  by (auto simp del: map_of_eq_Some_iff intro: dict_ok_registerServer split: if_splits option.splits)

lemma reg_inv_getAlive: "reg_inv reg \<Longrightarrow> reg_inv (snd (getAliveServerList clk reg))"
  by (auto simp: reg_inv_def getAlive_eq intro: dict_ok_filter)

lemma reg_inv_ServeHTTP: "reg_inv reg \<Longrightarrow> reg_inv (snd (reg_ServeHTTP clk req reg))"
  using reg_inv_getAlive[of reg clk]
  by (auto simp: reg_ServeHTTP_def Let_def split_def intro: reg_inv_registerServer)

subsection \<open>Specification: the last heartbeat of every server\<close>

datatype reg_event =
    Beat time string
  | Listing "string \<Rightarrow> time" time

definition event_request :: "reg_event \<Rightarrow> http_request" where
  "event_request e =
     (case e of
        Beat t a \<Rightarrow> \<lparr>req_Method = ''POST'', req_Header = header_Set ''POST-SpartanRPC-AliveServer'' a []\<rparr>
      | Listing clk u \<Rightarrow> \<lparr>req_Method = ''GET'', req_Header = []\<rparr>)"

definition event_clock :: "reg_event \<Rightarrow> string \<Rightarrow> time" where
  "event_clock e = (case e of Beat t a \<Rightarrow> (\<lambda>_. t) | Listing clk u \<Rightarrow> clk)"

definition reg_event_step :: "Registry \<Rightarrow> reg_event \<Rightarrow> Registry" where
  "reg_event_step reg e = snd (reg_ServeHTTP (event_clock e) (event_request e) reg)"

text \<open>Events in the order of the clock: a listing reads it several times and ends at \<open>u\<close>.\<close>

fun in_order :: "time \<Rightarrow> reg_event list \<Rightarrow> bool" where
  "in_order t [] = True"
| "in_order t (Beat u a # es) = (t \<le> u \<and> in_order u es)"
| "in_order t (Listing clk u # es) = ((\<forall>a. t \<le> clk a \<and> clk a \<le> u) \<and> in_order u es)"

fun end_time :: "time \<Rightarrow> reg_event list \<Rightarrow> time" where
  "end_time t [] = t"
| "end_time t (Beat u a # es) = end_time u es"
| "end_time t (Listing clk u # es) = end_time u es"

fun last_beat :: "(string \<rightharpoonup> time) \<Rightarrow> reg_event list \<Rightarrow> (string \<rightharpoonup> time)" where
  "last_beat lb [] = lb"
| "last_beat lb (Beat u a # es) = last_beat (if a = [] then lb else lb(a \<mapsto> u)) es"
| "last_beat lb (Listing clk u # es) = last_beat lb es"

text \<open>
  The state and the history agree: a stored stamp is the last heartbeat, and a server that posted
  and is no longer stored had expired by now.
\<close>

fun agrees_at :: "duration \<Rightarrow> time \<Rightarrow> time option \<Rightarrow> ServerInfo option \<Rightarrow> bool" where
  "agrees_at timeout t b (Some info) = (b = Some (lastUpdateTime info))"
| "agrees_at timeout t None None = True"
| "agrees_at timeout t (Some u) None = (timeout \<noteq> 0 \<and> u + timeout \<le> t)"

definition agrees :: "time \<Rightarrow> (string \<rightharpoonup> time) \<Rightarrow> Registry \<Rightarrow> bool" where
  "agrees t lb reg \<longleftrightarrow> dict_ok (reg_map reg) \<and>
     (\<forall>a. agrees_at (Timeout reg) t (lb a) (map_of (reg_map reg) a))"

lemma agrees_at_mono: "agrees_at timeout t b i \<Longrightarrow> t \<le> u \<Longrightarrow> agrees_at timeout u b i"
  by (cases i; cases b) auto

lemma agrees_at_stamp: "agrees_at timeout t (Some u) (Some info) \<longleftrightarrow> lastUpdateTime info = u"
  by auto

lemma agrees_at_scan:
  assumes "agrees_at timeout t b i" and "t \<le> c" and "c \<le> u"
  shows "agrees_at timeout u b
           (case i of None \<Rightarrow> None
            | Some info \<Rightarrow> if timeout = 0 \<or> c < lastUpdateTime info + timeout then Some info else None)"
  using assms by (cases i; cases b) auto

lemma step_Beat:
  "reg_event_step reg (Beat u a) = (if a = [] then reg else registerServer u a reg)"
  by (simp add: reg_event_step_def event_clock_def event_request_def reg_ServeHTTP_def Let_def go_simps)

lemma step_Listing: "reg_event_step reg (Listing clk u) = snd (getAliveServerList clk reg)"
  by (simp add: reg_event_step_def event_clock_def event_request_def reg_ServeHTTP_def Let_def split_def)

lemma agrees_Beat:
  assumes a: "agrees t lb reg" and "t \<le> u"
  shows "agrees u (if a = [] then lb else lb(a \<mapsto> u)) (reg_event_step reg (Beat u a))"
proof -
  have "agrees_at (Timeout reg) u (lb b) (map_of (reg_map reg) b)" for b
    using a \<open>t \<le> u\<close> by (auto simp: agrees_def intro: agrees_at_mono)
  then show ?thesis
    using a unfolding agrees_def step_Beat
    by (simp add: dict_ok_registerServer registerServer_lookup split: option.split)
qed

lemma agrees_Listing:
  assumes a: "agrees t lb reg" and clk: "\<And>a. t \<le> clk a \<and> clk a \<le> u"
  shows "agrees u lb (reg_event_step reg (Listing clk u))"
proof -
  have d: "dict_ok (reg_map reg)" using a by (simp add: agrees_def)
  have "agrees_at (Timeout reg) u (lb b)
          (case map_of (reg_map reg) b of None \<Rightarrow> None
           | Some info \<Rightarrow> if is_alive (Timeout reg) clk (b, info) then Some info else None)" for b
    using agrees_at_scan[of "Timeout reg" t "lb b" "map_of (reg_map reg) b" "clk b" u] a clk
    by (simp add: agrees_def is_alive_def time_defs cong: option.case_cong)
  then show ?thesis
    unfolding agrees_def step_Listing getAlive_eq
    by (simp add: map_of_filter_distinct[OF d] dict_ok_filter[OF d])
qed

lemma agrees_run:
  "agrees t lb reg \<Longrightarrow> in_order t es \<Longrightarrow>
   agrees (end_time t es) (last_beat lb es) (foldl reg_event_step reg es)"
proof (induction es arbitrary: t lb reg)
  case (Cons e es)
  then show ?case
    by (cases e) (use agrees_Beat agrees_Listing in auto)
qed simp

lemma run_Timeout: "Timeout (foldl reg_event_step reg es) = Timeout reg"
proof (induction es arbitrary: reg)
  case (Cons e es)
  have "Timeout (reg_event_step reg e) = Timeout reg"
    by (cases e) (simp_all add: step_Beat step_Listing getAlive_eq)
  with Cons show ?case by simp
qed simp

text \<open>What a listing returns in a state that agrees with the history.\<close>

definition alive_in :: "duration \<Rightarrow> (string \<rightharpoonup> time) \<Rightarrow> (string \<Rightarrow> time) \<Rightarrow> string set" where
  "alive_in timeout lb clk = {a. \<exists>u. lb a = Some u \<and> (timeout = 0 \<or> clk a < u + timeout)}"

lemma sorted_keys_eq:
  "dict_ok m \<Longrightarrow> set (map fst m) = S \<Longrightarrow> sort (map fst m) = sorted_list_of_set S"
  using sorted_list_of_set_sort_remdups[of "map fst m"] by (simp add: distinct_remdups_id)

lemma listing_agrees:
  assumes a: "agrees t lb reg" and clk: "\<And>a. t \<le> clk a"
  shows "fst (getAliveServerList clk reg) = sorted_list_of_set (alive_in (Timeout reg) lb clk)"
proof -
  let ?m = "filter (is_alive (Timeout reg) clk) (reg_map reg)"
  have d: "dict_ok (reg_map reg)" using a by (simp add: agrees_def)
  have alive_at: "(case map_of (reg_map reg) b of None \<Rightarrow> False
                  | Some info \<Rightarrow> Timeout reg = 0 \<or> clk b < lastUpdateTime info + Timeout reg) \<longleftrightarrow>
                (\<exists>u. lb b = Some u \<and> (Timeout reg = 0 \<or> clk b < u + Timeout reg))" for b
  proof -
    have "agrees_at (Timeout reg) t (lb b) (map_of (reg_map reg) b)"
      using a by (simp add: agrees_def)
    then show ?thesis
      using clk[of b] by (cases "map_of (reg_map reg) b"; cases "lb b") auto
  qed
  have "set (map fst ?m) = alive_in (Timeout reg) lb clk" (is "?l = ?r")
  proof (rule set_eqI)
    fix b
    have "b \<in> ?l \<longleftrightarrow> map_of ?m b \<noteq> None" by (simp add: map_of_eq_None_iff)
    also have "\<dots> \<longleftrightarrow> b \<in> ?r"
      using alive_at[of b] unfolding alive_in_def map_of_filter_distinct[OF d]
      by (auto simp: is_alive_def time_defs split: option.split)
    finally show "b \<in> ?l \<longleftrightarrow> b \<in> ?r" .
  qed
  then show ?thesis
    by (simp only: getAlive_eq fst_conv sorted_keys_eq[OF dict_ok_filter[OF d]])
qed

subsection \<open>Properties\<close>

lemma CreateRegistry_fields:
  "CreateRegistry lis timeout = Ret (Inr reg) \<Longrightarrow> reg_map reg = [] \<and> Timeout reg = timeout"
  by (auto simp: CreateRegistry_def go_simps split: option.splits)

text \<open>
  C15. A GET answers with exactly the servers that are alive: after any history of heartbeats and
  listings in the order of the clock, the header lists, sorted, the servers whose last heartbeat
  is less than the timeout old (all that ever posted when the timeout is 0).
\<close>

theorem registry_lists_alive:
  assumes "CreateRegistry lis timeout = Ret (Inr reg)" and "in_order 0 es"
    and "\<And>a. end_time 0 es \<le> clk a"
  shows "fst (reg_ServeHTTP clk \<lparr>req_Method = ''GET'', req_Header = []\<rparr> (foldl reg_event_step reg es)) =
    \<lparr>resp_Status = StatusOK, resp_Header = header_Set ''GET-SpartanRPC-AliveServers''
       (strings_Join CHR '','' (sorted_list_of_set (alive_in timeout (last_beat (\<lambda>_. None) es) clk))) []\<rparr>"
proof -
  have "agrees 0 (\<lambda>_. None) reg" using CreateRegistry_fields[OF assms(1)] by (simp add: agrees_def)
  then have "agrees (end_time 0 es) (last_beat (\<lambda>_. None) es) (foldl reg_event_step reg es)"
    using assms(2) by (rule agrees_run)
  from listing_agrees[OF this assms(3)] show ?thesis
    using CreateRegistry_fields[OF assms(1)] run_Timeout[of reg es]
    by (simp add: reg_ServeHTTP_def split_def Let_def)
qed

definition sample_listener :: listener where
  "sample_listener = \<lparr>addr_Network = ''tcp'', addr_String = ''[::]:8001''\<rparr>"

definition sample_registry :: Registry where
  "sample_registry = \<lparr>reg_Listener = sample_listener, RegistryAddress = ''http@[::]:8001'',
     RegistryURL = ''http://localhost:8001'' @ DefaultRegistryPath, Timeout = 100, RpcServerAddressToServerInfoMap = []\<rparr>"

lemma sample_registry_created: "CreateRegistry (Some sample_listener) 100 = Ret (Inr sample_registry)"
  by (simp add: CreateRegistry_def sample_listener_def sample_registry_def slice_to_def slice_from_def)

theorem registry_lists_alive_witness:
  "fst (reg_ServeHTTP (\<lambda>_. 120) \<lparr>req_Method = ''GET'', req_Header = []\<rparr>
     (foldl reg_event_step sample_registry [Beat 5 ''tcp@b'', Beat 30 ''tcp@a'', Listing (\<lambda>_. 40) 40])) =
   \<lparr>resp_Status = StatusOK, resp_Header = header_Set ''GET-SpartanRPC-AliveServers'' ''tcp@a'' []\<rparr>"
proof -
  have "alive_in 100 (last_beat (\<lambda>_. None) [Beat 5 ''tcp@b'', Beat 30 ''tcp@a'', Listing (\<lambda>_. 40) 40]) (\<lambda>_. 120) = {''tcp@a''}"
    by (auto simp: alive_in_def split: if_splits)
  then show ?thesis
    using registry_lists_alive[OF sample_registry_created,
        of "[Beat 5 ''tcp@b'', Beat 30 ''tcp@a'', Listing (\<lambda>_. 40) 40]" "\<lambda>_. 120"]
    by simp
qed

text \<open>
  The registry's map is a dictionary without duplicates whose entries carry their own, non-empty
  address: a POST that names no server is refused, and no request of any kind can break this.
\<close>

theorem registry_map_invariant:
  assumes "CreateRegistry lis timeout = Ret (Inr reg)"
  shows "reg_inv (foldl (\<lambda>r (clk, req). snd (reg_ServeHTTP clk req r)) reg reqs)"
proof -
  have "reg_inv reg" using CreateRegistry_fields[OF assms] by (simp add: reg_inv_def)
  then show ?thesis
    by (induction reqs arbitrary: reg) (auto intro: reg_inv_ServeHTTP)
qed

theorem registry_map_invariant_witness:
  "reg_inv (foldl (\<lambda>r (clk, req). snd (reg_ServeHTTP clk req r)) sample_registry
     [(\<lambda>_. 1, \<lparr>req_Method = ''POST'', req_Header = []\<rparr>),
      (\<lambda>_. 2, \<lparr>req_Method = ''POST'', req_Header = header_Set ''POST-SpartanRPC-AliveServer'' ''tcp@a'' []\<rparr>)])"
  by (rule registry_map_invariant[OF sample_registry_created])

end
