(* ===== verification/Server.thy ===== *)
theory Server
  imports Coder Service Info_Page Registry "HOL-Library.Multiset"
begin

text \<open>
  Package server, the sequential part: construction, registration of services, the search for the
  method of a request, the reading of a request, the loop that reads a connection, the checks on a
  new connection, the HTTP endpoint and the heartbeat. The goroutines of a request and of a
  connection are in \<open>Request_Handle\<close> and \<open>Serve_Coder\<close>.
\<close>

subsection \<open>State and constructors\<close>

definition MagicNumber :: int where "MagicNumber = 0x3bef5c"

record Server =
  Listener :: listener
  ServerAddress :: string
  ServiceMap :: "(string, Service) dict"

record ConnectionInfo =
  IDNumber :: int
  CoderType :: string
  ConnectionTimeout :: duration
  ProcessingTimeout :: duration

definition DefaultConnectionInfo :: ConnectionInfo where
  "DefaultConnectionInfo = \<lparr>IDNumber = MagicNumber, CoderType = Json,
     ConnectionTimeout = time_Second * 10, ProcessingTimeout = 0\<rparr>"

definition CreateServer :: "listener option \<Rightarrow> go_error + Server" where
  "CreateServer lis =
     (case lis of None \<Rightarrow> Inl NilListener
      | Some l \<Rightarrow> Inr \<lparr>Listener = l, ServerAddress = addr_Network l @ ''@'' @ addr_String l, ServiceMap = []\<rparr>)"

definition CreateServerHTTP :: "listener option \<Rightarrow> go_error + Server" where
  "CreateServerHTTP lis =
     (case lis of None \<Rightarrow> Inl NilListener
      | Some l \<Rightarrow> Inr \<lparr>Listener = l, ServerAddress = ''http'' @ ''@'' @ addr_String l, ServiceMap = []\<rparr>)"

text \<open>\<^verbatim>\<open>sync.Map.LoadOrStore\<close> stores only under a new key.\<close>

definition ServiceRegister :: "Server \<Rightarrow> service_value \<Rightarrow> go_error option go \<times> Server" where
  "ServiceRegister srv sv =
     (case CreateService sv of
        Panic p \<Rightarrow> (Panic p, srv)
      | Ret s \<Rightarrow>
          (case map_of (ServiceMap srv) (ServiceName s) of
             Some _ \<Rightarrow> (Ret (Some (ServiceDefined (ServiceName s))), srv)
           | None \<Rightarrow> (Ret None, srv\<lparr>ServiceMap := AList.update (ServiceName s) s (ServiceMap srv)\<rparr>)))"

subsection \<open>Searching the method of a request\<close>

text \<open>
  A pointer to a registered service, or to one of its methods, is represented by the name under
  which it is stored (entries are never replaced); nil is \<open>None\<close>. The results are in the order of
  the source: service, method, error. When the method is missing, the source builds the error and
  returns nil in its place.
\<close>

definition search_service :: "Server \<Rightarrow> string \<Rightarrow> string option \<times> string option \<times> go_error option" where
  "search_service srv serviceDotMethod =
     (let splitIndex = strings_LastIndex serviceDotMethod CHR ''.''
      in if splitIndex < 0 then (None, None, Some (InvalidServiceMethod serviceDotMethod))
         else
           (let serviceName = take (nat splitIndex) serviceDotMethod;
                methodName = drop (nat splitIndex + 1) serviceDotMethod
            in case map_of (ServiceMap srv) serviceName of
                 None \<Rightarrow> (None, None, Some (ServiceMissing serviceName))
               | Some s \<Rightarrow>
                   (Some serviceName, map_option (\<lambda>_. methodName) (map_of (ServiceMethod s) methodName), None)))"

definition find_method :: "Server \<Rightarrow> string option \<Rightarrow> string option \<Rightarrow> Method option" where
  "find_method srv sname mname =
     (case (sname, mname) of
        (Some s, Some m) \<Rightarrow> Option.bind (map_of (ServiceMap srv) s) (\<lambda>svc. map_of (ServiceMethod svc) m)
      | _ \<Rightarrow> None)"

subsection \<open>Reading a request\<close>

record Request =
  req_header :: MessageHeader
  req_service :: "string option"
  req_method :: "string option"
  req_input :: "reflect_value option"
  req_output :: "reflect_value option"

definition read_header :: "JsonCoder \<Rightarrow> (MessageHeader option \<times> go_error option) \<times> JsonCoder" where
  "read_header jc =
     (case jc_DecodeMessageHeader jc empty_header of
        ((Some e, h), jc') \<Rightarrow> ((None, Some (LibError e)), jc')
      | ((None, h), jc') \<Rightarrow> ((Some h, None), jc'))"

text \<open>The decoder gets the input itself when that is a pointer, and its address otherwise.\<close>

definition decode_target :: "reflect_value \<Rightarrow> reflect_value" where
  "decode_target rv =
     (if type_Kind (rv_Type rv) \<noteq> KPtr then \<lparr>rv_Type = TPtr (rv_Type rv), rv_Val = VPtr (rv_Val rv)\<rparr> else rv)"

definition decoded_input :: "reflect_value \<Rightarrow> reflect_value option \<Rightarrow> reflect_value" where
  "decoded_input rv target =
     (case target of None \<Rightarrow> rv
      | Some t \<Rightarrow>
          (if type_Kind (rv_Type rv) \<noteq> KPtr
           then (case rv_Val t of VPtr v \<Rightarrow> rv\<lparr>rv_Val := v\<rparr> | _ \<Rightarrow> rv) else t))"

definition read_request ::
  "Server \<Rightarrow> JsonCoder \<Rightarrow> (Request option \<times> go_error option) go \<times> JsonCoder" where
  "read_request srv jc =
     (case read_header jc of
        ((None, err), jc1) \<Rightarrow> (Ret (None, err), jc1)
      | ((Some header, _), jc1) \<Rightarrow>
          (let (service, method, err) = search_service srv (ServiceDotMethod header);
               request = \<lparr>req_header = header, req_service = service, req_method = method,
                          req_input = None, req_output = None\<rparr>
           in if err \<noteq> None then (Ret (Some request, err), jc1)
              else case find_method srv service method of
                None \<Rightarrow> (Panic NilDereference, jc1)
              | Some m \<Rightarrow>
                  (case CreateInput m of
                     Panic p \<Rightarrow> (Panic p, jc1)
                   | Ret input \<Rightarrow>
                       (case CreateOutput m of
                          Panic p \<Rightarrow> (Panic p, jc1)
                        | Ret output \<Rightarrow>
                            (let ((e, target), jc2) = jc_DecodeMessageBody jc1 (Some (decode_target input));
                                 request2 = request\<lparr>req_input := Some (decoded_input input target),
                                                    req_output := Some output\<rparr>
                             in (Ret (Some request2, map_option LibError e), jc2))))))"

subsection \<open>Responses\<close>

definition invalidRequest :: go_value where "invalidRequest = VStruct []"

text \<open>
  \<^verbatim>\<open>err.Error()\<close> for the errors that reach a response. (The details that package json and the
  timeout message interpolate after the quoted text are left out.)
\<close>

fun lib_error_text :: "lib_error \<Rightarrow> string" where
  "lib_error_text EOF = ''EOF''"
| "lib_error_text UnexpectedEOF = ''unexpected EOF''"
| "lib_error_text JsonType = ''json: cannot unmarshal''"
| "lib_error_text JsonInvalidTarget = ''json: Unmarshal(nil)''"
| "lib_error_text JsonSyntax = ''invalid character''"
| "lib_error_text JsonUnsupported = ''json: unsupported type''"
| "lib_error_text ConnClosed = ''use of closed network connection''"
| "lib_error_text DialFailed = ''dial''"
| "lib_error_text HttpMalformed = ''malformed HTTP response''"
| "lib_error_text DeadlineExceeded = ''context deadline exceeded''"
| "lib_error_text Canceled = ''context canceled''"

fun server_error_text :: "go_error \<Rightarrow> string" where
  "server_error_text (LibError e) = lib_error_text e"
| "server_error_text (UserError s) = s"
| "server_error_text (InvalidServiceMethod s) =
     ''RPC server -> search_service error:  serviceDotMethod '' @ s @ '' is invalid.''"
| "server_error_text (ServiceMissing s) =
     ''RPC server -> search_service error: serviceName '' @ s @ '' does not exist''"
| "server_error_text (MethodMissing s) =
     ''RPC server -> search_service error: methodName '' @ s @ '' does not exist''"
| "server_error_text (ServiceDefined s) =
     ''RPC server > ServiceRegister error: Service has already been defined: '' @ s"
| "server_error_text (HandleTimeout s) =
     ''RPC server -> request_handle error: RPC server '' @ s @ '' expect to handle RPC call''"
| "server_error_text _ = ''error''"

definition send_response :: "JsonCoder \<Rightarrow> MessageHeader \<Rightarrow> go_value \<Rightarrow> JsonCoder" where
  "send_response jc header body = snd (jc_EncodeMessageHeaderAndBody jc header body)"

subsection \<open>The loop over a connection\<close>

text \<open>One turn: stop on a header that cannot be read, answer a bad request, hand over a good one.\<close>

datatype turn =
    Stopped go_error
  | Crashed go_panic
  | Rejected MessageHeader
  | Accepted Request

definition serve_turn :: "Server \<Rightarrow> JsonCoder \<Rightarrow> turn \<times> JsonCoder" where
  "serve_turn srv jc =
     (case read_request srv jc of
        (Panic p, jc1) \<Rightarrow> (Crashed p, jc1)
      | (Ret (None, Some err), jc1) \<Rightarrow> (Stopped err, jc1)
      | (Ret (None, None), jc1) \<Rightarrow> (Crashed NilDereference, jc1)
      | (Ret (Some request, Some err), jc1) \<Rightarrow>
          (let header = (req_header request)\<lparr>Error := server_error_text err\<rparr>
           in (Rejected header, send_response jc1 header invalidRequest))
      | (Ret (Some request, None), jc1) \<Rightarrow> (Accepted request, jc1))"

fun goes_on :: "turn \<Rightarrow> bool" where
  "goes_on (Rejected h) = True"
| "goes_on (Accepted r) = True"
| "goes_on _ = False"

lemma read_request_shrinks:
  "read_request srv jc = (r, jc') \<Longrightarrow>
   length (incoming jc') \<le> length (incoming jc) \<and>
   (\<forall>q e. r = Ret (Some q, e) \<longrightarrow> length (incoming jc') < length (incoming jc))"
proof -
  assume r: "read_request srv jc = (r, jc')"
  obtain e h jc1 where h: "jc_DecodeMessageHeader jc empty_header = ((e, h), jc1)"
    by (cases "jc_DecodeMessageHeader jc empty_header") auto
  have b: "jc_DecodeMessageBody jc1 t = ((e', t'), jc2) \<Longrightarrow> length (incoming jc2) \<le> length (incoming jc1)"
    for t e' t' jc2 by (rule body_shrinks)
  show ?thesis
    using r h header_shrinks[OF h]
    by (auto simp: read_request_def read_header_def Let_def
             split: option.splits prod.splits go.splits if_splits dest!: b)
qed

lemma serve_turn_shrinks:
  "serve_turn srv jc = (t, jc') \<Longrightarrow> goes_on t \<Longrightarrow> length (incoming jc') < length (incoming jc)"
  using read_request_shrinks[of srv jc]
  by (auto simp: serve_turn_def Let_def send_response_def encode_incoming
           split: prod.splits go.splits option.splits)

text \<open>The turns of the loop when nothing else uses the connection.\<close>

function serve_turns :: "Server \<Rightarrow> JsonCoder \<Rightarrow> turn list \<times> JsonCoder" where
  "serve_turns srv jc =
     (case serve_turn srv jc of (t, jc1) \<Rightarrow>
        if goes_on t then (let (ts, jc2) = serve_turns srv jc1 in (t # ts, jc2)) else ([t], jc1))"
  by pat_completeness auto
termination
  by (relation "measure (\<lambda>(srv, jc). length (incoming jc))") (auto dest: serve_turn_shrinks[OF sym])

declare serve_turns.simps [simp del]

lemma serve_turns_end:
  "\<exists>t ts jc'. serve_turns srv jc = (ts @ [t], jc') \<and> \<not> goes_on t \<and> (\<forall>u \<in> set ts. goes_on u) \<and>
     length ts \<le> length (incoming jc)"
proof (induction srv jc rule: serve_turns.induct)
  case (1 srv jc)
  obtain t jc1 where t: "serve_turn srv jc = (t, jc1)" by (cases "serve_turn srv jc")
  show ?case
  proof (cases "goes_on t")
    case True
    with 1[OF t[symmetric]] obtain u us jc2 where u: "serve_turns srv jc1 = (us @ [u], jc2)"
      "\<not> goes_on u" "\<forall>v \<in> set us. goes_on v" "length us \<le> length (incoming jc1)"
      by (auto simp: t)
    moreover have "length (incoming jc1) < length (incoming jc)"
      using t True by (rule serve_turn_shrinks)
    ultimately have "serve_turns srv jc = ((t # us) @ [u], jc2) \<and> \<not> goes_on u \<and>
        (\<forall>v \<in> set (t # us). goes_on v) \<and> length (t # us) \<le> length (incoming jc)"
      using True t by (simp add: serve_turns.simps[of srv jc])
    then show ?thesis by blast
  next
    case False
    then have "serve_turns srv jc = ([] @ [t], jc1)" using t by (simp add: serve_turns.simps[of srv jc])
    with False show ?thesis by fastforce
  qed
qed

subsection \<open>A new connection\<close>

definition info_type :: go_type where
  "info_type = TNamed ''Distributed-RPC-Framework/server'' ''ConnectionInfo''
     (TStruct [(''IDNumber'', TInt),
               (''CoderType'', TNamed ''Distributed-RPC-Framework/coder'' ''CoderType'' TString),
               (''ConnectionTimeout'', TNamed ''time'' ''Duration'' TInt),
               (''ProcessingTimeout'', TNamed ''time'' ''Duration'' TInt)])"

definition info_value :: "ConnectionInfo \<Rightarrow> go_value" where
  "info_value i = VStruct [(''IDNumber'', VInt (IDNumber i)), (''CoderType'', VStr (CoderType i)),
     (''ConnectionTimeout'', VInt (ConnectionTimeout i)), (''ProcessingTimeout'', VInt (ProcessingTimeout i))]"

definition empty_info :: ConnectionInfo where
  "empty_info = \<lparr>IDNumber = 0, CoderType = [], ConnectionTimeout = 0, ProcessingTimeout = 0\<rparr>"

fun value_info :: "go_value \<Rightarrow> ConnectionInfo" where
  "value_info (VStruct [(_, VInt n), (_, VStr t), (_, VInt c), (_, VInt p)]) =
     \<lparr>IDNumber = n, CoderType = t, ConnectionTimeout = c, ProcessingTimeout = p\<rparr>"
| "value_info _ = empty_info"

definition info_json :: "ConnectionInfo \<Rightarrow> json" where
  "info_json i = JObj [(''IDNumber'', JNum (IDNumber i)), (''CoderType'', JStr (utf8_repair (CoderType i))),
     (''ConnectionTimeout'', JNum (ConnectionTimeout i)), (''ProcessingTimeout'', JNum (ProcessingTimeout i))]"

definition info_ok :: "ConnectionInfo \<Rightarrow> bool" where
  "info_ok i \<longleftrightarrow> int_ok (IDNumber i) \<and> int_ok (ConnectionTimeout i) \<and> int_ok (ProcessingTimeout i)"

lemma value_info_value [simp]: "value_info (info_value i) = i"
  by (simp add: info_value_def)

lemma marshal_info [simp]: "marshal (info_value i) = Some (info_json i)"
  by (simp add: info_value_def info_json_def ast_IsExported_def is_upper_def)

lemma unmarshal_info:
  assumes "info_ok i"
  shows "unmarshal info_type (info_json i) (info_value empty_info) =
    (info_value (i\<lparr>CoderType := utf8_repair (CoderType i)\<rparr>), False)"
proof -
  let ?i = "i\<lparr>CoderType := utf8_repair (CoderType i)\<rparr>"
  have "unmarshal info_type (info_json i) (zero_value info_type) = (info_value ?i, False)"
  proof (rule unmarshal_marshal)
    show "typed info_type (info_value ?i)" using assms by (simp add: info_type_def info_value_def info_ok_def)
    show "type_ok info_type" by (simp add: info_type_def)
    show "sendable (info_value ?i)" by (simp add: info_value_def ast_IsExported_def is_upper_def)
    show "marshal (info_value ?i) = Some (info_json i)" by (simp add: info_json_def)
  qed
  then show ?thesis by (simp add: info_type_def info_value_def empty_info_def)
qed

lemma repaired_Json [simp]: "utf8_repair t = Json \<longleftrightarrow> t = Json"
proof -
  have a: "list_all (\<lambda>c. of_char c < (0x80 :: nat)) Json" by (simp add: Json_def)
  have "utf8_valid Json" by (simp add: Json_def)
  then show ?thesis using a utf8_repair_is_ascii[of t] by auto
qed

text \<open>
  The information is read by a decoder of its own; the coder that serves the connection starts
  with a new decoder. A refused connection is closed by the deferred call.
\<close>

datatype serve_result = Refused connection | Serving JsonCoder ConnectionInfo

definition ServeConnection :: "connection \<Rightarrow> serve_result" where
  "ServeConnection c =
     (case dec_Decode [] c info_type (info_value empty_info) of
        ((Some e, v), buf, c1) \<Rightarrow> Refused (snd (conn_Close c1))
      | ((None, v), buf, c1) \<Rightarrow>
          (let info = value_info v
           in if IDNumber info \<noteq> MagicNumber then Refused (snd (conn_Close c1))
              else case map_of CoderInitializerMap (CoderType info) of
                None \<Rightarrow> Refused (snd (conn_Close c1))
              | Some coderInitializer \<Rightarrow> Serving (coderInitializer c1) info))"

text \<open>The accept loop hands connections over until \<^verbatim>\<open>Accept\<close> fails.\<close>

fun LaunchAndAccept :: "(lib_error + connection) list \<Rightarrow> serve_result list" where
  "LaunchAndAccept [] = []"
| "LaunchAndAccept (Inl err # as) = []"
| "LaunchAndAccept (Inr c # as) = ServeConnection c # LaunchAndAccept as"

text \<open>
  What the coder of a served connection can still read: the values that arrived in the same chunk
  as the information stay with the decoder that read it.
\<close>

lemma ServeConnection_chunk:
  assumes "conn_open c" and "conn_recv c = (info_json i # early) # later" and "info_ok i"
    and "IDNumber i = MagicNumber" and "CoderType i = Json"
  shows "\<exists>jc. ServeConnection c = Serving jc i \<and> incoming jc = concat later \<and> healthy jc \<and>
           sent jc = conn_sent c"
  using assms
  by (simp add: ServeConnection_def dec_Decode_def dec_read_def unmarshal_info CoderInitializerMap_lookup
      NewJsonCoder_def incoming_def healthy_def sent_def)

lemma ServeConnection_refuses:
  assumes "conn_open c" and "conn_recv c = (info_json i # early) # later" and "info_ok i"
    and "IDNumber i \<noteq> MagicNumber \<or> CoderType i \<noteq> Json"
  shows "\<exists>c'. ServeConnection c = Refused c' \<and> \<not> conn_open c' \<and> conn_sent c' = conn_sent c"
  using assms
  by (auto simp: ServeConnection_def dec_Decode_def dec_read_def unmarshal_info CoderInitializerMap_lookup
      conn_Close_def Let_def)

subsection \<open>HTTP\<close>

definition ConnectedToServerMessage :: string where
  "ConnectedToServerMessage = ''200 Connected to Spartan RPC''"
definition DefaultServerPath :: string where "DefaultServerPath = ''/_srpc_/server/connect''"
definition DefaultServerInfoPath :: string where "DefaultServerInfoPath = ''/_srpc_/server/info''"

text \<open>The answer to a request, with the text that is written to a hijacked connection.\<close>

datatype http_result =
    HttpAnswer http_response
  | HijackFailed lib_error
  | Hijacked string serve_result
  | InfoPage string

definition server_ServeHTTP :: "http_request \<Rightarrow> lib_error + connection \<Rightarrow> http_result" where
  "server_ServeHTTP request hijack =
     (if req_Method request \<noteq> ''CONNECT'' then
        HttpAnswer \<lparr>resp_Status = StatusMethodNotAllowed,
                    resp_Header = header_Set ''Content-Type'' ''text/plain; charset=utf-8'' []\<rparr>
      else case hijack of
        Inl err \<Rightarrow> HijackFailed err
      | Inr c \<Rightarrow>
          Hijacked (''HTTP/1.0 '' @ ConnectedToServerMessage @ [CHR 0x0A, CHR 0x0A]) (ServeConnection c))"

text \<open>
  The information page lists the services in the order in which \<^verbatim>\<open>sync.Map.Range\<close> visits them. That
  order is not specified: \<open>order\<close> is any function that lists the entries of the map, each once.
\<close>

type_synonym visiting_order = "(string, Service) dict \<Rightarrow> (string \<times> Service) list"

definition visits :: "visiting_order \<Rightarrow> bool" where
  "visits order \<longleftrightarrow> (\<forall>m. mset (order m) = mset m)"

definition info_ServeHTTP :: "visiting_order \<Rightarrow> Server \<Rightarrow> http_result" where
  "info_ServeHTTP order srv = InfoPage (serverInfo (map (\<lambda>(name, s). (name, ServiceMethod s)) (order (ServiceMap srv))))"

lemma visits_id [simp]: "visits (\<lambda>m. m)" and visits_rev [simp]: "visits rev"
  by (simp_all add: visits_def)

lemma visits_set: "visits order \<Longrightarrow> set (order m) = set m"
  unfolding visits_def by (metis set_mset_mset)

text \<open>The two URLs, and the multiplexer over their paths.\<close>

definition server_urls :: "Server \<Rightarrow> (string \<times> string) go" where
  "server_urls srv =
     (let a = addr_String (Listener srv)
      in go_bind (slice_to a 4) (\<lambda>prefix.
         if prefix = ''[::]''
         then go_bind (slice_from a 4) (\<lambda>port.
                Ret (''http://localhost'' @ port @ DefaultServerPath,
                     ''http://localhost'' @ port @ DefaultServerInfoPath))
         else Ret (''http://'' @ a @ DefaultServerPath, ''http://'' @ a @ DefaultServerInfoPath)))"

definition server_LaunchAndServe ::
  "visiting_order \<Rightarrow> Server \<Rightarrow> (string \<Rightarrow> http_request \<Rightarrow> lib_error + connection \<Rightarrow> http_result) go" where
  "server_LaunchAndServe order srv =
     go_bind (server_urls srv) (\<lambda>urls. Ret (\<lambda>path request hijack.
       if path = DefaultServerPath then server_ServeHTTP request hijack
       else if path = DefaultServerInfoPath then info_ServeHTTP order srv
       else HttpAnswer \<lparr>resp_Status = StatusNotFound, resp_Header = []\<rparr>))"

subsection \<open>Heartbeat\<close>

text \<open>
  \<open>post\<close> is what \<^verbatim>\<open>http.Client.Do\<close> does with the request at the registry: an error or a
  response. The status of the response is not looked at.
\<close>

definition heartbeat_request :: "Server \<Rightarrow> http_request" where
  "heartbeat_request srv =
     \<lparr>req_Method = ''POST'', req_Header = header_Set ''POST-SpartanRPC-AliveServer'' (ServerAddress srv) []\<rparr>"

definition sendHeartbeat :: "Server \<Rightarrow> (http_request \<Rightarrow> go_error + http_response) \<Rightarrow> go_error option" where
  "sendHeartbeat srv post =
     (case post (heartbeat_request srv) of Inl err \<Rightarrow> Some err | Inr _ \<Rightarrow> None)"

definition heart_rate :: "duration \<Rightarrow> duration" where
  "heart_rate heartRate = (if heartRate = 0 then DefaultTimeout - 1 * time_Minute else heartRate)"

text \<open>
  One heartbeat at once, then one at every tick for as long as there is no error; \<open>post k\<close> is the
  outcome of the \<open>k\<close>-th. The result lists the instants of the heartbeats up to the \<open>n\<close>-th tick
  when the ticker starts at \<open>start\<close>. \<^verbatim>\<open>time.NewTicker\<close> panics on a rate that is not positive.
\<close>

fun heartbeat_loop ::
  "Server \<Rightarrow> (nat \<Rightarrow> http_request \<Rightarrow> go_error + http_response) \<Rightarrow> time \<Rightarrow> duration \<Rightarrow> nat \<Rightarrow> nat \<Rightarrow>
     go_error option \<Rightarrow> time list" where
  "heartbeat_loop srv post start rate k 0 err = []"
| "heartbeat_loop srv post start rate k (Suc n) err =
     (if err \<noteq> None then []
      else (start + int k * rate) # heartbeat_loop srv post start rate (Suc k) n (sendHeartbeat srv (post k)))"

definition Heartbeat ::
  "Server \<Rightarrow> (nat \<Rightarrow> http_request \<Rightarrow> go_error + http_response) \<Rightarrow> time \<Rightarrow> duration \<Rightarrow> nat \<Rightarrow> time list go" where
  "Heartbeat srv post start heartRate ticks =
     (let rate = heart_rate heartRate; err = sendHeartbeat srv (post 0)
      in if rate \<le> 0 then Panic TickerPanic
         else Ret (start # heartbeat_loop srv post start rate 1 ticks err))"

lemma heartbeat_loop_ok:
  "err = None \<Longrightarrow> \<forall>i. sendHeartbeat srv (post i) = None \<Longrightarrow>
   heartbeat_loop srv post start rate k n err = map (\<lambda>i. start + int i * rate) [k..<k + n]"
  by (induction srv post start rate k n err rule: heartbeat_loop.induct) (simp_all add: upt_conv_Cons del: upt_Suc)

subsection \<open>The search, by case\<close>

lemma search_no_dot: "CHR ''.'' \<notin> set s \<Longrightarrow> search_service srv s = (None, None, Some (InvalidServiceMethod s))"
  using LastIndex_neg_iff[of s] by (simp add: search_service_def)

lemma search_dot:
  "CHR ''.'' \<notin> set m \<Longrightarrow>
   search_service srv (s @ CHR ''.'' # m) =
     (case map_of (ServiceMap srv) s of
        None \<Rightarrow> (None, None, Some (ServiceMissing s))
      | Some svc \<Rightarrow> (Some s, map_option (\<lambda>_. m) (map_of (ServiceMethod svc) m), None))"
  by (simp add: search_service_def LastIndex_append)

text \<open>The outcome of a search, whatever the name.\<close>

lemma search_cases:
  obtains (invalid) "CHR ''.'' \<notin> set n" "search_service srv n = (None, None, Some (InvalidServiceMethod n))"
  | (no_service) s m where "n = s @ CHR ''.'' # m" "CHR ''.'' \<notin> set m" "map_of (ServiceMap srv) s = None"
      "search_service srv n = (None, None, Some (ServiceMissing s))"
  | (no_method) s m svc where "n = s @ CHR ''.'' # m" "CHR ''.'' \<notin> set m"
      "map_of (ServiceMap srv) s = Some svc" "map_of (ServiceMethod svc) m = None"
      "search_service srv n = (Some s, None, None)"
  | (found) s m svc mth where "n = s @ CHR ''.'' # m" "CHR ''.'' \<notin> set m"
      "map_of (ServiceMap srv) s = Some svc" "map_of (ServiceMethod svc) m = Some mth"
      "search_service srv n = (Some s, Some m, None)"
proof (cases "CHR ''.'' \<in> set n")
  case True
  then obtain s m where n: "n = s @ CHR ''.'' # m" "CHR ''.'' \<notin> set m"
    by (meson split_list_last)
  then show ?thesis
    using search_dot[OF n(2), of srv s] no_service[OF n] no_method[OF n] found[OF n]
    by (auto split: option.splits)
qed (use invalid search_no_dot in blast)

subsection \<open>A request, by case\<close>

text \<open>The headers that arrive are the repaired ones.\<close>

lemma read_header_next:
  assumes "conn_open (connection jc)" and "incoming jc = header_json h # w"
  shows "\<exists>jc'. read_header jc = ((Some (received_header h), None), jc') \<and> incoming jc' = w \<and>
           sent jc' = sent jc \<and> healthy jc' = healthy jc \<and> conn_open (connection jc')"
  using decode_header_next[OF assms] by (auto simp: read_header_def)

text \<open>A request that is accepted: its input is what the body decodes to.\<close>

lemma serve_turn_accepts:
  assumes "conn_open (connection jc)" and "incoming jc = header_json h # j # w"
    and "header_ok h" and "search_service srv (ServiceDotMethod h) = (Some s, Some n, None)"
    and "find_method srv (Some s) (Some n) = Some m"
    and "CreateInput m = Ret input" and "CreateOutput m = Ret output"
    and "decode_target input = \<lparr>rv_Type = TPtr t, rv_Val = VPtr z\<rparr>" and "unmarshal t j z = (v, False)"
  shows "\<exists>jc'. serve_turn srv jc =
      (Accepted \<lparr>req_header = h, req_service = Some s, req_method = Some n,
         req_input = Some (decoded_input input (Some \<lparr>rv_Type = TPtr t, rv_Val = VPtr v\<rparr>)),
         req_output = Some output\<rparr>, jc') \<and>
      incoming jc' = w \<and> sent jc' = sent jc \<and> healthy jc' = healthy jc"
proof -
  obtain jc1 where jc1: "read_header jc = ((Some h, None), jc1)" "incoming jc1 = j # w"
    "sent jc1 = sent jc" "healthy jc1 = healthy jc" "conn_open (connection jc1)"
    using read_header_next[OF assms(1,2)] assms(3) by auto
  obtain jc2 where "jc_DecodeMessageBody jc1 (Some \<lparr>rv_Type = TPtr t, rv_Val = VPtr z\<rparr>) =
      ((None, Some \<lparr>rv_Type = TPtr t, rv_Val = VPtr v\<rparr>), jc2)" "incoming jc2 = w" "sent jc2 = sent jc1"
    "healthy jc2 = healthy jc1"
    using decode_body_next[OF jc1(5,2) assms(9)] by auto
  with jc1 assms(4-8) show ?thesis
    by (simp add: serve_turn_def read_request_def)
qed

text \<open>
  A request whose service cannot be found is answered, but its body is not read: it is the next
  value that the loop takes for a header.
\<close>

lemma serve_turn_rejects:
  assumes "conn_open (connection jc)" and "incoming jc = header_json h # j # w"
    and "search_service srv (utf8_repair (ServiceDotMethod h)) = (None, None, Some err)"
  shows "\<exists>jc1. serve_turn srv jc = (Rejected ((received_header h)\<lparr>Error := server_error_text err\<rparr>),
      send_response jc1 ((received_header h)\<lparr>Error := server_error_text err\<rparr>) invalidRequest) \<and>
    incoming jc1 = j # w \<and> sent jc1 = sent jc \<and> healthy jc1 = healthy jc \<and> conn_open (connection jc1)"
proof -
  obtain jc1 where "read_header jc = ((Some (received_header h), None), jc1)" "incoming jc1 = j # w"
    "sent jc1 = sent jc" "healthy jc1 = healthy jc" "conn_open (connection jc1)"
    using read_header_next[OF assms(1,2)] by blast
  with assms(3) show ?thesis by (auto simp: serve_turn_def read_request_def Let_def)
qed

text \<open>A value that is neither an object nor null cannot be a header: the loop stops there.\<close>

lemma header_of_other:
  assumes "\<forall>kvs. j \<noteq> JObj kvs" and "j \<noteq> JNull"
  shows "snd (unmarshal header_type j v)"
  using assms by (cases j) (simp_all add: header_type_def)

lemma serve_turn_stops:
  assumes "conn_open (connection jc)" and "incoming jc = j # w" and "\<forall>kvs. j \<noteq> JObj kvs" and "j \<noteq> JNull"
  shows "fst (serve_turn srv jc) = Stopped (LibError JsonType)"
proof -
  obtain v where "unmarshal header_type j (header_value empty_header) = (v, True)"
    using header_of_other[OF assms(3,4)] by (metis prod.collapse)
  then show ?thesis
    using dec_read_Cons[of "dbuf jc" "connection jc" j w] assms(1,2)
    by (auto simp: serve_turn_def read_request_def read_header_def jc_DecodeMessageHeader_def dec_Decode_def incoming_def)
qed

text \<open>A request for a method that its service does not have ends the process.\<close>

lemma serve_turn_crashes:
  assumes "conn_open (connection jc)" and "incoming jc = header_json h # w"
    and "search_service srv (utf8_repair (ServiceDotMethod h)) = (Some s, None, None)"
  shows "fst (serve_turn srv jc) = Crashed NilDereference"
proof -
  obtain jc1 where "read_header jc = ((Some (received_header h), None), jc1)"
    using read_header_next[OF assms(1,2)] by blast
  with assms(3) show ?thesis
    by (simp add: serve_turn_def read_request_def find_method_def)
qed

subsection \<open>The types of a request\<close>

lemma decode_body_typed:
  assumes "jc_DecodeMessageBody jc (Some \<lparr>rv_Type = TPtr t, rv_Val = VPtr v\<rparr>) = ((e, target), jc')"
    and "typed t v" and "type_ok t"
  shows "\<exists>w. target = Some \<lparr>rv_Type = TPtr t, rv_Val = VPtr w\<rparr> \<and> typed t w"
proof -
  have "typed t (fst (unmarshal t j v))" for j using assms(3,2) by (rule unmarshal_typed)
  then have "unmarshal t j v = (w, b) \<Longrightarrow> typed t w" for j w b by (metis fst_conv)
  then show ?thesis
    using assms by (auto simp: jc_DecodeMessageBody_def pointer_target_def dec_Decode_def Let_def
        split: prod.splits sum.splits)
qed

lemma decoded_input_typed:
  assumes m: "type_ok (InputType m)" and input: "CreateInput m = Ret input"
    and d: "jc_DecodeMessageBody jc (Some (decode_target input)) = ((e, target), jc')"
  shows "assignable (rv_Type (decoded_input input target)) (InputType m) \<and>
    typed (rv_Type (decoded_input input target)) (rv_Val (decoded_input input target))"
proof (cases "type_Kind (InputType m) = KPtr")
  case True
  then obtain u where u: "underlying (InputType m) = TPtr u" "type_Elem (InputType m) = Ret u"
    using underlying_ptr by blast
  then have "type_ok u" using m type_ok_elem by blast
  moreover have i: "input = reflect_New u" using input True u by (simp add: CreateInput_def)
  ultimately obtain w where "target = Some \<lparr>rv_Type = TPtr u, rv_Val = VPtr w\<rparr>" "typed u w"
    using decode_body_typed[of jc u "zero_value u" e target jc'] d zero_typed
    by (auto simp: decode_target_def reflect_New_def)
  then show ?thesis using i u by (simp add: decoded_input_def reflect_New_def assignable_ptr)
next
  case False
  then have i: "input = \<lparr>rv_Type = InputType m, rv_Val = zero_value (InputType m)\<rparr>"
    using input by (auto simp: CreateInput_def split: go_kind.splits)
  with False obtain w where "target = Some \<lparr>rv_Type = TPtr (InputType m), rv_Val = VPtr w\<rparr>" "typed (InputType m) w"
    using decode_body_typed[of jc "InputType m" "zero_value (InputType m)" e target jc'] d m zero_typed
    by (auto simp: decode_target_def)
  then show ?thesis using i False by (simp add: decoded_input_def)
qed

lemma accepted_parts:
  assumes "serve_turn srv jc = (Accepted r, jc')"
  obtains m input outp jc1 target where
    "find_method srv (req_service r) (req_method r) = Some m" "CreateInput m = Ret input" "CreateOutput m = Ret outp"
    "jc_DecodeMessageBody jc1 (Some (decode_target input)) = ((None, target), jc')"
    "req_input r = Some (decoded_input input target)" "req_output r = Some outp"
  using assms that
  by (auto simp: serve_turn_def read_request_def Let_def split: prod.splits go.splits option.splits if_splits)

subsection \<open>Properties\<close>

text \<open>
  The name of a request is split at its last dot: everything before it is the service, the rest
  is the method. An unknown service is an error; an unknown method of a known service is not: the
  error that is built for it is dropped, and nil method and nil error come back.
\<close>

theorem search_splits_at_last_dot:
  assumes "CHR ''.'' \<notin> set m"
  shows "search_service srv (s @ CHR ''.'' # m) =
     (case map_of (ServiceMap srv) s of
        None \<Rightarrow> (None, None, Some (ServiceMissing s))
      | Some svc \<Rightarrow> (Some s, map_option (\<lambda>_. m) (map_of (ServiceMethod svc) m), None))"
  by (rule search_dot[OF assms])

definition sample_server :: Server where
  "sample_server = \<lparr>Listener = \<lparr>addr_Network = ''tcp'', addr_String = ''127.0.0.1:9''\<rparr>,
     ServerAddress = ''tcp@127.0.0.1:9'', ServiceMap = [(''Arithmetic'', arithmetic_service)]\<rparr>"

lemma arithmetic_method:
  "map_of (ServiceMethod arithmetic_service) n =
     map_option new_Method (find (\<lambda>r. rm_Name r = n \<and> suitable r) arithmetic_methods)"
  using createMethod_lookup[of arithmetic_methods "[]" n]
  by (simp add: arithmetic_service_def arithmetic_methods_def split: option.split)

theorem search_splits_at_last_dot_witness:
  "search_service sample_server ''Arithmetic.Missing'' = (Some ''Arithmetic'', None, None) \<and>
   search_service sample_server ''A.B.C'' = (None, None, Some (ServiceMissing ''A.B''))"
  using search_splits_at_last_dot[of "''Missing''" sample_server "''Arithmetic''"]
    search_splits_at_last_dot[of "''C''" sample_server "''A.B''"]
  by (simp add: sample_server_def arithmetic_method) (simp add: arithmetic_methods_def)

text \<open>
  C22. A single request can end the process: one that names a registered service and a method that
  it does not have makes the loop dereference the nil method, whatever else the client sends. (The
  name is the one that is read: bytes that are not UTF-8 have been replaced.)
\<close>

theorem missing_method_crashes:
  assumes "conn_open (connection jc)" and "incoming jc = header_json h # w"
    and "utf8_repair (ServiceDotMethod h) = s @ CHR ''.'' # m" and "CHR ''.'' \<notin> set m"
    and "map_of (ServiceMap srv) s = Some svc" and "map_of (ServiceMethod svc) m = None"
  shows "fst (serve_turn srv jc) = Crashed NilDereference"
  using serve_turn_crashes[OF assms(1,2), of srv s] search_dot[OF assms(4), of srv s] assms(3,5,6) by simp

theorem missing_method_crashes_witness:
  "fst (serve_turn sample_server (NewJsonCoder (sample_connection
     [[header_json \<lparr>ServiceDotMethod = ''Arithmetic.Missing'', SequenceNumber = 1, Error = []\<rparr>]]))) =
   Crashed NilDereference"
proof -
  have "map_of (ServiceMethod arithmetic_service) ''Missing'' = None"
    by (simp add: arithmetic_method arithmetic_methods_def)
  then show ?thesis
    by (intro missing_method_crashes[where s = "''Arithmetic''" and m = "''Missing''" and svc = arithmetic_service and w = "[]"
        and h = "\<lparr>ServiceDotMethod = ''Arithmetic.Missing'', SequenceNumber = 1, Error = []\<rparr>"])
      (simp_all add: sample_server_def NewJsonCoder_def sample_connection_def incoming_def)
qed

text \<open>
  C23. A request for an unknown service is answered with its error: a response with the number of the
  request, the text that names the service, and an empty body is sent at once. But the body of the
  request stays in the stream, and the next turn takes it for a header; when it is neither an object nor
  null, the loop stops there, and every later request of the connection is lost.
\<close>

theorem rejected_body_is_next_header:
  assumes "conn_open (connection jc)" and "incoming jc = header_json h # j # w"
    and "utf8_repair (ServiceDotMethod h) = s @ CHR ''.'' # m" and "CHR ''.'' \<notin> set m" and "map_of (ServiceMap srv) s = None"
    and "r = \<lparr>ServiceDotMethod = s @ CHR ''.'' # m, SequenceNumber = SequenceNumber h,
      Error = ''RPC server -> search_service error: serviceName '' @ s @ '' does not exist''\<rparr>"
  shows "\<exists>jc1. serve_turn srv jc = (Rejected r, jc1) \<and> incoming jc1 = j # w \<and>
    (healthy jc \<longrightarrow> sent jc1 = sent jc @ [header_json r, JObj []] \<and> healthy jc1) \<and>
    ((\<forall>kvs. j \<noteq> JObj kvs) \<and> j \<noteq> JNull \<longrightarrow> fst (serve_turn srv jc1) = Stopped (LibError JsonType))"
proof -
  have "(received_header h)\<lparr>Error := server_error_text (ServiceMissing s)\<rparr> = r"
    using assms(3,6) by (simp add: received_header_def)
  moreover have "search_service srv (utf8_repair (ServiceDotMethod h)) = (None, None, Some (ServiceMissing s))"
    using search_dot[OF assms(4), of srv s] assms(3,5) by simp
  ultimately obtain jc1 where jc1: "serve_turn srv jc = (Rejected r, send_response jc1 r invalidRequest)"
    "incoming jc1 = j # w" "sent jc1 = sent jc" "healthy jc1 = healthy jc" "conn_open (connection jc1)"
    using serve_turn_rejects[OF assms(1,2)] by metis
  let ?jc = "send_response jc1 r invalidRequest"
  have "conn_open (connection ?jc)" "incoming ?jc = j # w"
    using jc1 by (simp_all add: send_response_def encode_keeps_open encode_incoming)
  then show ?thesis
    using jc1 encode_ok[of jc1 invalidRequest "JObj []" r] serve_turn_stops[of ?jc j w srv]
    by (auto simp: send_response_def invalidRequest_def)
qed

theorem rejected_body_is_next_header_witness:
  "\<exists>jc1. serve_turn sample_server (NewJsonCoder (sample_connection
       [[header_json \<lparr>ServiceDotMethod = ''X.Y'', SequenceNumber = 1, Error = []\<rparr>, JNum 3]])) =
     (Rejected \<lparr>ServiceDotMethod = ''X.Y'', SequenceNumber = 1,
        Error = ''RPC server -> search_service error: serviceName X does not exist''\<rparr>, jc1) \<and>
     sent jc1 = [header_json \<lparr>ServiceDotMethod = ''X.Y'', SequenceNumber = 1,
        Error = ''RPC server -> search_service error: serviceName X does not exist''\<rparr>, JObj []] \<and>
     fst (serve_turn sample_server jc1) = Stopped (LibError JsonType)"
proof -
  let ?h = "\<lparr>ServiceDotMethod = ''X.Y'', SequenceNumber = 1, Error = []\<rparr>"
  let ?jc = "NewJsonCoder (sample_connection [[header_json ?h, JNum 3]])"
  have "conn_open (connection ?jc)" "incoming ?jc = header_json ?h # JNum 3 # []" "healthy ?jc" "sent ?jc = []"
    by (simp_all add: NewJsonCoder_def sample_connection_def incoming_def healthy_def sent_def)
  moreover have "utf8_repair (ServiceDotMethod ?h) = ''X'' @ CHR ''.'' # ''Y''" "CHR ''.'' \<notin> set ''Y''"
    "map_of (ServiceMap sample_server) ''X'' = None"
    by (simp_all add: sample_server_def)
  ultimately show ?thesis
    using rejected_body_is_next_header[OF _ _ _ _ _ refl, of ?jc ?h "JNum 3" "[]" "''X''" "''Y''" sample_server] by auto
qed

text \<open>
  The loop over a connection always ends: it takes at most one turn per value received that goes
  on, and then one that stops it (or panics).
\<close>

lemma serve_loop_ends:
  "\<exists>t ts jc'. serve_turns srv jc = (ts @ [t], jc') \<and> \<not> goes_on t \<and> (\<forall>u \<in> set ts. goes_on u) \<and>
     length ts \<le> length (incoming jc)"
  by (rule serve_turns_end)

text \<open>
  C24. Whatever JSON arrives, a request that is accepted carries an input of its method's type: the
  value has the type of the input and can be assigned to the method's parameter.
\<close>

theorem accepted_input_typed:
  assumes "serve_turn srv jc = (Accepted r, jc')"
    and "\<And>m. find_method srv (req_service r) (req_method r) = Some m \<Longrightarrow> type_ok (InputType m)"
  shows "\<exists>m input. find_method srv (req_service r) (req_method r) = Some m \<and> req_input r = Some input \<and>
    assignable (rv_Type input) (InputType m) \<and> typed (rv_Type input) (rv_Val input)"
proof -
  obtain m input outp jc1 target where p: "find_method srv (req_service r) (req_method r) = Some m"
    "CreateInput m = Ret input" "jc_DecodeMessageBody jc1 (Some (decode_target input)) = ((None, target), jc')"
    "req_input r = Some (decoded_input input target)"
    by (rule accepted_parts[OF assms(1)])
  then show ?thesis using decoded_input_typed[OF assms(2)[OF p(1)] p(2,3)] by blast
qed

definition sample_request_chunk :: "json list" where
  "sample_request_chunk = [header_json \<lparr>ServiceDotMethod = ''Arithmetic.Addition'', SequenceNumber = 1, Error = []\<rparr>,
     JObj [(''A'', JNum 2), (''B'', JNum 3)]]"

lemma sample_accepted:
  "\<exists>jc'. serve_turn sample_server (NewJsonCoder (sample_connection [sample_request_chunk])) =
     (Accepted \<lparr>req_header = \<lparr>ServiceDotMethod = ''Arithmetic.Addition'', SequenceNumber = 1, Error = []\<rparr>,
        req_service = Some ''Arithmetic'', req_method = Some ''Addition'',
        req_input = Some \<lparr>rv_Type = TPtr input_type, rv_Val = VPtr (VStruct [(''A'', VInt 2), (''B'', VInt 3)])\<rparr>,
        req_output = Some (reflect_New output_type)\<rparr>, jc') \<and> incoming jc' = [] \<and> healthy jc'"
proof -
  let ?m = "new_Method (hd arithmetic_methods)"
  have m: "map_of (ServiceMethod arithmetic_service) ''Addition'' = Some ?m"
    by (simp add: arithmetic_method) (simp add: arithmetic_methods_def suitable_def exported_or_builtin_def input_type_def output_type_def)
  have im: "CreateInput ?m = Ret (reflect_New input_type)" "CreateOutput ?m = Ret (reflect_New output_type)"
    by (simp_all add: CreateInput_def CreateOutput_def new_Method_def arithmetic_methods_def output_type_def)
  have u: "unmarshal input_type (JObj [(''A'', JNum 2), (''B'', JNum 3)]) (zero_value input_type) =
      (VStruct [(''A'', VInt 2), (''B'', VInt 3)], False)"
    by (simp add: input_type_def find_field_def ast_IsExported_def is_upper_def int_ok_def)
  have s: "search_service sample_server ''Arithmetic.Addition'' = (Some ''Arithmetic'', Some ''Addition'', None)"
    using search_dot[of "''Addition''" sample_server "''Arithmetic''"] m by (simp add: sample_server_def)
  have fm: "find_method sample_server (Some ''Arithmetic'') (Some ''Addition'') = Some ?m"
    by (simp add: find_method_def sample_server_def m)
  have "\<exists>jc'. serve_turn sample_server (NewJsonCoder (sample_connection [sample_request_chunk])) =
     (Accepted \<lparr>req_header = \<lparr>ServiceDotMethod = ''Arithmetic.Addition'', SequenceNumber = 1, Error = []\<rparr>,
        req_service = Some ''Arithmetic'', req_method = Some ''Addition'',
        req_input = Some (decoded_input (reflect_New input_type) (Some \<lparr>rv_Type = TPtr input_type, rv_Val = VPtr (VStruct [(''A'', VInt 2), (''B'', VInt 3)])\<rparr>)),
        req_output = Some (reflect_New output_type)\<rparr>, jc') \<and> incoming jc' = [] \<and>
      sent jc' = sent (NewJsonCoder (sample_connection [sample_request_chunk])) \<and>
      healthy jc' = healthy (NewJsonCoder (sample_connection [sample_request_chunk]))"
    by (rule serve_turn_accepts[where m = ?m and t = input_type and z = "zero_value input_type", OF _ _ _ _ _ im _ u])
      (simp_all add: s fm reflect_New_def decode_target_def sample_request_chunk_def, simp_all add: NewJsonCoder_def sample_connection_def)
  then show ?thesis by (auto simp: decoded_input_def reflect_New_def)
qed

theorem accepted_input_typed_witness:
  "typed (TPtr input_type) (VPtr (VStruct [(''A'', VInt 2), (''B'', VInt 3)]))"
proof -
  obtain jc' where a: "serve_turn sample_server (NewJsonCoder (sample_connection [sample_request_chunk])) =
     (Accepted \<lparr>req_header = \<lparr>ServiceDotMethod = ''Arithmetic.Addition'', SequenceNumber = 1, Error = []\<rparr>,
        req_service = Some ''Arithmetic'', req_method = Some ''Addition'',
        req_input = Some \<lparr>rv_Type = TPtr input_type, rv_Val = VPtr (VStruct [(''A'', VInt 2), (''B'', VInt 3)])\<rparr>,
        req_output = Some (reflect_New output_type)\<rparr>, jc')"
    using sample_accepted by blast
  show ?thesis
    using accepted_input_typed[OF a]
    by (simp add: find_method_def sample_server_def arithmetic_method arithmetic_methods_def new_Method_def suitable_def
        exported_or_builtin_def input_type_def output_type_def)
qed

text \<open>
  C28. A request that reaches the server together with the connection information is lost: the decoder
  that reads the information keeps what came in the same chunk, and the coder that serves the
  connection only sees what comes later.
\<close>

theorem early_request_is_lost:
  assumes "conn_open c" and "conn_recv c = (info_json i # early) # later" and "info_ok i"
    and "IDNumber i = MagicNumber" and "CoderType i = Json"
  shows "\<exists>jc. ServeConnection c = Serving jc i \<and> incoming jc = concat later \<and> healthy jc"
  using ServeConnection_chunk[OF assms] by blast

theorem early_request_is_lost_witness:
  "\<exists>jc. ServeConnection (sample_connection [info_json DefaultConnectionInfo # sample_request_chunk, []]) =
     Serving jc DefaultConnectionInfo \<and> incoming jc = []"
  using early_request_is_lost[of "sample_connection [info_json DefaultConnectionInfo # sample_request_chunk, []]"
      DefaultConnectionInfo sample_request_chunk "[[]]"]
  by (auto simp: sample_connection_def info_ok_def DefaultConnectionInfo_def int_ok_def MagicNumber_def time_defs)

text \<open>
  A client is refused, and its connection closed, unless its information has the magic number
  and a known coder type.
\<close>

theorem bad_handshake_refused:
  assumes "conn_open c" and "conn_recv c = (info_json i # early) # later" and "info_ok i"
    and "IDNumber i \<noteq> MagicNumber \<or> CoderType i \<noteq> Json"
  shows "\<exists>c'. ServeConnection c = Refused c' \<and> \<not> conn_open c' \<and> conn_sent c' = conn_sent c"
  by (rule ServeConnection_refuses[OF assms])

theorem bad_handshake_refused_witness:
  "\<exists>c'. ServeConnection (sample_connection [[info_json (DefaultConnectionInfo\<lparr>IDNumber := 1\<rparr>)]]) = Refused c' \<and>
     \<not> conn_open c'"
  using bad_handshake_refused[of "sample_connection [[info_json (DefaultConnectionInfo\<lparr>IDNumber := 1\<rparr>)]]"
      "DefaultConnectionInfo\<lparr>IDNumber := 1\<rparr>" "[]" "[]"]
  by (auto simp: sample_connection_def info_ok_def DefaultConnectionInfo_def int_ok_def MagicNumber_def time_defs)

text \<open>
  A service name is registered once: the first registration stores the service, a second one of
  the same name is refused and leaves the first in place; other names are not touched.
\<close>

theorem service_registered_once:
  assumes "CreateService sv = Ret s"
  shows "case map_of (ServiceMap srv) (ServiceName s) of
      Some old \<Rightarrow> ServiceRegister srv sv = (Ret (Some (ServiceDefined (ServiceName s))), srv)
    | None \<Rightarrow> \<exists>srv'. ServiceRegister srv sv = (Ret None, srv') \<and>
        map_of (ServiceMap srv') = (map_of (ServiceMap srv))(ServiceName s \<mapsto> s)"
  using assms by (auto simp: ServiceRegister_def update_conv' split: option.split)

theorem service_registered_once_witness:
  "ServiceRegister sample_server arithmetic = (Ret (Some (ServiceDefined ''Arithmetic'')), sample_server)"
  using service_registered_once[OF arithmetic_created, of sample_server]
  by (simp add: sample_server_def arithmetic_service_def)

text \<open>
  C34. The default heartbeat keeps a server registered: with the default rate and the default timeout
  of the registry, a server whose heartbeats succeed is alive from each heartbeat until a minute
  after the next one is due.
\<close>

theorem default_heartbeat_keeps_alive:
  assumes "Heartbeat srv post start 0 ticks = Ret ts" and "\<forall>i. sendHeartbeat srv (post i) = None"
    and "ServerAddress srv \<noteq> []" and "k \<le> ticks" and "now < start + int k * heart_rate 0 + heart_rate 0 + time_Minute"
  shows "ServerAddress srv \<in> alive_in DefaultTimeout
    (last_beat (\<lambda>_. None) (map (\<lambda>t. Beat t (ServerAddress srv)) (take (Suc k) ts))) (\<lambda>_. now)"
proof -
  have r: "heart_rate 0 = time_Minute" "DefaultTimeout = 2 * time_Minute" "time_Minute > 0"
    by (simp_all add: heart_rate_def DefaultTimeout_def time_defs)
  have "ts = start # heartbeat_loop srv post start (heart_rate 0) 1 ticks None"
    using assms(1,2) r by (auto simp: Heartbeat_def Let_def split: if_splits)
  also have "\<dots> = map (\<lambda>i. start + int i * heart_rate 0) [0..<Suc ticks]"
    using heartbeat_loop_ok[of None srv post start "heart_rate 0" 1 ticks] assms(2)
    by (simp add: upt_conv_Cons del: upt_Suc)
  finally have "take (Suc k) ts = map (\<lambda>i. start + int i * heart_rate 0) [0..<Suc k]"
    using assms(4) by (simp add: take_map del: upt_Suc)
  then have t: "take (Suc k) ts = map (\<lambda>i. start + int i * heart_rate 0) [0..<k] @ [start + int k * heart_rate 0]"
    by simp
  have "last_beat lb (es @ [Beat u a]) = (last_beat lb es)(a \<mapsto> u)" if "a \<noteq> []" for lb es u a
    using that by (induction lb es rule: last_beat.induct) simp_all
  then show ?thesis
    using assms(3,5) r by (simp add: t alive_in_def)
qed

theorem default_heartbeat_keeps_alive_witness:
  "ServerAddress sample_server \<in> alive_in DefaultTimeout
    (last_beat (\<lambda>_. None) (map (\<lambda>t. Beat t (ServerAddress sample_server)) [0, time_Minute])) (\<lambda>_. 3 * time_Minute - 1)"
proof -
  let ?post = "\<lambda>_ _. Inr \<lparr>resp_Status = StatusOK, resp_Header = []\<rparr>"
  have h: "Heartbeat sample_server ?post 0 0 1 = Ret [0, time_Minute]"
    by (simp add: Heartbeat_def heart_rate_def sendHeartbeat_def DefaultTimeout_def time_defs)
  show ?thesis
    using default_heartbeat_keeps_alive[OF h, of 1 "3 * time_Minute - 1"]
    by (simp add: sendHeartbeat_def sample_server_def heart_rate_def DefaultTimeout_def time_defs)
qed

end
