(* ===== verification/Request_Handle.thy ===== *)
theory Request_Handle
  imports Server
begin

text \<open>
  The two goroutines of \<^verbatim>\<open>request_handle\<close> as a step relation. A step is one channel operation
  or one call; an exchange on an unbuffered channel is one step of both sides. The timer may fire
  whenever the select waits for it: there is no clock, so every behaviour of the timer is a run.
\<close>

subsection \<open>State\<close>

text \<open>What all goroutines of a connection share; \<open>sh_log\<close> records the responses given to the coder.\<close>

record Shared =
  sh_server :: Server
  sh_coder :: JsonCoder
  sh_wait :: int
  sh_panic :: "go_panic option"
  sh_log :: "(MessageHeader \<times> go_value) list"

datatype worker_pc =
    Calling
  | CallDone "go_error option"
  | Responding "go_error option"
  | ResponseDone
  | WorkerEnded

datatype main_pc =
    Entered
  | AwaitCall
  | AwaitResponse
  | ReturnedEarly
  | Selecting
  | TimingOut
  | SelectedResponse
  | Leaving
  | Finished

record Handler =
  rh_request :: Request
  rh_worker :: worker_pc
  rh_main :: main_pc
  rh_sent :: "(MessageHeader \<times> go_value) list"

definition new_handler :: "Request \<Rightarrow> Handler" where
  "new_handler r = \<lparr>rh_request = r, rh_worker = Calling, rh_main = Entered, rh_sent = []\<rparr>"

subsection \<open>Actions\<close>

definition call_request :: "Server \<Rightarrow> Request \<Rightarrow> (go_error option \<times> reflect_value) go \<times> Server" where
  "call_request srv r =
     (case (req_service r, find_method srv (req_service r) (req_method r), req_input r, req_output r) of
        (Some name, Some m, Some input, Some output) \<Rightarrow>
          (case map_of (ServiceMap srv) name of
             Some svc \<Rightarrow>
               (case service_Call svc m input output of (res, svc') \<Rightarrow>
                  (res, srv\<lparr>ServiceMap := AList.update name svc' (ServiceMap srv)\<rparr>))
           | None \<Rightarrow> (Panic NilDereference, srv))
      | _ \<Rightarrow> (Panic NilDereference, srv))"

text \<open>
  A response under the send mutex: the coder runs from the first byte to the flush, in one step. That
  the mutex, the two encodings and the flush, taken as steps of their own, come to the same is the
  theorem of the theory \<open>Send_Mutex\<close>.
\<close>

definition respond :: "MessageHeader \<Rightarrow> go_value \<Rightarrow> Shared \<Rightarrow> Shared" where
  "respond header body sh =
     sh\<lparr>sh_coder := send_response (sh_coder sh) header body, sh_log := sh_log sh @ [(header, body)]\<rparr>"

text \<open>
  The error of a call goes into the header of the request, and the body is then the empty struct;
  without an error the header goes back as it came, with the output.
\<close>

definition call_header :: "Request \<Rightarrow> go_error option \<Rightarrow> MessageHeader" where
  "call_header r err =
     (case err of None \<Rightarrow> req_header r | Some e \<Rightarrow> (req_header r)\<lparr>Error := server_error_text e\<rparr>)"

definition call_body :: "Request \<Rightarrow> go_error option \<Rightarrow> go_value" where
  "call_body r err =
     (case err of
        Some e \<Rightarrow> invalidRequest
      | None \<Rightarrow> (case req_output r of Some rv \<Rightarrow> rv_Val rv | None \<Rightarrow> VNil))"

definition timeout_header :: "Server \<Rightarrow> Request \<Rightarrow> MessageHeader" where
  "timeout_header srv r = (req_header r)\<lparr>Error := server_error_text (HandleTimeout (ServerAddress srv))\<rparr>"

lemmas action_defs [op_defs] = respond_def call_header_def call_body_def timeout_header_def

subsection \<open>Steps\<close>

text \<open>
  \<open>enter\<close> is the test of \<^verbatim>\<open>timeoutLimit\<close>: with no limit the two receives follow and the function
  returns from inside the \<^verbatim>\<open>if\<close>; the deferred \<^verbatim>\<open>waitGroup.Done()\<close> is only registered after the
  select. A method is a function, so when its step is taken it returns or panics; a method that runs
  for long, or for ever, is a run in which that step comes late, or never.
\<close>

inductive handler_step :: "duration \<Rightarrow> Handler \<times> Shared \<Rightarrow> Handler \<times> Shared \<Rightarrow> bool" for limit where
  call: "sh_panic sh = None \<Longrightarrow> rh_worker h = Calling \<Longrightarrow>
    call_request (sh_server sh) (rh_request h) = (Ret (err, output), srv) \<Longrightarrow>
    handler_step limit (h, sh)
      (h\<lparr>rh_worker := CallDone err, rh_request := (rh_request h)\<lparr>req_output := Some output\<rparr>\<rparr>,
       sh\<lparr>sh_server := srv\<rparr>)"
| call_panic: "sh_panic sh = None \<Longrightarrow> rh_worker h = Calling \<Longrightarrow>
    call_request (sh_server sh) (rh_request h) = (Panic p, srv) \<Longrightarrow>
    handler_step limit (h, sh) (h, sh\<lparr>sh_server := srv, sh_panic := Some p\<rparr>)"
| enter: "sh_panic sh = None \<Longrightarrow> rh_main h = Entered \<Longrightarrow>
    handler_step limit (h, sh) (h\<lparr>rh_main := if limit = 0 then AwaitCall else Selecting\<rparr>, sh)"
| called: "sh_panic sh = None \<Longrightarrow> rh_worker h = CallDone err \<Longrightarrow> rh_main h = AwaitCall \<Longrightarrow>
    handler_step limit (h, sh) (h\<lparr>rh_worker := Responding err, rh_main := AwaitResponse\<rparr>, sh)"
| called_in_time: "sh_panic sh = None \<Longrightarrow> rh_worker h = CallDone err \<Longrightarrow> rh_main h = Selecting \<Longrightarrow>
    handler_step limit (h, sh) (h\<lparr>rh_worker := Responding err, rh_main := SelectedResponse\<rparr>, sh)"
| send: "sh_panic sh = None \<Longrightarrow> rh_worker h = Responding err \<Longrightarrow>
    hdr = call_header (rh_request h) err \<Longrightarrow> body = call_body (rh_request h) err \<Longrightarrow>
    handler_step limit (h, sh)
      (h\<lparr>rh_worker := ResponseDone, rh_sent := rh_sent h @ [(hdr, body)]\<rparr>, respond hdr body sh)"
| responded: "sh_panic sh = None \<Longrightarrow> rh_worker h = ResponseDone \<Longrightarrow> rh_main h = AwaitResponse \<Longrightarrow>
    handler_step limit (h, sh) (h\<lparr>rh_worker := WorkerEnded, rh_main := ReturnedEarly\<rparr>, sh)"
| responded_in_time: "sh_panic sh = None \<Longrightarrow> rh_worker h = ResponseDone \<Longrightarrow> rh_main h = SelectedResponse \<Longrightarrow>
    handler_step limit (h, sh) (h\<lparr>rh_worker := WorkerEnded, rh_main := Leaving\<rparr>, sh)"
| time_out: "sh_panic sh = None \<Longrightarrow> rh_main h = Selecting \<Longrightarrow>
    handler_step limit (h, sh) (h\<lparr>rh_main := TimingOut\<rparr>, sh)"
| send_time_out: "sh_panic sh = None \<Longrightarrow> rh_main h = TimingOut \<Longrightarrow>
    hdr = timeout_header (sh_server sh) (rh_request h) \<Longrightarrow>
    handler_step limit (h, sh)
      (h\<lparr>rh_main := Leaving, rh_sent := rh_sent h @ [(hdr, invalidRequest)]\<rparr>, respond hdr invalidRequest sh)"
| done_: "sh_panic sh = None \<Longrightarrow> rh_main h = Leaving \<Longrightarrow>
    handler_step limit (h, sh) (h\<lparr>rh_main := Finished\<rparr>, sh\<lparr>sh_wait := sh_wait sh - 1\<rparr>)"

inductive_cases handler_stepE: "handler_step limit (h, sh) (h', sh')"

subsection \<open>The invariant of a handler\<close>

text \<open>
  Where the two goroutines can be together, and how many responses have then been sent. Every
  response carries the sequence number and the method of the request.
\<close>

definition before_response :: "Handler \<Rightarrow> bool" where
  "before_response h \<longleftrightarrow> (rh_worker h = Calling \<or> (\<exists>err. rh_worker h = CallDone err))"

definition mains :: "duration \<Rightarrow> main_pc set" where
  "mains limit =
     (if limit = 0 then {Entered, AwaitCall, AwaitResponse, ReturnedEarly}
      else {Entered, Selecting, TimingOut, SelectedResponse, Leaving, Finished})"

definition answers :: "Request \<Rightarrow> MessageHeader \<times> go_value \<Rightarrow> bool" where
  "answers r m \<longleftrightarrow> SequenceNumber (fst m) = SequenceNumber (req_header r) \<and>
     ServiceDotMethod (fst m) = ServiceDotMethod (req_header r)"

definition handler_inv :: "duration \<Rightarrow> Handler \<Rightarrow> bool" where
  "handler_inv limit h \<longleftrightarrow>
     rh_main h \<in> mains limit \<and> list_all (answers (rh_request h)) (rh_sent h) \<and>
     (case rh_main h of
        Entered \<Rightarrow> before_response h \<and> rh_sent h = []
      | AwaitCall \<Rightarrow> before_response h \<and> rh_sent h = []
      | Selecting \<Rightarrow> before_response h \<and> rh_sent h = []
      | TimingOut \<Rightarrow> before_response h \<and> rh_sent h = []
      | ReturnedEarly \<Rightarrow> rh_worker h = WorkerEnded \<and> length (rh_sent h) = 1
      | Leaving \<Rightarrow> (rh_worker h = WorkerEnded \<or> before_response h) \<and> length (rh_sent h) = 1
      | Finished \<Rightarrow> (rh_worker h = WorkerEnded \<or> before_response h) \<and> length (rh_sent h) = 1
      | _ \<Rightarrow> (\<exists>err. rh_worker h = Responding err) \<and> rh_sent h = [] \<or>
             rh_worker h = ResponseDone \<and> length (rh_sent h) = 1)"

lemma handler_inv_new: "handler_inv limit (new_handler r)"
  by (simp add: handler_inv_def new_handler_def mains_def before_response_def)

lemma answers_output [simp]: "answers (r\<lparr>req_output := o'\<rparr>) = answers r"
  by (simp add: answers_def fun_eq_iff)

lemma answers_call [simp]: "answers r (call_header r err, body)"
  by (simp add: answers_def call_header_def split: option.split)

lemma answers_timeout [simp]: "answers r (timeout_header srv r, body)"
  by (simp add: answers_def timeout_header_def)

lemma handler_inv_step:
  "handler_step limit (h, sh) (h', sh') \<Longrightarrow> handler_inv limit h \<Longrightarrow> handler_inv limit h'"
  by (erule handler_stepE)
    (auto simp: handler_inv_def mains_def before_response_def split: main_pc.splits if_splits)

text \<open>The same invariant when other goroutines of the connection run in between.\<close>

inductive handler_runs :: "duration \<Rightarrow> Handler \<times> Shared \<Rightarrow> Handler \<times> Shared \<Rightarrow> bool" for limit where
  own: "handler_step limit (h, sh) (h', sh') \<Longrightarrow> handler_runs limit (h, sh) (h', sh')"
| other: "handler_runs limit (h, sh) (h, sh')"

definition fresh_handler :: "Handler \<times> Shared \<Rightarrow> bool" where
  "fresh_handler s \<longleftrightarrow> (\<exists>r. fst s = new_handler r)"

interpretation rh: step_system fresh_handler "handler_runs limit" "\<lambda>s. handler_inv limit (fst s)" for limit
proof unfold_locales
  show "handler_inv limit (fst s)" if "fresh_handler s" for s
    using that handler_inv_new by (auto simp: fresh_handler_def)
  show "handler_inv limit (fst t)" if "handler_inv limit (fst s)" "handler_runs limit s t" for s t
    using that(2,1) by (induction rule: handler_runs.induct) (auto intro: handler_inv_step)
qed

lemma handler_runs_header:
  "(handler_runs limit)\<^sup>*\<^sup>* s t \<Longrightarrow> req_header (rh_request (fst t)) = req_header (rh_request (fst s))"
proof (induction rule: rtranclp_induct)
  case (step t u)
  have "handler_runs limit t u \<Longrightarrow> req_header (rh_request (fst u)) = req_header (rh_request (fst t))"
    by (induction rule: handler_runs.induct) (auto elim: handler_stepE)
  with step show ?case by simp
qed simp

subsection \<open>Progress\<close>

text \<open>Every step brings a handler closer to its end, and it is stuck only at its end.\<close>

fun worker_rank :: "worker_pc \<Rightarrow> nat" where
  "worker_rank Calling = 4"
| "worker_rank (CallDone e) = 3"
| "worker_rank (Responding e) = 2"
| "worker_rank ResponseDone = 1"
| "worker_rank WorkerEnded = 0"

fun main_rank :: "main_pc \<Rightarrow> nat" where
  "main_rank Entered = 5"
| "main_rank AwaitCall = 4"
| "main_rank Selecting = 4"
| "main_rank TimingOut = 3"
| "main_rank AwaitResponse = 3"
| "main_rank SelectedResponse = 3"
| "main_rank Leaving = 2"
| "main_rank Finished = 0"
| "main_rank ReturnedEarly = 0"

definition handler_rank :: "Handler \<Rightarrow> nat" where
  "handler_rank h = worker_rank (rh_worker h) + main_rank (rh_main h)"

lemma handler_rank_step:
  "handler_step limit (h, sh) (h', sh') \<Longrightarrow>
   sh_panic sh = None \<and> (sh_panic sh' \<noteq> None \<and> h' = h \<or> sh_panic sh' = None \<and> handler_rank h' < handler_rank h)"
  by (erule handler_stepE) (auto simp: handler_rank_def respond_def)

lemma call_step:
  assumes "sh_panic sh = None" and "rh_worker h = Calling"
  shows "\<exists>h' sh'. handler_step limit (h, sh) (h', sh')"
proof (cases "call_request (sh_server sh) (rh_request h)")
  case (Pair res srv)
  then show ?thesis
    using call[OF assms] call_panic[OF assms] by (cases res) fastforce+
qed

lemma handler_progress:
  assumes "handler_inv limit h" and "sh_panic sh = None" and "rh_main h \<notin> {Finished, ReturnedEarly}"
  shows "\<exists>h' sh'. handler_step limit (h, sh) (h', sh')"
proof (cases "rh_main h = AwaitCall \<and> (\<exists>err. rh_worker h = CallDone err)")
  case False
  then show ?thesis
    using assms call_step[OF assms(2)]
    by (cases "rh_main h")
      (fastforce simp: handler_inv_def before_response_def
         intro: enter send responded responded_in_time time_out send_time_out done_)+
qed (use assms(2) in \<open>blast intro: called\<close>)

lemma stuck_worker:
  assumes "rh_main h \<in> {Finished, ReturnedEarly}" and "rh_worker h \<noteq> Calling"
    and "\<forall>err. rh_worker h \<noteq> Responding err"
  shows "\<not> handler_step limit (h, sh) (h', sh')"
  using assms by (auto elim!: handler_stepE)

text \<open>What a step does to what the goroutines share.\<close>

lemma handler_step_wait:
  "handler_step limit (h, sh) (h', sh') \<Longrightarrow>
   sh_wait sh' + (if rh_main h' = Finished then 1 else 0) = sh_wait sh + (if rh_main h = Finished then 1 else 0)"
  by (erule handler_stepE) (auto simp: respond_def)

lemma handler_step_log:
  "handler_step limit (h, sh) (h', sh') \<Longrightarrow>
   (sh_log sh' = sh_log sh \<and> sh_coder sh' = sh_coder sh \<and> rh_sent h' = rh_sent h) \<or>
   (\<exists>hdr body. sh_log sh' = sh_log sh @ [(hdr, body)] \<and> rh_sent h' = rh_sent h @ [(hdr, body)] \<and>
      sh_coder sh' = send_response (sh_coder sh) hdr body)"
  by (erule handler_stepE) (auto simp: respond_def)

subsection \<open>Properties\<close>

text \<open>After the timeout response the worker can only finish its call: nobody receives from it any more.\<close>

lemma abandoned_step:
  assumes "handler_runs limit s t" and "rh_main (fst s) = Finished" and "before_response (fst s)"
  shows "rh_main (fst t) = Finished \<and> before_response (fst t)"
  using assms by (induction rule: handler_runs.induct) (auto simp: before_response_def elim!: handler_stepE)

text \<open>
  C18. A handler sends at most one response, whatever the other goroutines of the connection do in
  between, and it has sent exactly one when it returns; the response carries the sequence number and
  the method of its request. (Timeout or not, with or without a limit.)
\<close>

theorem handler_responds_once:
  assumes "reach fresh_handler (handler_runs limit) (h, sh)"
  shows "length (rh_sent h) \<le> 1 \<and> (rh_main h \<in> {Finished, ReturnedEarly} \<longrightarrow> length (rh_sent h) = 1) \<and>
    (\<forall>m \<in> set (rh_sent h). SequenceNumber (fst m) = SequenceNumber (req_header (rh_request h)) \<and>
       ServiceDotMethod (fst m) = ServiceDotMethod (req_header (rh_request h)))"
  using rh.reach_invar[OF assms]
  by (auto simp: handler_inv_def list_all_iff answers_def split: main_pc.splits)

definition sample_shared :: Shared where
  "sample_shared = \<lparr>sh_server = sample_server, sh_coder = NewJsonCoder (sample_connection []), sh_wait = 1,
     sh_panic = None, sh_log = []\<rparr>"

definition sample_request :: Request where
  "sample_request = \<lparr>req_header = \<lparr>ServiceDotMethod = ''Arithmetic.Addition'', SequenceNumber = 1, Error = []\<rparr>,
     req_service = Some ''Arithmetic'', req_method = Some ''Addition'',
     req_input = Some \<lparr>rv_Type = TPtr input_type, rv_Val = VPtr (VStruct [(''A'', VInt 2), (''B'', VInt 3)])\<rparr>,
     req_output = Some (reflect_New output_type)\<rparr>"

text \<open>A run in which the timer fires first, and the worker then completes the call for nothing.\<close>

lemma sample_timeout:
  assumes "limit \<noteq> 0" and "sh_panic sh = None"
  shows "\<exists>h sh'. (handler_runs limit)\<^sup>*\<^sup>* (new_handler r, sh) (h, sh') \<and> rh_main h = Finished \<and> rh_worker h = Calling \<and>
     length (rh_sent h) = 1"
proof -
  let ?h = "new_handler r"
  let ?hdr = "timeout_header (sh_server sh) r"
  let ?h1 = "?h\<lparr>rh_main := Selecting\<rparr>" and ?h2 = "?h\<lparr>rh_main := TimingOut\<rparr>"
  let ?h3 = "?h\<lparr>rh_main := Leaving, rh_sent := [(?hdr, invalidRequest)]\<rparr>"
  let ?h4 = "?h\<lparr>rh_main := Finished, rh_sent := [(?hdr, invalidRequest)]\<rparr>"
  let ?sh = "respond ?hdr invalidRequest sh"
  have "handler_step limit (?h, sh) (?h1, sh)" using enter[of sh ?h limit] assms by (simp add: new_handler_def)
  moreover have "handler_step limit (?h1, sh) (?h2, sh)"
    using time_out[of sh ?h1 limit] assms by (simp add: new_handler_def)
  moreover have "handler_step limit (?h2, sh) (?h3, ?sh)"
    using send_time_out[of sh ?h2 ?hdr limit] assms by (simp add: new_handler_def)
  moreover have "handler_step limit (?h3, ?sh) (?h4, ?sh\<lparr>sh_wait := sh_wait ?sh - 1\<rparr>)"
    using done_[of ?sh ?h3 limit] assms by (simp add: new_handler_def respond_def)
  ultimately have "(handler_runs limit)\<^sup>*\<^sup>* (?h, sh) (?h4, ?sh\<lparr>sh_wait := sh_wait ?sh - 1\<rparr>)"
    by (meson handler_runs.own r_into_rtranclp rtranclp_trans)
  then show ?thesis by (intro exI[of _ ?h4] exI conjI) (assumption, simp_all add: new_handler_def)
qed

theorem handler_responds_once_witness:
  "\<exists>h sh. reach fresh_handler (handler_runs time_Second) (h, sh) \<and> rh_main h = Finished \<and> length (rh_sent h) = 1"
proof -
  obtain h sh' where r: "(handler_runs time_Second)\<^sup>*\<^sup>* (new_handler sample_request, sample_shared) (h, sh')"
    "rh_main h = Finished"
    using sample_timeout[of time_Second sample_shared sample_request] by (auto simp: time_defs sample_shared_def)
  have "reach fresh_handler (handler_runs time_Second) (h, sh')"
    by (rule reach_trans[OF reach_init r(1)]) (auto simp: fresh_handler_def)
  from handler_responds_once[OF this] show ?thesis using r(2) \<open>reach _ _ _\<close> by blast
qed

text \<open>
  C25. A request that times out leaves a goroutine behind for good: once the handler has finished
  without the worker, the worker never ends, in no continuation, even when the method returns.
\<close>

theorem timed_out_worker_never_ends:
  assumes "reach fresh_handler (handler_runs limit) (h, sh)" and "rh_main h = Finished"
    and "rh_worker h \<noteq> WorkerEnded" and "(handler_runs limit)\<^sup>*\<^sup>* (h, sh) (h', sh')"
  shows "rh_worker h' \<noteq> WorkerEnded"
proof -
  have "before_response h" using rh.reach_invar[OF assms(1)] assms(2,3) by (simp add: handler_inv_def)
  with assms(4,2) have "rh_main (fst (h', sh')) = Finished \<and> before_response (fst (h', sh'))"
    by (induction rule: rtranclp_induct) (auto dest: abandoned_step)
  then show ?thesis by (auto simp: before_response_def)
qed

theorem timed_out_worker_never_ends_witness:
  "\<exists>h sh. reach fresh_handler (handler_runs time_Second) (h, sh) \<and> rh_main h = Finished \<and>
     (\<forall>h' sh'. (handler_runs time_Second)\<^sup>*\<^sup>* (h, sh) (h', sh') \<longrightarrow> rh_worker h' \<noteq> WorkerEnded)"
proof -
  obtain h sh' where r: "(handler_runs time_Second)\<^sup>*\<^sup>* (new_handler sample_request, sample_shared) (h, sh')"
    "rh_main h = Finished" "rh_worker h = Calling"
    using sample_timeout[of time_Second sample_shared sample_request] by (auto simp: time_defs sample_shared_def)
  have "reach fresh_handler (handler_runs time_Second) (h, sh')"
    by (rule reach_trans[OF reach_init r(1)]) (auto simp: fresh_handler_def)
  then show ?thesis using timed_out_worker_never_ends[of time_Second h sh'] r(2,3) by fastforce
qed

end
