(* ===== verification/Serve_Coder.thy ===== *)
theory Serve_Coder
  imports Request_Handle
begin

text \<open>
  The goroutines of a connection together: the loop of \<^verbatim>\<open>serveCoder\<close>, the handlers that it has
  started and the wait group that it waits for before it closes the coder.
\<close>

subsection \<open>State and steps\<close>

datatype serve_pc = Reading | Waiting | Closed

record Serving =
  sv_pc :: serve_pc
  sv_handlers :: "Handler list"
  sv_shared :: Shared

definition serve_start :: "Server \<Rightarrow> JsonCoder \<Rightarrow> Serving" where
  "serve_start srv jc = \<lparr>sv_pc = Reading, sv_handlers = [],
     sv_shared = \<lparr>sh_server = srv, sh_coder = jc, sh_wait = 0, sh_panic = None, sh_log = []\<rparr>\<rparr>"

text \<open>A turn of the loop: a header that cannot be read ends it, a bad request is answered at once.\<close>

definition loop_turn :: "Serving \<Rightarrow> Serving" where
  "loop_turn s =
     (let sh = sv_shared s in
      case serve_turn (sh_server sh) (sh_coder sh) of
        (Stopped err, jc) \<Rightarrow> s\<lparr>sv_pc := Waiting, sv_shared := sh\<lparr>sh_coder := jc\<rparr>\<rparr>
      | (Crashed p, jc) \<Rightarrow> s\<lparr>sv_shared := sh\<lparr>sh_coder := jc, sh_panic := Some p\<rparr>\<rparr>
      | (Rejected header, jc) \<Rightarrow>
          s\<lparr>sv_shared := sh\<lparr>sh_coder := jc, sh_log := sh_log sh @ [(header, invalidRequest)]\<rparr>\<rparr>
      | (Accepted request, jc) \<Rightarrow>
          s\<lparr>sv_handlers := sv_handlers s @ [new_handler request],
            sv_shared := sh\<lparr>sh_coder := jc, sh_wait := sh_wait sh + 1\<rparr>\<rparr>)"

definition close_coder :: "Serving \<Rightarrow> Serving" where
  "close_coder s = s\<lparr>sv_pc := Closed,
     sv_shared := (sv_shared s)\<lparr>sh_coder := snd (jc_Close (sh_coder (sv_shared s)))\<rparr>\<rparr>"

inductive serve_step :: "duration \<Rightarrow> Serving \<Rightarrow> Serving \<Rightarrow> bool" for limit where
  turn: "sh_panic (sv_shared s) = None \<Longrightarrow> sv_pc s = Reading \<Longrightarrow> serve_step limit s (loop_turn s)"
| handler: "i < length (sv_handlers s) \<Longrightarrow>
    handler_step limit (sv_handlers s ! i, sv_shared s) (h', sh') \<Longrightarrow>
    serve_step limit s (s\<lparr>sv_handlers := (sv_handlers s)[i := h'], sv_shared := sh'\<rparr>)"
| close: "sh_panic (sv_shared s) = None \<Longrightarrow> sv_pc s = Waiting \<Longrightarrow> sh_wait (sv_shared s) = 0 \<Longrightarrow>
    serve_step limit s (close_coder s)"

text \<open>The four outcomes of a turn.\<close>

lemma loop_turn_cases:
  obtains (stopped) err jc where "serve_turn (sh_server (sv_shared s)) (sh_coder (sv_shared s)) = (Stopped err, jc)"
      "loop_turn s = s\<lparr>sv_pc := Waiting, sv_shared := (sv_shared s)\<lparr>sh_coder := jc\<rparr>\<rparr>"
  | (crashed) p jc where "serve_turn (sh_server (sv_shared s)) (sh_coder (sv_shared s)) = (Crashed p, jc)"
      "loop_turn s = s\<lparr>sv_shared := (sv_shared s)\<lparr>sh_coder := jc, sh_panic := Some p\<rparr>\<rparr>"
  | (rejected) hdr jc where "serve_turn (sh_server (sv_shared s)) (sh_coder (sv_shared s)) = (Rejected hdr, jc)"
      "loop_turn s = s\<lparr>sv_shared := (sv_shared s)\<lparr>sh_coder := jc,
         sh_log := sh_log (sv_shared s) @ [(hdr, invalidRequest)]\<rparr>\<rparr>"
  | (accepted) r jc where "serve_turn (sh_server (sv_shared s)) (sh_coder (sv_shared s)) = (Accepted r, jc)"
      "loop_turn s = s\<lparr>sv_handlers := sv_handlers s @ [new_handler r],
         sv_shared := (sv_shared s)\<lparr>sh_coder := jc, sh_wait := sh_wait (sv_shared s) + 1\<rparr>\<rparr>"
proof (cases "serve_turn (sh_server (sv_shared s)) (sh_coder (sv_shared s))")
  case (Pair t jc)
  then show ?thesis
    using that by (cases t) (simp_all add: loop_turn_def Let_def)
qed

subsection \<open>The wait group\<close>

definition unfinished :: "Handler list \<Rightarrow> nat" where
  "unfinished hs = length (filter (\<lambda>h. rh_main h \<noteq> Finished) hs)"

lemma unfinished_update:
  "i < length hs \<Longrightarrow>
   int (unfinished (hs[i := h'])) + (if rh_main h' = Finished then 1 else 0) =
   int (unfinished hs) + (if rh_main (hs ! i) = Finished then 1 else 0)"
proof (induction hs arbitrary: i)
  case (Cons h hs)
  then show ?case
  proof (cases i)
    case (Suc j)
    then show ?thesis using Cons.IH[of j] Cons.prems by (auto simp: unfinished_def split: if_splits)
  qed (auto simp: unfinished_def)
qed simp

text \<open>
  The counter is the number of handlers that have not called \<^verbatim>\<open>Done\<close>, every handler is in a state
  it can be in, and the connection is closed only when the counter was 0.
\<close>

definition serve_inv :: "duration \<Rightarrow> Serving \<Rightarrow> bool" where
  "serve_inv limit s \<longleftrightarrow>
     list_all (handler_inv limit) (sv_handlers s) \<and>
     sh_wait (sv_shared s) = int (unfinished (sv_handlers s)) \<and>
     (sv_pc s = Closed \<longrightarrow> unfinished (sv_handlers s) = 0)"

lemma unfinished_Nil [simp]: "unfinished [] = 0"
  by (simp add: unfinished_def)

lemma unfinished_new [simp]: "unfinished (hs @ [new_handler r]) = Suc (unfinished hs)"
  by (simp add: unfinished_def new_handler_def)

lemma unfinished_0: "unfinished hs = 0 \<longleftrightarrow> (\<forall>h \<in> set hs. rh_main h = Finished)"
  by (simp add: unfinished_def filter_empty_conv)

lemma serve_inv_turn:
  assumes "serve_inv limit s" and "sv_pc s = Reading"
  shows "serve_inv limit (loop_turn s)"
  using assms by (cases rule: loop_turn_cases[of s]) (auto simp: serve_inv_def handler_inv_new)

lemma finished_stays:
  "handler_step limit (h, sh) (h', sh') \<Longrightarrow> rh_main h = Finished \<Longrightarrow> rh_main h' = Finished"
  by (erule handler_stepE) auto

lemma serve_inv_handler:
  assumes inv: "serve_inv limit s" and i: "i < length (sv_handlers s)"
    and h: "handler_step limit (sv_handlers s ! i, sv_shared s) (h', sh')"
  shows "serve_inv limit (s\<lparr>sv_handlers := (sv_handlers s)[i := h'], sv_shared := sh'\<rparr>)"
proof -
  have m: "sv_handlers s ! i \<in> set (sv_handlers s)" using i by simp
  then have "handler_inv limit (sv_handlers s ! i)" using inv by (simp add: serve_inv_def list_all_iff)
  then have "handler_inv limit h'" using h by (blast intro: handler_inv_step)
  moreover have "set ((sv_handlers s)[i := h']) \<subseteq> insert h' (set (sv_handlers s))"
    by (rule set_update_subset_insert)
  ultimately have all: "list_all (handler_inv limit) ((sv_handlers s)[i := h'])"
    using inv by (auto simp: serve_inv_def list_all_iff)
  have wait: "sh_wait sh' = int (unfinished ((sv_handlers s)[i := h']))"
    using handler_step_wait[OF h] unfinished_update[OF i, of h'] inv by (simp add: serve_inv_def)
  have "unfinished ((sv_handlers s)[i := h']) = 0" if "unfinished (sv_handlers s) = 0"
    using that m finished_stays[OF h] set_update_subset_insert[of "sv_handlers s" i h']
    by (auto simp: unfinished_0)
  with all wait inv show ?thesis by (simp add: serve_inv_def)
qed

lemma serve_inv_close:
  assumes "serve_inv limit s" and "sh_wait (sv_shared s) = 0"
  shows "serve_inv limit (close_coder s)"
  using assms by (simp add: serve_inv_def close_coder_def)

definition serve_started :: "Server \<Rightarrow> JsonCoder \<Rightarrow> Serving \<Rightarrow> bool" where
  "serve_started srv jc s \<longleftrightarrow> s = serve_start srv jc"

interpretation sc: step_system "serve_started srv jc" "serve_step limit" "serve_inv limit" for srv jc limit
proof unfold_locales
  show "serve_inv limit s" if "serve_started srv jc s" for s
    using that by (simp add: serve_started_def serve_start_def serve_inv_def)
  show "serve_inv limit t" if "serve_inv limit s" "serve_step limit s t" for s t
    using that(2,1) by (cases) (auto intro: serve_inv_turn serve_inv_handler serve_inv_close)
qed

abbreviation served :: "duration \<Rightarrow> Server \<Rightarrow> JsonCoder \<Rightarrow> Serving \<Rightarrow> bool" where
  "served limit srv jc \<equiv> reach (serve_started srv jc) (serve_step limit)"

subsection \<open>What is on the wire\<close>

text \<open>
  The coder has sent exactly the responses of the log, whole and one after the other, as long as
  every body could be encoded.
\<close>

definition encodable :: "(MessageHeader \<times> go_value) list \<Rightarrow> bool" where
  "encodable ms \<longleftrightarrow> (\<forall>m \<in> set ms. marshal (snd m) \<noteq> None)"

definition frames :: "(MessageHeader \<times> go_value) list \<Rightarrow> json list" where
  "frames ms = concat (map (\<lambda>m. [header_json (fst m), the (marshal (snd m))]) ms)"

definition wire_inv :: "json list \<Rightarrow> Serving \<Rightarrow> bool" where
  "wire_inv start s \<longleftrightarrow>
     (encodable (sh_log (sv_shared s)) \<longrightarrow>
        sent (sh_coder (sv_shared s)) = start @ frames (sh_log (sv_shared s)) \<and>
        (sv_pc s \<noteq> Closed \<longrightarrow> healthy (sh_coder (sv_shared s))))"

lemma send_response_ok:
  assumes "healthy jc" and "marshal body = Some j"
  shows "healthy (send_response jc h body) \<and> sent (send_response jc h body) = sent jc @ [header_json h, j] \<and>
         incoming (send_response jc h body) = incoming jc"
  using encode_ok[OF assms, of h] by (auto simp: send_response_def)

lemma encodable_snoc [simp]: "encodable (ms @ [(h, b)]) \<longleftrightarrow> encodable ms \<and> marshal b \<noteq> None"
  by (auto simp: encodable_def)

lemma frames_snoc [simp]: "frames (ms @ [(h, b)]) = frames ms @ [header_json h, the (marshal b)]"
  by (simp add: frames_def)

lemma marshal_invalidRequest [simp]: "marshal invalidRequest = Some (JObj [])"
  by (simp add: invalidRequest_def)

lemma decode_wire:
  "jc_DecodeMessageHeader jc h = (r, jc') \<Longrightarrow> sent jc' = sent jc \<and> healthy jc' = healthy jc"
  "jc_DecodeMessageBody jc b = (r', jc') \<Longrightarrow> sent jc' = sent jc \<and> healthy jc' = healthy jc"
  by (auto simp: jc_DecodeMessageHeader_def jc_DecodeMessageBody_def dec_Decode_def dec_Decode_nil_def
      dec_read_def sent_def healthy_def Let_def split: prod.splits sum.splits option.splits list.splits if_splits)

lemma read_request_wire:
  "read_request srv jc = (r, jc') \<Longrightarrow> sent jc' = sent jc \<and> healthy jc' = healthy jc"
  by (auto simp: read_request_def read_header_def Let_def dest!: decode_wire
      split: option.splits prod.splits go.splits if_splits)

lemma serve_turn_wire:
  "serve_turn srv jc = (t, jc') \<Longrightarrow>
   (\<exists>jc1 h. t = Rejected h \<and> jc' = send_response jc1 h invalidRequest \<and> sent jc1 = sent jc \<and> healthy jc1 = healthy jc) \<or>
   ((\<forall>h. t \<noteq> Rejected h) \<and> sent jc' = sent jc \<and> healthy jc' = healthy jc)"
  using read_request_wire[of srv jc]
  by (auto simp: serve_turn_def Let_def split: prod.splits go.splits option.splits)

text \<open>After its own \<^verbatim>\<open>Done\<close> a handler sends nothing.\<close>

lemma finished_log:
  "handler_step limit (h, sh) (h', sh') \<Longrightarrow> handler_inv limit h \<Longrightarrow> rh_main h = Finished \<Longrightarrow>
   sh_log sh' = sh_log sh \<and> sh_coder sh' = sh_coder sh"
  by (erule handler_stepE) (auto simp: handler_inv_def before_response_def)

lemma send_one:
  assumes "encodable ms \<longrightarrow> sent jc = start @ frames ms \<and> healthy jc" and "encodable (ms @ [(h, b)])"
  shows "sent (send_response jc h b) = start @ frames (ms @ [(h, b)]) \<and> healthy (send_response jc h b)"
proof -
  obtain j where "marshal b = Some j" using assms(2) by auto
  then show ?thesis using assms send_response_ok[of jc b j h] by simp
qed

lemma wire_inv_turn:
  assumes "wire_inv start s" and "sv_pc s = Reading"
  shows "wire_inv start (loop_turn s)"
proof (cases rule: loop_turn_cases[of s])
  case (rejected hdr jc)
  then obtain jc1 where jc1: "jc = send_response jc1 hdr invalidRequest"
      "sent jc1 = sent (sh_coder (sv_shared s))" "healthy jc1 = healthy (sh_coder (sv_shared s))"
    using serve_turn_wire[OF rejected(1)] by auto
  then show ?thesis
    using assms rejected send_one[of "sh_log (sv_shared s)" jc1 start hdr invalidRequest]
    by (simp add: wire_inv_def)
qed (use assms in \<open>auto simp: wire_inv_def dest!: serve_turn_wire\<close>)

lemma wire_inv_handler:
  assumes inv: "serve_inv limit s" and w: "wire_inv start s" and i: "i < length (sv_handlers s)"
    and h: "handler_step limit (sv_handlers s ! i, sv_shared s) (h', sh')"
  shows "wire_inv start (s\<lparr>sv_handlers := (sv_handlers s)[i := h'], sv_shared := sh'\<rparr>)"
proof (cases "sv_pc s = Closed")
  case True
  have m: "sv_handlers s ! i \<in> set (sv_handlers s)" using i by simp
  with True inv have "handler_inv limit (sv_handlers s ! i)" "rh_main (sv_handlers s ! i) = Finished"
    by (auto simp: serve_inv_def list_all_iff unfinished_0)
  then show ?thesis using finished_log[OF h] w by (simp add: wire_inv_def)
next
  case False
  with handler_step_log[OF h] w show ?thesis
    using send_one[of "sh_log (sv_shared s)" "sh_coder (sv_shared s)" start]
    by (auto simp: wire_inv_def)
qed

lemma wire_inv_close: "wire_inv start s \<Longrightarrow> wire_inv start (close_coder s)"
  by (simp add: wire_inv_def close_coder_def jc_Close_def conn_Close_def sent_def)

text \<open>The connection is open exactly until the coder is closed.\<close>

definition open_inv :: "Serving \<Rightarrow> bool" where
  "open_inv s \<longleftrightarrow> conn_open (connection (sh_coder (sv_shared s))) = (sv_pc s \<noteq> Closed)"

lemma decode_open:
  "jc_DecodeMessageHeader jc h = (r, jc') \<Longrightarrow> conn_open (connection jc') = conn_open (connection jc)"
  "jc_DecodeMessageBody jc b = (r', jc') \<Longrightarrow> conn_open (connection jc') = conn_open (connection jc)"
  by (auto simp: jc_DecodeMessageHeader_def jc_DecodeMessageBody_def dec_Decode_def dec_Decode_nil_def
      dec_read_def Let_def split: prod.splits sum.splits option.splits list.splits if_splits)

lemma read_request_open:
  "read_request srv jc = (r, jc') \<Longrightarrow> conn_open (connection jc') = conn_open (connection jc)"
  by (auto simp: read_request_def read_header_def Let_def dest!: decode_open
      split: option.splits prod.splits go.splits if_splits)

lemma serve_turn_open:
  "serve_turn srv jc = (t, jc') \<Longrightarrow> conn_open (connection jc') = conn_open (connection jc)"
  using read_request_open[of srv jc]
  by (auto simp: serve_turn_def send_response_def encode_keeps_open Let_def
      split: prod.splits go.splits option.splits)

lemma open_inv_turn: "open_inv s \<Longrightarrow> sv_pc s = Reading \<Longrightarrow> open_inv (loop_turn s)"
  by (cases rule: loop_turn_cases[of s]) (auto simp: open_inv_def dest: serve_turn_open)

lemma open_inv_handler:
  "open_inv s \<Longrightarrow> handler_step limit (sv_handlers s ! i, sv_shared s) (h', sh') \<Longrightarrow>
   open_inv (s\<lparr>sv_handlers := (sv_handlers s)[i := h'], sv_shared := sh'\<rparr>)"
  using handler_step_log[of limit "sv_handlers s ! i" "sv_shared s" h' sh']
  by (auto simp: open_inv_def send_response_def encode_keeps_open)

lemma open_inv_close: "open_inv (close_coder s)"
  by (simp add: open_inv_def close_coder_def jc_Close_def conn_Close_def Let_def)

text \<open>The three invariants together.\<close>

definition healthy_start :: "json list \<Rightarrow> Server \<Rightarrow> JsonCoder \<Rightarrow> Serving \<Rightarrow> bool" where
  "healthy_start start srv jc s \<longleftrightarrow> serve_started srv jc s \<and> healthy jc \<and> sent jc = start"

definition wired :: "duration \<Rightarrow> json list \<Rightarrow> Serving \<Rightarrow> bool" where
  "wired limit start s \<longleftrightarrow> serve_inv limit s \<and> wire_inv start s \<and> open_inv s"

interpretation wire: step_system "healthy_start start srv jc" "serve_step limit" "wired limit start"
  for start srv jc limit
proof unfold_locales
  show "wired limit start s" if "healthy_start start srv jc s" for s
    using that sc.invar_init[of srv jc s limit]
    by (auto simp: wired_def healthy_start_def serve_started_def serve_start_def wire_inv_def open_inv_def
        healthy_def frames_def)
  show "wired limit start t" if w: "wired limit start s" and st: "serve_step limit s t" for s t
  proof -
    have "serve_inv limit t" using w sc.invar_step[OF _ st] by (simp add: wired_def)
    moreover have "wire_inv start t \<and> open_inv t"
      using st w
      by (cases) (auto simp: wired_def intro: wire_inv_turn wire_inv_handler wire_inv_close
          open_inv_turn open_inv_handler open_inv_close)
    ultimately show ?thesis by (simp add: wired_def)
  qed
qed

lemma served_wired:
  assumes "served limit srv jc s" and "healthy jc"
  shows "wired limit (sent jc) s"
proof -
  have "reach (healthy_start (sent jc) srv jc) (serve_step limit) s"
    using assms(1)
    by (induction rule: reach.induct) (auto intro: reach.intros simp: healthy_start_def assms(2))
  then show ?thesis by (rule wire.reach_invar)
qed

subsection \<open>Termination and the end of a run\<close>

definition serve_rank :: "Serving \<Rightarrow> nat" where
  "serve_rank s = (case sv_pc s of Reading \<Rightarrow> 2 | Waiting \<Rightarrow> 1 | Closed \<Rightarrow> 0) +
     10 * length (incoming (sh_coder (sv_shared s))) + sum_list (map handler_rank (sv_handlers s))"

lemma sum_list_smaller:
  "i < length xs \<Longrightarrow> f y < (f (xs ! i) :: nat) \<Longrightarrow> sum_list (map f (xs[i := y])) < sum_list (map f xs)"
proof (induction xs arbitrary: i)
  case (Cons x xs)
  then show ?case by (cases i) auto
qed simp

lemma serve_turn_incoming:
  "serve_turn srv jc = (t, jc') \<Longrightarrow> length (incoming jc') \<le> length (incoming jc)"
  using read_request_shrinks[of srv jc]
  by (auto simp: serve_turn_def Let_def send_response_def encode_incoming
           split: prod.splits go.splits option.splits)

lemma handler_step_incoming:
  "handler_step limit (h, sh) (h', sh') \<Longrightarrow> incoming (sh_coder sh') = incoming (sh_coder sh)"
  using handler_step_log[of limit h sh h' sh'] by (auto simp: send_response_def encode_incoming)

lemma rank_turn:
  assumes "sv_pc s = Reading"
  shows "sh_panic (sv_shared (loop_turn s)) \<noteq> None \<or> serve_rank (loop_turn s) < serve_rank s"
proof (cases rule: loop_turn_cases[of s])
  case (stopped err jc)
  then show ?thesis using assms serve_turn_incoming[OF stopped(1)] by (simp add: serve_rank_def)
next
  case (rejected hdr jc)
  then show ?thesis using assms serve_turn_shrinks[OF rejected(1)] by (simp add: serve_rank_def)
next
  case (accepted r jc)
  then show ?thesis
    using assms serve_turn_shrinks[OF accepted(1)]
    by (simp add: serve_rank_def handler_rank_def new_handler_def)
qed simp

lemma serve_step_rank:
  "serve_step limit s t \<Longrightarrow>
   sh_panic (sv_shared s) = None \<and> (sh_panic (sv_shared t) \<noteq> None \<or> serve_rank t < serve_rank s)"
proof (induction rule: serve_step.induct)
  case (handler i s h' sh')
  then show ?case
    using handler_rank_step[OF handler(2)] handler_step_incoming[OF handler(2)]
      sum_list_smaller[OF handler(1), of handler_rank h']
    by (auto simp: serve_rank_def)
next
  case (close s)
  then show ?case
    by (simp add: serve_rank_def close_coder_def jc_Close_def conn_Close_def incoming_def)
qed (use rank_turn in auto)

lemma serve_run_bound: "(serve_step limit ^^ n) s t \<Longrightarrow> n \<le> Suc (serve_rank s)"
proof (induction n arbitrary: s)
  case (Suc n)
  then obtain u where u: "serve_step limit s u" "(serve_step limit ^^ n) u t"
    by (meson relpowp_Suc_D2)
  show ?case
  proof (cases "sh_panic (sv_shared u) = None")
    case True
    then show ?thesis using serve_step_rank[OF u(1)] Suc.IH[OF u(2)] by simp
  next
    case False
    then have "\<not> serve_step limit u v" for v using serve_step_rank[of limit u v] by auto
    then have "n = 0" using u(2) by (cases n) (auto dest!: relpowp_Suc_D2 simp del: relpowp.simps)
    then show ?thesis by simp
  qed
qed simp

text \<open>The states in which nothing can move.\<close>

definition quiet :: "duration \<Rightarrow> Serving \<Rightarrow> bool" where
  "quiet limit s \<longleftrightarrow> (\<forall>t. \<not> serve_step limit s t)"

lemma quiet_handlers:
  assumes inv: "serve_inv limit s" and q: "quiet limit s" and ok: "sh_panic (sv_shared s) = None"
  shows "\<forall>h \<in> set (sv_handlers s). rh_main h = (if limit = 0 then ReturnedEarly else Finished) \<and> rh_worker h \<noteq> Calling"
proof
  fix h assume h: "h \<in> set (sv_handlers s)"
  then obtain i where i: "i < length (sv_handlers s)" "sv_handlers s ! i = h" by (auto simp: in_set_conv_nth)
  then have n: "\<not> handler_step limit (h, sv_shared s) (h', sh')" for h' sh'
    using q handler[of i s limit h' sh'] by (auto simp: quiet_def)
  have "handler_inv limit h" using inv h by (simp add: serve_inv_def list_all_iff)
  then show "rh_main h = (if limit = 0 then ReturnedEarly else Finished) \<and> rh_worker h \<noteq> Calling"
    using handler_progress[of limit h "sv_shared s"] call_step[of "sv_shared s" h limit] ok n
    by (auto simp: handler_inv_def mains_def split: if_splits)
qed

lemma quiet_end:
  assumes inv: "serve_inv limit s" and q: "quiet limit s" and ok: "sh_panic (sv_shared s) = None"
  shows "sv_pc s = (if limit = 0 \<and> sv_handlers s \<noteq> [] then Waiting else Closed)"
proof -
  have "sv_pc s \<noteq> Reading" using turn[OF ok] q by (auto simp: quiet_def)
  moreover have "sv_pc s = Waiting \<Longrightarrow> sh_wait (sv_shared s) \<noteq> 0"
    using close[OF ok] q by (auto simp: quiet_def)
  moreover have "sh_wait (sv_shared s) = 0 \<longleftrightarrow> unfinished (sv_handlers s) = 0"
    "sv_pc s = Closed \<Longrightarrow> unfinished (sv_handlers s) = 0"
    using inv by (auto simp: serve_inv_def)
  moreover have "unfinished (sv_handlers s) = 0 \<longleftrightarrow> \<not> (limit = 0 \<and> sv_handlers s \<noteq> [])"
    using quiet_handlers[OF assms] by (auto simp: unfinished_0 split: if_splits)
  ultimately show ?thesis by (cases "sv_pc s") auto
qed

text \<open>Without a limit no handler calls \<^verbatim>\<open>Done\<close>.\<close>

lemma unlimited_handler: "handler_inv 0 h \<Longrightarrow> rh_main h \<noteq> Finished"
  by (auto simp: handler_inv_def mains_def)

lemma unlimited_unfinished: "serve_inv 0 s \<Longrightarrow> unfinished (sv_handlers s) = length (sv_handlers s)"
  using unlimited_handler by (auto simp: serve_inv_def list_all_iff unfinished_def filter_id_conv
      intro!: arg_cong[of _ _ length])

subsection \<open>Properties\<close>

lemma closed_inv_answered:
  assumes "serve_inv limit s" and "sv_pc s = Closed" and "h \<in> set (sv_handlers s)"
  shows "\<exists>m. rh_sent h = [m] \<and> SequenceNumber (fst m) = SequenceNumber (req_header (rh_request h)) \<and>
    ServiceDotMethod (fst m) = ServiceDotMethod (req_header (rh_request h))"
proof -
  have "handler_inv limit h" "rh_main h = Finished"
    using assms by (auto simp: serve_inv_def list_all_iff unfinished_0)
  then have "length (rh_sent h) = 1" "list_all (answers (rh_request h)) (rh_sent h)"
    by (simp_all add: handler_inv_def)
  then show ?thesis by (auto simp: length_Suc_conv answers_def)
qed

text \<open>
  A closed connection has answered everything: when the coder has been closed, every request that
  the loop accepted has got exactly one response, with its own sequence number and method.
\<close>

theorem closed_answered_all:
  assumes "served limit srv jc s" and "sv_pc s = Closed" and "h \<in> set (sv_handlers s)"
  shows "\<exists>m. rh_sent h = [m] \<and> SequenceNumber (fst m) = SequenceNumber (req_header (rh_request h)) \<and>
    ServiceDotMethod (fst m) = ServiceDotMethod (req_header (rh_request h))"
  using closed_inv_answered[OF sc.reach_invar[OF assms(1)] assms(2,3)] .

text \<open>
  C9. With the default processing limit of 0 a connection that has carried one request is never
  closed by the server: every handler returns before it registers \<^verbatim>\<open>waitGroup.Done\<close>, so the wait
  group never reaches 0.
\<close>

theorem unlimited_connection_never_closed:
  assumes "served 0 srv jc s" and "sv_handlers s \<noteq> []" and "healthy jc"
  shows "sv_pc s \<noteq> Closed \<and> conn_open (connection (sh_coder (sv_shared s))) \<and>
    sh_wait (sv_shared s) = int (length (sv_handlers s))"
proof -
  have w: "wired 0 (sent jc) s" by (rule served_wired[OF assms(1,3)])
  then have "unfinished (sv_handlers s) = length (sv_handlers s)"
    by (intro unlimited_unfinished) (simp add: wired_def)
  with w assms(2) show ?thesis by (auto simp: wired_def serve_inv_def open_inv_def)
qed

definition sample_coder :: JsonCoder where
  "sample_coder = NewJsonCoder (sample_connection [sample_request_chunk])"

lemma sample_coder_healthy [simp]: "healthy sample_coder"
  by (simp add: sample_coder_def)

lemma served_start: "served limit srv jc (serve_start srv jc)"
  by (rule reach_init) (simp add: serve_started_def)

lemma served_step: "served limit srv jc s \<Longrightarrow> serve_step limit s t \<Longrightarrow> served limit srv jc t"
  by (rule reach_step)

lemma sample_turn_step:
  "\<exists>s. serve_step limit (serve_start sample_server sample_coder) s \<and> sv_pc s = Reading \<and>
     sv_handlers s = [new_handler sample_request] \<and> sh_panic (sv_shared s) = None \<and> sh_wait (sv_shared s) = 1 \<and>
     incoming (sh_coder (sv_shared s)) = [] \<and> healthy (sh_coder (sv_shared s)) \<and> sent (sh_coder (sv_shared s)) = [] \<and>
     sh_server (sv_shared s) = sample_server"
proof -
  let ?s0 = "serve_start sample_server sample_coder"
  obtain jc' where t: "serve_turn sample_server sample_coder = (Accepted sample_request, jc')" "incoming jc' = []" "healthy jc'"
    using sample_accepted by (auto simp: sample_coder_def sample_request_def)
  have "sent jc' = sent sample_coder" using serve_turn_wire[OF t(1)] by auto
  then have s: "sent jc' = []" by (simp add: sample_coder_def NewJsonCoder_def sample_connection_def sent_def)
  from t have e: "loop_turn ?s0 = ?s0\<lparr>sv_handlers := [new_handler sample_request],
      sv_shared := (sv_shared ?s0)\<lparr>sh_coder := jc', sh_wait := 1\<rparr>\<rparr>"
    by (simp add: loop_turn_def serve_start_def)
  have "serve_step limit ?s0 (loop_turn ?s0)" by (rule turn) (simp_all add: serve_start_def)
  then show ?thesis using e s t(2,3) by (intro exI[of _ "loop_turn ?s0"]) (simp add: serve_start_def)
qed

lemma sample_turn:
  "\<exists>s. served limit sample_server sample_coder s \<and> sv_pc s = Reading \<and> sv_handlers s = [new_handler sample_request] \<and>
     sh_panic (sv_shared s) = None \<and> sh_wait (sv_shared s) = 1 \<and> incoming (sh_coder (sv_shared s)) = [] \<and>
     sh_server (sv_shared s) = sample_server"
  using sample_turn_step[of limit] served_step[OF served_start] by blast

theorem unlimited_connection_never_closed_witness:
  "\<exists>s. served 0 sample_server sample_coder s \<and> sv_handlers s \<noteq> [] \<and> sv_pc s \<noteq> Closed \<and>
     conn_open (connection (sh_coder (sv_shared s)))"
proof -
  obtain s where "served 0 sample_server sample_coder s" "sv_handlers s = [new_handler sample_request]"
    using sample_turn[of 0] by blast
  then show ?thesis using unlimited_connection_never_closed[of sample_server sample_coder s] by auto
qed

text \<open>The method of the request, when it is called.\<close>

lemma sample_call:
  "\<exists>outp srv. call_request sample_server sample_request = (Ret (None, outp), srv) \<and>
     rv_Val outp = VPtr (VStruct [(''C'', VInt 5)]) \<and>
     (\<exists>svc m. map_of (ServiceMap srv) ''Arithmetic'' = Some svc \<and> map_of (ServiceMethod svc) ''Addition'' = Some m)"
proof -
  let ?m = "new_Method (hd arithmetic_methods)"
  have m: "map_of (ServiceMethod arithmetic_service) ''Addition'' = Some ?m"
    by (simp add: arithmetic_method) (simp add: arithmetic_methods_def suitable_def exported_or_builtin_def input_type_def output_type_def)
  let ?inp = "\<lparr>rv_Type = TPtr input_type, rv_Val = VPtr (VStruct [(''A'', VInt 2), (''B'', VInt 3)])\<rparr>"
  obtain outp svc where c: "service_Call arithmetic_service ?m ?inp (reflect_New output_type) = (Ret (None, outp), svc)"
    "rv_Val outp = VPtr (VStruct [(''C'', VInt 5)])"
    by (simp add: service_Call_def new_Method_def arithmetic_methods_def reflect_New_def Let_def)
  have "map_of (ServiceMethod svc) ''Addition'' \<noteq> None"
    using service_Call_methods[of arithmetic_service ?m ?inp "reflect_New output_type"] c(1) m
    by (auto simp: count_call_lookup new_Method_def arithmetic_methods_def)
  with c m show ?thesis
    by (auto simp: call_request_def sample_request_def sample_server_def find_method_def update_conv')
qed

text \<open>A run that serves one request, which times out, to the end.\<close>

lemma served_only_handler:
  assumes "served limit srv jc s" and "sv_handlers s = [h]" and "handler_step limit (h, sv_shared s) (h', sh')"
  shows "served limit srv jc (s\<lparr>sv_handlers := [h'], sv_shared := sh'\<rparr>)"
  using served_step[OF assms(1) handler[of 0 s limit h' sh']] assms(2,3) by simp

lemma sample_served:
  assumes "limit \<noteq> 0"
  shows "\<exists>s h. served limit sample_server sample_coder s \<and> sv_pc s = Closed \<and> sv_handlers s = [h] \<and>
    rh_main h = Finished \<and> rh_worker h = Calling \<and> rh_request h = sample_request \<and>
    sh_panic (sv_shared s) = None \<and> sh_server (sv_shared s) = sample_server"
proof -
  let ?srv = sample_server and ?jc = sample_coder
  obtain s where s: "served limit ?srv ?jc s" "sv_pc s = Reading" "sv_handlers s = [new_handler sample_request]"
    "sh_panic (sv_shared s) = None" "sh_wait (sv_shared s) = 1" "incoming (sh_coder (sv_shared s)) = []"
    "sh_server (sv_shared s) = sample_server"
    using sample_turn by blast
  let ?h = "new_handler sample_request" and ?sh = "sv_shared s"
  let ?hdr = "timeout_header (sh_server ?sh) sample_request"
  let ?h1 = "?h\<lparr>rh_main := Selecting\<rparr>" and ?h2 = "?h\<lparr>rh_main := TimingOut\<rparr>"
  let ?h3 = "?h\<lparr>rh_main := Leaving, rh_sent := [(?hdr, invalidRequest)]\<rparr>"
  let ?h4 = "?h\<lparr>rh_main := Finished, rh_sent := [(?hdr, invalidRequest)]\<rparr>"
  let ?sh3 = "respond ?hdr invalidRequest ?sh"
  let ?sh4 = "?sh3\<lparr>sh_wait := sh_wait ?sh3 - 1\<rparr>"
  have "handler_step limit (?h, ?sh) (?h1, ?sh)" using enter[of ?sh ?h limit] assms s by (simp add: new_handler_def)
  with s have "served limit ?srv ?jc (s\<lparr>sv_handlers := [?h1]\<rparr>)"
    using served_only_handler[OF s(1,3)] by force
  moreover have "handler_step limit (?h1, ?sh) (?h2, ?sh)"
    using time_out[of ?sh ?h1 limit] s by (simp add: new_handler_def)
  ultimately have "served limit ?srv ?jc (s\<lparr>sv_handlers := [?h2]\<rparr>)"
    using served_only_handler[of ?srv ?jc limit "s\<lparr>sv_handlers := [?h1]\<rparr>" ?h1 ?h2 ?sh] by simp
  moreover have "handler_step limit (?h2, ?sh) (?h3, ?sh3)"
    using send_time_out[of ?sh ?h2 ?hdr limit] s by (simp add: new_handler_def)
  ultimately have "served limit ?srv ?jc (s\<lparr>sv_handlers := [?h3], sv_shared := ?sh3\<rparr>)"
    using served_only_handler[of ?srv ?jc limit "s\<lparr>sv_handlers := [?h2]\<rparr>" ?h2 ?h3 ?sh3] by simp
  moreover have "handler_step limit (?h3, ?sh3) (?h4, ?sh4)"
    using done_[of ?sh3 ?h3 limit] s by (simp add: new_handler_def respond_def)
  ultimately have "served limit ?srv ?jc (s\<lparr>sv_handlers := [?h4], sv_shared := ?sh4\<rparr>)" (is "served _ _ _ ?s4")
    using served_only_handler[of ?srv ?jc limit "s\<lparr>sv_handlers := [?h3], sv_shared := ?sh3\<rparr>" ?h3 ?h4 ?sh4] by simp
  moreover have p: "sh_panic ?sh4 = None" "sh_wait ?sh4 = 0" "incoming (sh_coder ?sh4) = []"
    using s by (simp_all add: respond_def send_response_def encode_incoming)
  then have "serve_step limit ?s4 (loop_turn ?s4)" using turn[of ?s4 limit] s(2) by simp
  ultimately have l: "served limit ?srv ?jc (loop_turn ?s4)" by (rule served_step)
  obtain e jc1 where "serve_turn (sh_server ?sh4) (sh_coder ?sh4) = (Stopped e, jc1)"
    using decode_header_end[OF p(3), of empty_header] by (auto simp: serve_turn_def read_request_def read_header_def)
  then have e: "loop_turn ?s4 = ?s4\<lparr>sv_pc := Waiting, sv_shared := ?sh4\<lparr>sh_coder := jc1\<rparr>\<rparr>"
    by (simp add: loop_turn_def)
  have "serve_step limit (loop_turn ?s4) (close_coder (loop_turn ?s4))"
    unfolding e using p by (intro close) simp_all
  from served_step[OF l this] show ?thesis
    unfolding e by (intro exI[of _ "close_coder (?s4\<lparr>sv_pc := Waiting, sv_shared := ?sh4\<lparr>sh_coder := jc1\<rparr>\<rparr>)"])
      (use s in \<open>simp add: close_coder_def new_handler_def respond_def\<close>)
qed

text \<open>The same run after the method has been called, too late: nothing can move any more.\<close>

lemma sample_quiet:
  assumes "limit \<noteq> 0"
  shows "\<exists>s h. served limit sample_server sample_coder s \<and> quiet limit s \<and> sh_panic (sv_shared s) = None \<and> sv_handlers s = [h]"
proof -
  obtain s h where s: "served limit sample_server sample_coder s" "sv_pc s = Closed" "sv_handlers s = [h]"
    "rh_main h = Finished" "rh_worker h = Calling" "rh_request h = sample_request" "sh_panic (sv_shared s) = None"
    "sh_server (sv_shared s) = sample_server"
    using sample_served[OF assms] by blast
  obtain outp srv where c: "call_request sample_server sample_request = (Ret (None, outp), srv)" using sample_call by blast
  let ?h = "h\<lparr>rh_worker := CallDone None, rh_request := sample_request\<lparr>req_output := Some outp\<rparr>\<rparr>"
  let ?s = "s\<lparr>sv_handlers := [?h], sv_shared := (sv_shared s)\<lparr>sh_server := srv\<rparr>\<rparr>"
  have "handler_step limit (h, sv_shared s) (?h, (sv_shared s)\<lparr>sh_server := srv\<rparr>)"
    using call[of "sv_shared s" h None outp srv limit] s c by simp
  then have r: "served limit sample_server sample_coder ?s" using served_only_handler[OF s(1,3)] by blast
  have "\<not> handler_step limit (?h, (sv_shared s)\<lparr>sh_server := srv\<rparr>) (h', sh')" for h' sh'
    using s(4) by (auto elim: handler_step.cases)
  then have "\<not> serve_step limit ?s t" for t
    using s(2) by (auto elim!: serve_step.cases)
  then have "quiet limit ?s" by (simp add: quiet_def)
  with r s(7) show ?thesis by (intro exI[of _ ?s] exI[of _ ?h]) simp
qed

theorem closed_answered_all_witness:
  "\<exists>s h. served time_Second sample_server sample_coder s \<and> sv_pc s = Closed \<and> sv_handlers s = [h] \<and> length (rh_sent h) = 1"
proof -
  obtain s h where s: "served time_Second sample_server sample_coder s" "sv_pc s = Closed" "sv_handlers s = [h]"
    using sample_served[of time_Second] by (auto simp: time_defs)
  then show ?thesis using closed_answered_all[OF s(1,2), of h] by auto
qed

text \<open>
  C14. Serving a connection terminates: whatever the interleaving of the loop and the handlers, a run
  has at most ten steps for every value received and three more.
\<close>

theorem serving_terminates:
  assumes "(serve_step limit ^^ n) (serve_start srv jc) t"
  shows "n \<le> 10 * length (incoming jc) + 3"
  using serve_run_bound[OF assms] by (simp add: serve_rank_def serve_start_def)

theorem serving_terminates_witness:
  "(serve_step 0 ^^ 1) (serve_start sample_server sample_coder) (loop_turn (serve_start sample_server sample_coder)) \<and>
   (1::nat) \<le> 10 * length (incoming sample_coder) + 3"
proof -
  have "serve_step 0 (serve_start sample_server sample_coder) (loop_turn (serve_start sample_server sample_coder))"
    by (rule turn) (simp_all add: serve_start_def)
  then have "(serve_step 0 ^^ 1) (serve_start sample_server sample_coder) (loop_turn (serve_start sample_server sample_coder))"
    by (simp only: relpowp_1)
  then show ?thesis using serving_terminates by blast
qed

text \<open>
  C13. Where a run ends: when nothing can move any more and no method panicked, the connection is
  closed, except with no processing limit after a request has been accepted: then the loop waits for
  ever although all handlers have returned.
\<close>

theorem serving_ends:
  assumes "served limit srv jc s" and "\<And>t. \<not> serve_step limit s t" and "sh_panic (sv_shared s) = None"
  shows "sv_pc s = (if limit = 0 \<and> sv_handlers s \<noteq> [] then Waiting else Closed) \<and>
    (\<forall>h \<in> set (sv_handlers s). rh_main h = (if limit = 0 then ReturnedEarly else Finished))"
proof -
  have inv: "serve_inv limit s" using sc.reach_invar[OF assms(1)] .
  have q: "quiet limit s" using assms(2) by (simp add: quiet_def)
  show ?thesis using quiet_end[OF inv q assms(3)] quiet_handlers[OF inv q assms(3)] by simp
qed

lemma run_to_quiet: "\<exists>t. (serve_step limit)\<^sup>*\<^sup>* s t \<and> quiet limit t"
proof (rule ccontr)
  assume n: "\<nexists>t. (serve_step limit)\<^sup>*\<^sup>* s t \<and> quiet limit t"
  have "\<exists>t. (serve_step limit ^^ k) s t" for k
  proof (induction k)
    case (Suc k)
    then obtain t where t: "(serve_step limit ^^ k) s t" by blast
    then have "\<not> quiet limit t" using n by (meson relpowp_imp_rtranclp)
    then show ?case using t by (auto simp: quiet_def)
  qed auto
  then obtain t where "(serve_step limit ^^ Suc (Suc (serve_rank s))) s t" by blast
  from serve_run_bound[OF this] show False by simp
qed

theorem serving_ends_witness:
  "\<exists>s h. served time_Second sample_server sample_coder s \<and> sv_handlers s = [h] \<and> sv_pc s = Closed \<and> rh_main h = Finished"
proof -
  have "time_Second \<noteq> 0" by (simp add: time_defs)
  then obtain s h where s: "served time_Second sample_server sample_coder s" "quiet time_Second s"
    "sh_panic (sv_shared s) = None" "sv_handlers s = [h]"
    using sample_quiet by blast
  have "\<not> serve_step time_Second s t" for t using s(2) by (simp add: quiet_def)
  from serving_ends[OF s(1) this s(3)] show ?thesis using s(1,4) \<open>time_Second \<noteq> 0\<close> by auto
qed

end
