(* ===== verification/Client.thy ===== *)
theory Client
  imports Server "HOL-Library.Multiset"
begin

text \<open>
  Package client, the operations of a client one at a time: the table of pending calls, sending,
  receiving, closing and shutting down. Their interleaving is in \<open>Client_Calls\<close>.
\<close>

subsection \<open>State\<close>

text \<open>
  Pointers to calls are positions in \<open>heap\<close>. The channel of a call is its capacity and the queue
  of the pointers that it holds; nothing but the call's own \<^verbatim>\<open>finishCall\<close> sends on it.
  \<open>call_Output\<close> is the pointer that the caller passed (\<open>None\<close> for nil), with what it points to.
\<close>

record Call =
  call_SequenceNumber :: "64 word"
  call_ServiceDotMethod :: string
  call_Inputs :: go_value
  call_Output :: "reflect_value option"
  call_Error :: "go_error option"
  call_Finish :: "nat \<times> nat list"

record Client =
  cl_coder :: JsonCoder
  cl_connectionInfo :: ConnectionInfo
  requestHeader :: MessageHeader
  sequenceNumber :: "64 word"
  pendingCalls :: "(64 word, nat) dict"
  clientAddress :: string
  isClosed :: bool
  isShutdown :: bool
  heap :: "Call list"

text \<open>The client that \<^verbatim>\<open>CreateClient\<close> returns for its coder (see \<open>Dial\<close>).\<close>

definition new_Client :: "JsonCoder \<Rightarrow> ConnectionInfo \<Rightarrow> string \<Rightarrow> Client" where
  "new_Client jc info addr =
     \<lparr>cl_coder = jc, cl_connectionInfo = info, requestHeader = empty_header, sequenceNumber = 1,
      pendingCalls = [], clientAddress = addr, isClosed = False, isShutdown = False, heap = []\<rparr>"

definition update_call :: "nat \<Rightarrow> (Call \<Rightarrow> Call) \<Rightarrow> Client \<Rightarrow> Client" where
  "update_call i f c = c\<lparr>heap := (heap c)[i := f (heap c ! i)]\<rparr>"

subsection \<open>Closing and availability\<close>

definition client_Close :: "Client \<Rightarrow> go_error option \<times> Client" where
  "client_Close c =
     (if isClosed c then (Some AlreadyClosed, c)
      else (let (e, jc) = jc_Close (cl_coder c)
            in (map_option LibError e, c\<lparr>isClosed := True, cl_coder := jc\<rparr>)))"

definition IsAvailable :: "Client \<Rightarrow> bool" where
  "IsAvailable c = (\<not> isShutdown c \<and> \<not> isClosed c)"

subsection \<open>The table of pending calls\<close>

definition addCall :: "nat \<Rightarrow> Client \<Rightarrow> (go_error + 64 word) \<times> Client" where
  "addCall i c =
     (if isClosed c then (Inl ClientClosed, c)
      else if isShutdown c then (Inl ClientShutdown, c)
      else (let seq = sequenceNumber c;
                c1 = update_call i (\<lambda>call. call\<lparr>call_SequenceNumber := seq\<rparr>) c
            in (Inr seq, c1\<lparr>pendingCalls := AList.update seq i (pendingCalls c), sequenceNumber := seq + 1\<rparr>)))"

definition deleteCall :: "64 word \<Rightarrow> Client \<Rightarrow> nat option \<times> Client" where
  "deleteCall seq c = (map_of (pendingCalls c) seq, c\<lparr>pendingCalls := AList.delete seq (pendingCalls c)\<rparr>)"

text \<open>A send on the channel of the call; it blocks (\<open>None\<close>) when the channel is full.\<close>

definition finishCall :: "nat \<Rightarrow> Client \<Rightarrow> Client option" where
  "finishCall i c =
     (let (cap, queue) = call_Finish (heap c ! i)
      in if length queue < cap then Some (update_call i (\<lambda>call. call\<lparr>call_Finish := (cap, queue @ [i])\<rparr>) c)
         else None)"

definition fail_call :: "go_error \<Rightarrow> nat \<Rightarrow> Client \<Rightarrow> Client option" where
  "fail_call err i c = finishCall i (update_call i (\<lambda>call. call\<lparr>call_Error := Some err\<rparr>) c)"

fun fail_calls :: "go_error \<Rightarrow> nat list \<Rightarrow> Client \<Rightarrow> Client option" where
  "fail_calls err [] c = Some c"
| "fail_calls err (i # is) c = Option.bind (fail_call err i c) (fail_calls err is)"

definition terminateCalls :: "go_error \<Rightarrow> Client \<Rightarrow> Client option" where
  "terminateCalls err c = fail_calls err (map snd (pendingCalls c)) (c\<lparr>isShutdown := True\<rparr>)"

text \<open>
  The order in which \<^verbatim>\<open>range\<close> visits the pending calls does not matter: failing one call and failing
  another commute, so every order of the table gives the same client, or blocks.
\<close>

lemma fail_call_unfold:
  "fail_call err i c =
     (case call_Finish (heap c ! i) of (cap, queue) \<Rightarrow>
        if length queue < cap
        then Some (c\<lparr>heap := (heap c)[i := (heap c ! i)\<lparr>call_Error := Some err, call_Finish := (cap, queue @ [i])\<rparr>]\<rparr>)
        else None)"
  by (cases "i < length (heap c)")
    (simp_all add: fail_call_def finishCall_def update_call_def list_update_beyond split: prod.split)

lemma fail_call_commute:
  "Option.bind (fail_call err i c) (fail_call err j) = Option.bind (fail_call err j c) (fail_call err i)"
  by (cases "i = j") (auto simp: fail_call_unfold list_update_swap split: prod.split)

lemma fail_calls_first:
  "Option.bind (fail_calls err is c) (fail_call err i) = Option.bind (fail_call err i c) (fail_calls err is)"
proof (induction "is" arbitrary: c)
  case (Cons j "is")
  have "Option.bind (fail_calls err (j # is) c) (fail_call err i) =
      Option.bind (Option.bind (fail_call err j c) (fail_call err i)) (fail_calls err is)"
    using Cons.IH by simp
  also have "\<dots> = Option.bind (Option.bind (fail_call err i c) (fail_call err j)) (fail_calls err is)"
    by (simp only: fail_call_commute)
  finally show ?case by simp
next
  case Nil
  show ?case by (cases "fail_call err i c") simp_all
qed

lemma fail_calls_append: "fail_calls err (is @ js) c = Option.bind (fail_calls err is c) (fail_calls err js)"
  by (induction err "is" c rule: fail_calls.induct) (auto split: bind_split)

lemma fail_calls_mset: "mset is = mset js \<Longrightarrow> fail_calls err is c = fail_calls err js c"
proof (induction "is" arbitrary: js c)
  case (Cons i "is")
  then obtain ks ls where js: "js = ks @ i # ls" by (metis list.set_intros(1) mset_eq_setD split_list)
  then have "mset is = mset (ks @ ls)" using Cons.prems by simp
  from Cons.IH[OF this] have "fail_calls err (i # is) c = Option.bind (fail_call err i c) (fail_calls err (ks @ ls))"
    by (cases "fail_call err i c") simp_all
  also have "\<dots> = Option.bind (Option.bind (fail_call err i c) (fail_calls err ks)) (fail_calls err ls)"
    by (cases "fail_call err i c") (simp_all add: fail_calls_append)
  also have "\<dots> = Option.bind (Option.bind (fail_calls err ks c) (fail_call err i)) (fail_calls err ls)"
    by (simp only: fail_calls_first)
  also have "\<dots> = fail_calls err js c"
    by (cases "fail_calls err ks c") (simp_all add: js fail_calls_append)
  finally show ?case .
qed simp

lemma fail_calls_table:
  "fail_calls err is (c\<lparr>pendingCalls := ps\<rparr>) = map_option (pendingCalls_update (\<lambda>_. ps)) (fail_calls err is c)"
proof (induction err "is" c rule: fail_calls.induct)
  case (2 err i "is" c)
  have "fail_call err i (c\<lparr>pendingCalls := ps\<rparr>) = map_option (pendingCalls_update (\<lambda>_. ps)) (fail_call err i c)"
    by (simp add: fail_call_unfold split: prod.split)
  then show ?case using 2 by (cases "fail_call err i c") simp_all
qed simp


subsection \<open>Sending\<close>

text \<open>
  \<^verbatim>\<open>sendCall\<close> in its three parts: adding the call, encoding it, and taking it back when it cannot
  be encoded. A part that ends the function returns \<open>Inl\<close>.
\<close>

definition send_add :: "nat \<Rightarrow> Client \<Rightarrow> (Client option, 64 word \<times> Client) sum" where
  "send_add i c =
     (case addCall i c of
        (Inl err, c1) \<Rightarrow> Inl (fail_call err i c1)
      | (Inr seq, c1) \<Rightarrow> Inr (seq, c1))"

definition send_encode :: "nat \<Rightarrow> 64 word \<Rightarrow> Client \<Rightarrow> lib_error option \<times> Client" where
  "send_encode i seq c =
     (let h = (requestHeader c)\<lparr>ServiceDotMethod := call_ServiceDotMethod (heap c ! i),
                                SequenceNumber := seq, Error := []\<rparr>;
          (e, jc) = jc_EncodeMessageHeaderAndBody (cl_coder c) h (call_Inputs (heap c ! i))
      in (e, c\<lparr>requestHeader := h, cl_coder := jc\<rparr>))"

definition send_undo :: "lib_error \<Rightarrow> 64 word \<Rightarrow> Client \<Rightarrow> Client option" where
  "send_undo e seq c =
     (case deleteCall seq c of
        (Some i, c1) \<Rightarrow> fail_call (LibError e) i c1
      | (None, c1) \<Rightarrow> Some c1)"

definition sendCall :: "nat \<Rightarrow> Client \<Rightarrow> Client option" where
  "sendCall i c =
     (case send_add i c of
        Inl r \<Rightarrow> r
      | Inr (seq, c1) \<Rightarrow>
          (case send_encode i seq c1 of
             (None, c2) \<Rightarrow> Some c2
           | (Some e, c2) \<Rightarrow> send_undo e seq c2))"

text \<open>The capacity of the channel that the caller passes; none for a nil channel.\<close>

definition new_call :: "string \<Rightarrow> go_value \<Rightarrow> reflect_value option \<Rightarrow> nat \<Rightarrow> Call" where
  "new_call serviceDotMethod inputs output cap =
     \<lparr>call_SequenceNumber = 0, call_ServiceDotMethod = serviceDotMethod, call_Inputs = inputs,
      call_Output = output, call_Error = None, call_Finish = (cap, [])\<rparr>"

definition startCall ::
  "string \<Rightarrow> go_value \<Rightarrow> reflect_value option \<Rightarrow> nat option \<Rightarrow> Client \<Rightarrow> (nat \<times> Client option) go" where
  "startCall serviceDotMethod inputs output finish c =
     (if finish = Some 0 then Panic LogPanic
      else (let cap = (case finish of None \<Rightarrow> 10 | Some n \<Rightarrow> n);
                i = length (heap c);
                c1 = c\<lparr>heap := heap c @ [new_call serviceDotMethod inputs output cap]\<rparr>
            in Ret (i, sendCall i c1)))"

text \<open>The two branches of the select of \<^verbatim>\<open>Call\<close>.\<close>

definition call_canceled :: "lib_error \<Rightarrow> nat \<Rightarrow> Client \<Rightarrow> go_error option \<times> Client" where
  "call_canceled ctx_err i c =
     (Some (ContextError ctx_err), snd (deleteCall (call_SequenceNumber (heap c ! i)) c))"

definition call_finished :: "nat \<Rightarrow> Client \<Rightarrow> (go_error option \<times> Client) option" where
  "call_finished i c =
     (case call_Finish (heap c ! i) of
        (cap, j # queue) \<Rightarrow>
          Some (call_Error (heap c ! j), update_call i (\<lambda>call. call\<lparr>call_Finish := (cap, queue)\<rparr>) c)
      | (cap, []) \<Rightarrow> None)"

subsection \<open>Receiving\<close>

text \<open>
  A turn of \<^verbatim>\<open>receiveCall\<close> in its three parts: the header, the call that is taken out of the table,
  the body. \<open>ResponseError s\<close> is an error with the text \<open>s\<close>; the text of the response is not that text
  but the format that \<^verbatim>\<open>fmt.Errorf\<close> makes it from.
\<close>

definition receive_header :: "Client \<Rightarrow> (lib_error + MessageHeader) \<times> Client" where
  "receive_header c =
     (case jc_DecodeMessageHeader (cl_coder c) empty_header of
        ((Some e, h), jc) \<Rightarrow> (Inl e, c\<lparr>cl_coder := jc\<rparr>)
      | ((None, h), jc) \<Rightarrow> (Inr h, c\<lparr>cl_coder := jc\<rparr>))"

definition receive_body :: "MessageHeader \<Rightarrow> nat option \<Rightarrow> Client \<Rightarrow> (lib_error option \<times> Client) option" where
  "receive_body response call c =
     (case call of
        None \<Rightarrow>
          (let ((e, b), jc) = jc_DecodeMessageBody (cl_coder c) None in Some (e, c\<lparr>cl_coder := jc\<rparr>))
      | Some i \<Rightarrow>
          (if Error response \<noteq> [] then
             (let c1 = update_call i (\<lambda>call. call\<lparr>call_Error := Some (ResponseError (fmt_Errorf (Error response)))\<rparr>) c;
                  ((e, b), jc) = jc_DecodeMessageBody (cl_coder c1) None
              in map_option (Pair e) (finishCall i (c1\<lparr>cl_coder := jc\<rparr>)))
           else
             (let ((e, b), jc) = jc_DecodeMessageBody (cl_coder c) (call_Output (heap c ! i));
                  c1 = update_call i (\<lambda>call. call\<lparr>call_Output := b\<rparr>) (c\<lparr>cl_coder := jc\<rparr>);
                  c2 = (case e of None \<Rightarrow> c1
                        | Some err \<Rightarrow>
                            update_call i (\<lambda>call. call\<lparr>call_Error := Some (BodyDecodeError (LibError err))\<rparr>) c1)
              in map_option (Pair e) (finishCall i c2))))"

definition receive_turn :: "Client \<Rightarrow> (lib_error option \<times> Client) option" where
  "receive_turn c =
     (case receive_header c of
        (Inl e, c1) \<Rightarrow> Some (Some e, c1)
      | (Inr response, c1) \<Rightarrow>
          (case deleteCall (SequenceNumber response) c1 of
             (call, c2) \<Rightarrow> receive_body response call c2))"

lemma receive_turn_shrinks:
  "receive_turn c = Some (None, c') \<Longrightarrow> length (incoming (cl_coder c')) < length (incoming (cl_coder c))"
proof -
  assume r: "receive_turn c = Some (None, c')"
  obtain e h jc1 where h: "jc_DecodeMessageHeader (cl_coder c) empty_header = ((e, h), jc1)"
    by (cases "jc_DecodeMessageHeader (cl_coder c) empty_header") auto
  have b: "jc_DecodeMessageBody jc1 t = ((e', t'), jc2) \<Longrightarrow> length (incoming jc2) \<le> length (incoming jc1)"
    for t e' t' jc2 by (rule body_shrinks)
  show ?thesis
    using r h header_shrinks[OF h]
    by (auto simp: receive_turn_def receive_header_def receive_body_def deleteCall_def finishCall_def
        update_call_def Let_def split: option.splits prod.splits if_splits dest!: b)
qed

text \<open>The loop until its first error, and the shutdown, when nothing else uses the client.\<close>

function receiveCall :: "Client \<Rightarrow> Client option" where
  "receiveCall c =
     (case receive_turn c of
        None \<Rightarrow> None
      | Some (Some e, c1) \<Rightarrow> terminateCalls (LibError e) c1
      | Some (None, c1) \<Rightarrow> receiveCall c1)"
  by pat_completeness auto
termination
  by (relation "measure (\<lambda>c. length (incoming (cl_coder c)))") (auto dest: receive_turn_shrinks)

declare receiveCall.simps [simp del]

lemmas client_defs [op_defs] = client_Close_def addCall_def deleteCall_def update_call_def
  call_canceled_def send_encode_def

subsection \<open>Sending and receiving, by case\<close>

text \<open>A call that can be sent: its message is appended, and it is in the table under its number.\<close>

lemma sendCall_ok:
  assumes "healthy (cl_coder c)" and "IsAvailable c" and "i < length (heap c)"
    and "marshal (call_Inputs (heap c ! i)) = Some j"
  shows "\<exists>c'. sendCall i c = Some c' \<and> healthy (cl_coder c') \<and>
     sent (cl_coder c') = sent (cl_coder c) @
       [header_json \<lparr>ServiceDotMethod = call_ServiceDotMethod (heap c ! i),
          SequenceNumber = sequenceNumber c, Error = []\<rparr>, j] \<and>
     incoming (cl_coder c') = incoming (cl_coder c) \<and>
     pendingCalls c' = AList.update (sequenceNumber c) i (pendingCalls c) \<and>
     sequenceNumber c' = sequenceNumber c + 1 \<and> isClosed c' = isClosed c \<and> isShutdown c' = isShutdown c \<and>
     heap c' = (heap c)[i := (heap c ! i)\<lparr>call_SequenceNumber := sequenceNumber c\<rparr>]"
proof -
  define h where "h = \<lparr>ServiceDotMethod = call_ServiceDotMethod (heap c ! i),
      SequenceNumber = sequenceNumber c, Error = []\<rparr>"
  have h': "(requestHeader c)\<lparr>ServiceDotMethod := call_ServiceDotMethod (heap c ! i),
      SequenceNumber := sequenceNumber c, Error := []\<rparr> = h"
    by (simp add: h_def)
  obtain jc where "jc_EncodeMessageHeaderAndBody (cl_coder c) h (call_Inputs (heap c ! i)) = (None, jc)"
    "healthy jc" "sent jc = sent (cl_coder c) @ [header_json h, j]" "incoming jc = incoming (cl_coder c)"
    using encode_ok[OF assms(1,4), of h] by blast
  with assms h' show ?thesis
    unfolding h_def[symmetric]
    by (simp add: sendCall_def send_add_def addCall_def send_encode_def IsAvailable_def update_call_def Let_def)
qed

text \<open>A call on a client that is closed or shut down gets its error at once, and nothing is sent.\<close>

lemma sendCall_unavailable:
  assumes "\<not> IsAvailable c" and "i < length (heap c)" and "call_Finish (heap c ! i) = (Suc n, [])"
  shows "sendCall i c = Some (c\<lparr>heap := (heap c)[i := (heap c ! i)
     \<lparr>call_Error := Some (if isClosed c then ClientClosed else ClientShutdown), call_Finish := (Suc n, [i])\<rparr>]\<rparr>)"
  using assms
  by (auto simp: sendCall_def send_add_def addCall_def IsAvailable_def fail_call_def finishCall_def
      update_call_def Let_def)

text \<open>A response without an error: the body goes into the output of the call with its number.\<close>

lemma receive_turn_ok:
  assumes "conn_open (connection (cl_coder c))" and "incoming (cl_coder c) = header_json h # j # w"
    and "Error h = []" and "map_of (pendingCalls c) (SequenceNumber h) = Some i" and "i < length (heap c)"
    and "call_Output (heap c ! i) = Some \<lparr>rv_Type = TPtr t, rv_Val = VPtr v\<rparr>" and "unmarshal t j v = (u, False)"
    and "call_Finish (heap c ! i) = (Suc n, [])"
  shows "\<exists>c'. receive_turn c = Some (None, c') \<and> incoming (cl_coder c') = w \<and>
     sent (cl_coder c') = sent (cl_coder c) \<and> healthy (cl_coder c') = healthy (cl_coder c) \<and>
     pendingCalls c' = AList.delete (SequenceNumber h) (pendingCalls c) \<and>
     heap c' = (heap c)[i := (heap c ! i)
       \<lparr>call_Output := Some \<lparr>rv_Type = TPtr t, rv_Val = VPtr u\<rparr>, call_Finish := (Suc n, [i])\<rparr>]"
proof -
  obtain jc1 where jc1: "jc_DecodeMessageHeader (cl_coder c) empty_header = ((None, received_header h), jc1)"
    "incoming jc1 = j # w" "sent jc1 = sent (cl_coder c)" "healthy jc1 = healthy (cl_coder c)" "conn_open (connection jc1)"
    using decode_header_next[OF assms(1,2)] by blast
  obtain jc2 where "jc_DecodeMessageBody jc1 (Some \<lparr>rv_Type = TPtr t, rv_Val = VPtr v\<rparr>) =
      ((None, Some \<lparr>rv_Type = TPtr t, rv_Val = VPtr u\<rparr>), jc2)"
    "incoming jc2 = w" "sent jc2 = sent jc1" "healthy jc2 = healthy jc1"
    using decode_body_next[OF jc1(5,2) assms(7)] by auto
  with jc1 assms(3-6,8) show ?thesis
    by (simp add: receive_turn_def receive_header_def deleteCall_def receive_body_def finishCall_def
        update_call_def Let_def)
qed

text \<open>
  A response with an error, or to a call that is no longer in the table: the body is decoded into
  nil, which package json rejects, so the turn ends with an error of its own.
\<close>

lemma receive_turn_dropped:
  assumes "conn_open (connection (cl_coder c))" and "incoming (cl_coder c) = header_json h # j # w"
  shows "map_of (pendingCalls c) (SequenceNumber h) = None \<Longrightarrow>
      \<exists>c'. receive_turn c = Some (Some JsonInvalidTarget, c') \<and> heap c' = heap c \<and>
        pendingCalls c' = AList.delete (SequenceNumber h) (pendingCalls c) \<and> incoming (cl_coder c') = w"
    and "map_of (pendingCalls c) (SequenceNumber h) = Some i \<Longrightarrow> Error h \<noteq> [] \<Longrightarrow> i < length (heap c) \<Longrightarrow>
      call_Finish (heap c ! i) = (Suc n, []) \<Longrightarrow>
      \<exists>c'. receive_turn c = Some (Some JsonInvalidTarget, c') \<and>
        pendingCalls c' = AList.delete (SequenceNumber h) (pendingCalls c) \<and> incoming (cl_coder c') = w \<and>
        heap c' = (heap c)[i := (heap c ! i)
          \<lparr>call_Error := Some (ResponseError (fmt_Errorf (utf8_repair (Error h)))), call_Finish := (Suc n, [i])\<rparr>]"
proof -
  obtain jc1 where jc1: "jc_DecodeMessageHeader (cl_coder c) empty_header = ((None, received_header h), jc1)"
    "incoming jc1 = j # w" "conn_open (connection jc1)"
    using decode_header_next[OF assms] by blast
  obtain jc2 where jc2: "jc_DecodeMessageBody jc1 None = ((Some JsonInvalidTarget, None), jc2)" "incoming jc2 = w"
    using decode_nil_next[OF jc1(3,2)] by blast
  note d = receive_turn_def receive_header_def deleteCall_def receive_body_def finishCall_def update_call_def Let_def
  show "map_of (pendingCalls c) (SequenceNumber h) = None \<Longrightarrow>
      \<exists>c'. receive_turn c = Some (Some JsonInvalidTarget, c') \<and> heap c' = heap c \<and>
        pendingCalls c' = AList.delete (SequenceNumber h) (pendingCalls c) \<and> incoming (cl_coder c') = w"
    using jc1 jc2 by (simp add: d)
  show "map_of (pendingCalls c) (SequenceNumber h) = Some i \<Longrightarrow> Error h \<noteq> [] \<Longrightarrow> i < length (heap c) \<Longrightarrow>
      call_Finish (heap c ! i) = (Suc n, []) \<Longrightarrow>
      \<exists>c'. receive_turn c = Some (Some JsonInvalidTarget, c') \<and>
        pendingCalls c' = AList.delete (SequenceNumber h) (pendingCalls c) \<and> incoming (cl_coder c') = w \<and>
        heap c' = (heap c)[i := (heap c ! i)
          \<lparr>call_Error := Some (ResponseError (fmt_Errorf (utf8_repair (Error h)))), call_Finish := (Suc n, [i])\<rparr>]"
    using jc1 jc2 by (simp add: d)
qed


end
