(* ===== verification/Client_Calls.thy ===== *)
theory Client_Calls
  imports Client
begin

text \<open>
  The goroutines of a client: any number of callers of \<^verbatim>\<open>Call\<close>, the receiver that
  \<^verbatim>\<open>CreateClient\<close> starts, and \<^verbatim>\<open>Close\<close>. Each step is what its goroutine does between two points
  at which another goroutine can interfere: one critical section of \<^verbatim>\<open>entityMutex\<close>, one use of the
  coder, one channel operation. \<open>cc_lock\<close> is the caller that holds \<^verbatim>\<open>requestMutex\<close>.
\<close>

subsection \<open>Steps\<close>

datatype caller_pc =
    CSending
  | CEncoding "64 word"
  | CUndoing "64 word" lib_error
  | CWaiting
  | CReturned "go_error option"

datatype receiver_pc =
    RHeader
  | RMatch MessageHeader
  | RBody MessageHeader "nat option"
  | RTerminate lib_error
  | RDone

record Calls =
  cc_client :: Client
  cc_lock :: "nat option"
  cc_callers :: "caller_pc list"
  cc_receiver :: receiver_pc

inductive calls_step :: "Calls \<Rightarrow> Calls \<Rightarrow> bool" where
  start: "calls_step s (s\<lparr>cc_callers := cc_callers s @ [CSending],
      cc_client := (cc_client s)\<lparr>heap := heap (cc_client s) @ [new_call serviceDotMethod inputs output 1]\<rparr>\<rparr>)"
| refuse: "i < length (cc_callers s) \<Longrightarrow> cc_callers s ! i = CSending \<Longrightarrow> cc_lock s = None \<Longrightarrow>
    send_add i (cc_client s) = Inl (Some c') \<Longrightarrow>
    calls_step s (s\<lparr>cc_client := c', cc_callers := (cc_callers s)[i := CWaiting]\<rparr>)"
| add: "i < length (cc_callers s) \<Longrightarrow> cc_callers s ! i = CSending \<Longrightarrow> cc_lock s = None \<Longrightarrow>
    send_add i (cc_client s) = Inr (seq, c') \<Longrightarrow>
    calls_step s (s\<lparr>cc_client := c', cc_lock := Some i, cc_callers := (cc_callers s)[i := CEncoding seq]\<rparr>)"
| encoded: "i < length (cc_callers s) \<Longrightarrow> cc_callers s ! i = CEncoding seq \<Longrightarrow>
    send_encode i seq (cc_client s) = (None, c') \<Longrightarrow>
    calls_step s (s\<lparr>cc_client := c', cc_lock := None, cc_callers := (cc_callers s)[i := CWaiting]\<rparr>)"
| not_encoded: "i < length (cc_callers s) \<Longrightarrow> cc_callers s ! i = CEncoding seq \<Longrightarrow>
    send_encode i seq (cc_client s) = (Some e, c') \<Longrightarrow>
    calls_step s (s\<lparr>cc_client := c', cc_callers := (cc_callers s)[i := CUndoing seq e]\<rparr>)"
| undo: "i < length (cc_callers s) \<Longrightarrow> cc_callers s ! i = CUndoing seq e \<Longrightarrow>
    send_undo e seq (cc_client s) = Some c' \<Longrightarrow>
    calls_step s (s\<lparr>cc_client := c', cc_lock := None, cc_callers := (cc_callers s)[i := CWaiting]\<rparr>)"
| cancel: "i < length (cc_callers s) \<Longrightarrow> cc_callers s ! i = CWaiting \<Longrightarrow>
    call_canceled ctx_err i (cc_client s) = (r, c') \<Longrightarrow>
    calls_step s (s\<lparr>cc_client := c', cc_callers := (cc_callers s)[i := CReturned r]\<rparr>)"
| finish: "i < length (cc_callers s) \<Longrightarrow> cc_callers s ! i = CWaiting \<Longrightarrow>
    call_finished i (cc_client s) = Some (r, c') \<Longrightarrow>
    calls_step s (s\<lparr>cc_client := c', cc_callers := (cc_callers s)[i := CReturned r]\<rparr>)"
| close: "client_Close (cc_client s) = (r, c') \<Longrightarrow> calls_step s (s\<lparr>cc_client := c'\<rparr>)"
| header: "cc_receiver s = RHeader \<Longrightarrow> receive_header (cc_client s) = (Inr h, c') \<Longrightarrow>
    calls_step s (s\<lparr>cc_client := c', cc_receiver := RMatch h\<rparr>)"
| no_header: "cc_receiver s = RHeader \<Longrightarrow> receive_header (cc_client s) = (Inl e, c') \<Longrightarrow>
    calls_step s (s\<lparr>cc_client := c', cc_receiver := RTerminate e\<rparr>)"
| match_: "cc_receiver s = RMatch h \<Longrightarrow> deleteCall (SequenceNumber h) (cc_client s) = (call, c') \<Longrightarrow>
    calls_step s (s\<lparr>cc_client := c', cc_receiver := RBody h call\<rparr>)"
| body: "cc_receiver s = RBody h call \<Longrightarrow> receive_body h call (cc_client s) = Some (None, c') \<Longrightarrow>
    calls_step s (s\<lparr>cc_client := c', cc_receiver := RHeader\<rparr>)"
| bad_body: "cc_receiver s = RBody h call \<Longrightarrow> receive_body h call (cc_client s) = Some (Some e, c') \<Longrightarrow>
    calls_step s (s\<lparr>cc_client := c', cc_receiver := RTerminate e\<rparr>)"
| terminate: "cc_receiver s = RTerminate e \<Longrightarrow> cc_lock s = None \<Longrightarrow>
    terminateCalls (LibError e) (cc_client s) = Some c' \<Longrightarrow>
    calls_step s (s\<lparr>cc_client := c', cc_receiver := RDone\<rparr>)"

definition calls_start :: "Client \<Rightarrow> Calls" where
  "calls_start c = \<lparr>cc_client = c, cc_lock = None, cc_callers = [], cc_receiver = RHeader\<rparr>"

definition calls_started :: "Calls \<Rightarrow> bool" where
  "calls_started s \<longleftrightarrow> (\<exists>jc info addr. s = calls_start (new_Client jc info addr))"

subsection \<open>The invariant\<close>

abbreviation seqno :: "Client \<Rightarrow> nat \<Rightarrow> 64 word" where
  "seqno c i \<equiv> call_SequenceNumber (heap c ! i)"

definition registered :: "Client \<Rightarrow> nat set" where
  "registered c = {i. i < length (heap c) \<and> seqno c i \<noteq> 0}"

definition pending :: "Client \<Rightarrow> nat \<Rightarrow> bool" where
  "pending c i \<longleftrightarrow> (\<exists>k. map_of (pendingCalls c) k = Some i)"

definition held :: "Calls \<Rightarrow> nat \<Rightarrow> bool" where
  "held s i \<longleftrightarrow> (\<exists>h. cc_receiver s = RBody h (Some i))"

text \<open>
  The table: every entry is a call under its own number, and numbers are given out once. (The
  64-bit counter does not wrap while there are fewer than \<^term>\<open>2 ^ 64 - 1 :: nat\<close> calls.)
\<close>

definition table_inv :: "Client \<Rightarrow> bool" where
  "table_inv c \<longleftrightarrow>
     dict_ok (pendingCalls c) \<and>
     (\<forall>k i. map_of (pendingCalls c) k = Some i \<longrightarrow> i \<in> registered c \<and> seqno c i = k) \<and>
     unat (sequenceNumber c) = Suc (card (registered c)) \<and>
     (\<forall>i \<in> registered c. seqno c i < sequenceNumber c) \<and>
     inj_on (seqno c) (registered c)"

text \<open>
  A call: its channel has room for one result and is empty while someone is still to finish the
  call; a caller that waits has its result, or someone is still to finish its call.
\<close>

definition owed :: "Calls \<Rightarrow> nat \<Rightarrow> bool" where
  "owed s i \<longleftrightarrow> cc_receiver s \<noteq> RDone \<and> (pending (cc_client s) i \<or> held s i)"

definition caller_inv :: "Calls \<Rightarrow> nat \<Rightarrow> bool" where
  "caller_inv s i \<longleftrightarrow>
     call_Finish (heap (cc_client s) ! i) \<in> {(1, []), (1, [i])} \<and>
     (owed s i \<longrightarrow> call_Finish (heap (cc_client s) ! i) = (1, [])) \<and>
     \<not> (pending (cc_client s) i \<and> held s i) \<and>
     (case cc_callers s ! i of
        CSending \<Rightarrow> seqno (cc_client s) i = 0 \<and> call_Finish (heap (cc_client s) ! i) = (1, [])
      | CReturned r \<Rightarrow> True
      | _ \<Rightarrow> call_Finish (heap (cc_client s) ! i) = (1, [i]) \<or> owed s i)"

fun holds_lock :: "caller_pc \<Rightarrow> 64 word option" where
  "holds_lock (CEncoding k) = Some k"
| "holds_lock (CUndoing k e) = Some k"
| "holds_lock _ = None"

definition lock_inv :: "Calls \<Rightarrow> bool" where
  "lock_inv s \<longleftrightarrow>
     (\<forall>i < length (cc_callers s). cc_lock s \<noteq> Some i \<longrightarrow> holds_lock (cc_callers s ! i) = None) \<and>
     (\<forall>i. cc_lock s = Some i \<longrightarrow> i < length (cc_callers s) \<and> seqno (cc_client s) i \<noteq> 0 \<and>
        holds_lock (cc_callers s ! i) = Some (seqno (cc_client s) i))"

definition calls_inv :: "Calls \<Rightarrow> bool" where
  "calls_inv s \<longleftrightarrow>
     length (cc_callers s) = length (heap (cc_client s)) \<and>
     table_inv (cc_client s) \<and> lock_inv s \<and>
     (\<forall>i < length (heap (cc_client s)). caller_inv s i) \<and>
     (\<forall>i. held s i \<longrightarrow> i \<in> registered (cc_client s)) \<and>
     (cc_receiver s = RDone \<longrightarrow> isShutdown (cc_client s) \<and> cc_lock s = None)"

definition few_calls :: "Calls \<Rightarrow> bool" where
  "few_calls s \<longleftrightarrow> length (heap (cc_client s)) < 2 ^ 64 - 1"

subsection \<open>What the operations do, in closed form\<close>

lemma heap_update_call [simp]:
  "heap (update_call i f c) = (heap c)[i := f (heap c ! i)]"
  by (simp add: update_call_def)

lemma update_call_same [simp]:
  "pendingCalls (update_call i f c) = pendingCalls c"
  "sequenceNumber (update_call i f c) = sequenceNumber c"
  "isShutdown (update_call i f c) = isShutdown c"
  "isClosed (update_call i f c) = isClosed c"
  "cl_coder (update_call i f c) = cl_coder c"
  by (simp_all add: update_call_def)

lemma fail_call_eq:
  assumes "call_Finish (heap c ! i) = (1, [])" and "i < length (heap c)"
  shows "fail_call err i c =
    Some (c\<lparr>heap := (heap c)[i := (heap c ! i)\<lparr>call_Error := Some err, call_Finish := (1, [i])\<rparr>]\<rparr>)"
  using assms by (simp add: fail_call_def finishCall_def update_call_def)

text \<open>\<open>delivered c c' i\<close>: the body step finished call \<open>i\<close> and touched no other.\<close>

definition delivered :: "Client \<Rightarrow> Client \<Rightarrow> nat option \<Rightarrow> bool" where
  "delivered c c' call \<longleftrightarrow>
     pendingCalls c' = pendingCalls c \<and> sequenceNumber c' = sequenceNumber c \<and> isShutdown c' = isShutdown c \<and>
     (case call of
        None \<Rightarrow> heap c' = heap c
      | Some i \<Rightarrow> (\<exists>x. heap c' = (heap c)[i := x] \<and> call_SequenceNumber x = seqno c i \<and>
                    call_Finish x = (1, [i])))"

lemma receive_body_delivers:
  assumes "\<forall>i. call = Some i \<longrightarrow> call_Finish (heap c ! i) = (1, []) \<and> i < length (heap c)"
  shows "\<exists>e c'. receive_body h call c = Some (e, c') \<and> delivered c c' call"
proof (cases call)
  case None
  then show ?thesis
    by (cases "jc_DecodeMessageBody (cl_coder c) None")
      (auto simp: receive_body_def delivered_def)
next
  case (Some i)
  obtain e b jc e' b' jc' where "jc_DecodeMessageBody (cl_coder c) None = ((e, b), jc)"
    "jc_DecodeMessageBody (cl_coder c) (call_Output (heap c ! i)) = ((e', b'), jc')"
    by (metis prod.exhaust)
  with Some assms show ?thesis
    by (cases e') (auto simp: receive_body_def delivered_def finishCall_def update_call_def)
qed

subsection \<open>Every step keeps the invariant\<close>

declare map_of_eq_Some_iff [simp del]

lemma pending_iff: "table_inv c \<Longrightarrow> pending c i \<longleftrightarrow> map_of (pendingCalls c) (seqno c i) = Some i"
  by (auto simp: pending_def table_inv_def)

lemma finite_registered [simp]: "finite (registered c)"
  by (simp add: registered_def)

text \<open>The invariant looks at the table, the channels and the locks only.\<close>

lemma registered_cong:
  assumes "length (heap c') = length (heap c)" and "\<And>i. i < length (heap c) \<Longrightarrow> seqno c' i = seqno c i"
  shows "registered c' = registered c"
  using assms by (auto simp: registered_def)

lemma table_inv_same:
  assumes inv: "table_inv c" and same: "pendingCalls c' = pendingCalls c" "sequenceNumber c' = sequenceNumber c"
    and r: "registered c' = registered c" and seq: "\<forall>i \<in> registered c. seqno c' i = seqno c i"
  shows "table_inv c'"
proof -
  have "inj_on (seqno c') (registered c) = inj_on (seqno c) (registered c)"
    using seq by (intro inj_on_cong) simp
  then show ?thesis using inv same r seq by (simp add: table_inv_def)
qed

lemma table_inv_cong:
  assumes "table_inv c" and "pendingCalls c' = pendingCalls c" and "sequenceNumber c' = sequenceNumber c"
    and "length (heap c') = length (heap c)" and "\<And>i. i < length (heap c) \<Longrightarrow> seqno c' i = seqno c i"
  shows "table_inv c'"
proof (rule table_inv_same[OF assms(1-3)])
  show "registered c' = registered c" using assms(4,5) by (rule registered_cong)
  show "\<forall>i \<in> registered c. seqno c' i = seqno c i" using assms(5) by (simp add: registered_def)
qed

lemma registered_pendingCalls [simp]: "registered (c\<lparr>pendingCalls := m\<rparr>) = registered c"
  by (simp add: registered_def)

lemma table_inv_delete:
  assumes "table_inv c"
  shows "table_inv (c\<lparr>pendingCalls := AList.delete k (pendingCalls c)\<rparr>)"
  using assms by (simp add: table_inv_def delete_conv' dict_ok_delete)

lemma table_inv_new:
  assumes "table_inv c" and "call_SequenceNumber x = 0"
  shows "table_inv (c\<lparr>heap := heap c @ [x]\<rparr>)"
proof (rule table_inv_same[OF assms(1)])
  show "registered (c\<lparr>heap := heap c @ [x]\<rparr>) = registered c"
    using assms(2) by (auto simp: registered_def nth_append less_Suc_eq split: if_splits)
  show "\<forall>i \<in> registered c. seqno (c\<lparr>heap := heap c @ [x]\<rparr>) i = seqno c i"
    by (simp add: registered_def nth_append)
qed simp_all

lemma table_inv_add:
  assumes inv: "table_inv c" and i: "i < length (heap c)" "seqno c i = 0"
    and few: "length (heap c) < 2 ^ 64 - 1"
    and c': "heap c' = (heap c)[i := (heap c ! i)\<lparr>call_SequenceNumber := sequenceNumber c\<rparr>]"
      "pendingCalls c' = AList.update (sequenceNumber c) i (pendingCalls c)"
      "sequenceNumber c' = sequenceNumber c + 1"
  shows "table_inv c'" and "registered c' = insert i (registered c)" and "sequenceNumber c \<noteq> 0"
    and "map_of (pendingCalls c) (sequenceNumber c) = None"
proof -
  let ?n = "sequenceNumber c"
  have entry: "j \<in> registered c \<and> seqno c j = k" if "map_of (pendingCalls c) k = Some j" for k j
    using inv that unfolding table_inv_def by blast
  have u: "unat ?n = Suc (card (registered c))" using inv by (simp add: table_inv_def)
  then show n0: "?n \<noteq> 0" by auto
  show r: "registered c' = insert i (registered c)"
    using i n0 c' by (auto simp: registered_def nth_list_update)
  have ni: "i \<notin> registered c" using i by (simp add: registered_def)
  have "card (registered c) \<le> card {..<length (heap c)}"
    by (rule card_mono) (auto simp: registered_def)
  with u few have "unat ?n < 2 ^ 64 - 1 + 1" and "Suc (unat ?n) < 2 ^ 64 + 1" by auto
  have "registered c \<subseteq> {..<length (heap c)} - {i}" using ni by (auto simp: registered_def)
  then have "card (registered c) \<le> card ({..<length (heap c)} - {i})" by (intro card_mono) auto
  also have "\<dots> = length (heap c) - 1" using i by (subst card_Diff_singleton) auto
  finally have k: "Suc (unat ?n) < 2 ^ 64" using u few i by linarith
  then have n1: "unat (?n + 1) = Suc (unat ?n)"
    by (subst unat_add_lem[THEN iffD1]) auto
  then have lt: "?n < ?n + 1" by (simp add: word_less_nat_alt)
  have seq: "seqno c' j = (if j = i then ?n else seqno c j)" if "j < length (heap c)" for j
    using that c'(1) by (simp add: nth_list_update)
  have below: "\<forall>j \<in> registered c. seqno c j < ?n \<and> j < length (heap c)"
    using inv by (auto simp: table_inv_def registered_def)
  show free: "map_of (pendingCalls c) ?n = None"
  proof (rule ccontr)
    assume "map_of (pendingCalls c) ?n \<noteq> None"
    then obtain j where "map_of (pendingCalls c) ?n = Some j" by auto
    then have "j \<in> registered c" "seqno c j = ?n" using entry by auto
    with below show False by fastforce
  qed
  show "table_inv c'"
    unfolding table_inv_def r
  proof (intro conjI allI ballI impI)
    show "dict_ok (pendingCalls c')" using inv c'(2) by (simp add: table_inv_def dict_ok_update)
    show "unat (sequenceNumber c') = Suc (card (insert i (registered c)))"
      using ni u n1 c'(3) by simp
    have "\<forall>j \<in> registered c. seqno c' j = seqno c j" using below seq ni by auto
    then have "inj_on (seqno c') (registered c) = inj_on (seqno c) (registered c)"
      by (intro inj_on_cong) simp
    then have "inj_on (seqno c') (registered c)" using inv by (simp add: table_inv_def)
    moreover have "seqno c' i \<notin> seqno c' ` registered c"
      using below seq ni i by (metis (no_types, lifting) image_iff less_irrefl)
    ultimately show "inj_on (seqno c') (insert i (registered c))"
      using ni by (simp add: inj_on_insert)
    fix j assume "j \<in> insert i (registered c)"
    moreover have "\<forall>j \<in> registered c. seqno c j \<le> ?n" using below by (simp add: order.strict_implies_order)
    ultimately have "seqno c' j \<le> ?n" using below seq i by auto
    also note lt
    finally show "seqno c' j < sequenceNumber c'" unfolding c'(3) .
  next
    fix k j assume "map_of (pendingCalls c') k = Some j"
    then have "k = ?n \<and> j = i \<or> k \<noteq> ?n \<and> j \<in> registered c \<and> seqno c j = k"
      using c'(2) entry[of k j] by (auto simp: update_conv' split: if_splits)
    then show "j \<in> insert i (registered c)" and "seqno c' j = k"
      using seq i ni below by auto
  qed
qed

text \<open>A caller that a step does not touch.\<close>

lemma other_caller:
  assumes "caller_inv s j" and "heap (cc_client t) ! j = heap (cc_client s) ! j"
    and "cc_callers t ! j = cc_callers s ! j"
    and "pending (cc_client t) j = pending (cc_client s) j" and "held t j = held s j"
    and "cc_receiver t = RDone \<longleftrightarrow> cc_receiver s = RDone"
  shows "caller_inv t j"
  using assms by (simp add: caller_inv_def owed_def cong: caller_pc.case_cong)

lemma held_same [simp]:
  "held (s\<lparr>cc_client := c\<rparr>) = held s"
  "held (s\<lparr>cc_callers := ps\<rparr>) = held s"
  "held (s\<lparr>cc_lock := l\<rparr>) = held s"
  by (simp_all add: held_def fun_eq_iff)

lemma calls_inv_frame:
  assumes "calls_inv s" and "heap c' = heap (cc_client s)" and "pendingCalls c' = pendingCalls (cc_client s)"
    and "sequenceNumber c' = sequenceNumber (cc_client s)" and "isShutdown c' = isShutdown (cc_client s)"
  shows "calls_inv (s\<lparr>cc_client := c'\<rparr>)"
proof -
  have "table_inv c'" using assms by (auto simp: calls_inv_def intro: table_inv_cong)
  moreover have "registered c' = registered (cc_client s)" using assms(2) by (simp add: registered_def)
  moreover have "pending c' = pending (cc_client s)" using assms(3) by (simp add: pending_def fun_eq_iff)
  ultimately show ?thesis
    using assms other_caller[of s _ "s\<lparr>cc_client := c'\<rparr>"] by (auto simp: calls_inv_def lock_inv_def)
qed

lemma frame_ops:
  "client_Close c = (r, c') \<Longrightarrow> heap c' = heap c \<and> pendingCalls c' = pendingCalls c \<and>
     sequenceNumber c' = sequenceNumber c \<and> isShutdown c' = isShutdown c"
  "receive_header c = (x, c') \<Longrightarrow> heap c' = heap c \<and> pendingCalls c' = pendingCalls c \<and>
     sequenceNumber c' = sequenceNumber c \<and> isShutdown c' = isShutdown c"
  "send_encode i seq c = (e, c') \<Longrightarrow> heap c' = heap c \<and> pendingCalls c' = pendingCalls c \<and>
     sequenceNumber c' = sequenceNumber c \<and> isShutdown c' = isShutdown c"
  by (auto simp: client_Close_def receive_header_def send_encode_def Let_def
      split: if_splits prod.splits option.splits)

lemma lock_inv_new:
  assumes inv: "lock_inv s" and n: "length (cc_callers s) = length (heap (cc_client s))"
  shows "lock_inv (s\<lparr>cc_callers := cc_callers s @ [CSending],
    cc_client := (cc_client s)\<lparr>heap := heap (cc_client s) @ [x]\<rparr>\<rparr>)"
proof -
  show ?thesis
    using inv n by (auto simp: lock_inv_def nth_append less_Suc_eq)
qed

lemma calls_inv_start:
  assumes inv: "calls_inv s" and x: "call_SequenceNumber x = 0" "call_Finish x = (1, [])"
  shows "calls_inv (s\<lparr>cc_callers := cc_callers s @ [CSending],
    cc_client := (cc_client s)\<lparr>heap := heap (cc_client s) @ [x]\<rparr>\<rparr>)" (is "calls_inv ?t")
proof -
  let ?c = "cc_client s"
  let ?n = "length (heap ?c)"
  have n: "length (cc_callers s) = ?n" and tab: "table_inv ?c" and held: "\<forall>i. held s i \<longrightarrow> i \<in> registered ?c"
    using inv by (auto simp: calls_inv_def)
  have old: "\<forall>i \<in> registered ?c. i < ?n" by (simp add: registered_def)
  have pend: "pending (?c\<lparr>heap := heap ?c @ [x]\<rparr>) = pending ?c" by (simp add: pending_def fun_eq_iff)
  have no: "\<not> pending ?c ?n" "\<not> held s ?n"
    using tab held old by (auto simp: pending_def table_inv_def)
  have "caller_inv ?t i" if "i < Suc ?n" for i
  proof (cases "i = ?n")
    case True
    then show ?thesis using no x n pend by (simp add: caller_inv_def owed_def nth_append)
  next
    case False
    then have "i < ?n" using that by simp
    then show ?thesis
      using inv pend n by (intro other_caller[of s i ?t]) (auto simp: calls_inv_def nth_append)
  qed
  moreover have "lock_inv ?t"
    using inv n by (intro lock_inv_new) (auto simp: calls_inv_def)
  moreover have "registered (?c\<lparr>heap := heap ?c @ [x]\<rparr>) = registered ?c"
    using x by (auto simp: registered_def nth_append less_Suc_eq split: if_splits)
  ultimately show ?thesis
    using inv n table_inv_new[OF tab x(1)] by (simp add: calls_inv_def)
qed

lemma table_entry:
  "table_inv c \<Longrightarrow> map_of (pendingCalls c) k = Some i \<Longrightarrow> i \<in> registered c \<and> seqno c i = k"
  unfolding table_inv_def by blast

lemma registered_less: "i \<in> registered c \<Longrightarrow> i < length (heap c) \<and> seqno c i \<noteq> 0"
  by (simp add: registered_def)

lemma pending_registered: "table_inv c \<Longrightarrow> pending c i \<Longrightarrow> i \<in> registered c"
  by (auto simp: pending_def dest: table_entry)

lemma pending_delete:
  assumes "table_inv c"
  shows "pending (c\<lparr>pendingCalls := AList.delete k (pendingCalls c)\<rparr>) j \<longleftrightarrow> pending c j \<and> seqno c j \<noteq> k"
  using table_entry[OF assms, of _ j] by (auto simp: pending_def delete_conv' split: if_splits)

text \<open>
  Steps in which the goroutine of caller \<open>i\<close> (or the receiver, for the call \<open>i\<close>) moves: all other
  callers stay as they are.
\<close>

lemma calls_inv_one:
  assumes inv: "calls_inv s"
    and len: "length (heap (cc_client t)) = length (heap (cc_client s))"
      "length (cc_callers t) = length (cc_callers s)"
    and same: "\<And>j. j < length (heap (cc_client s)) \<Longrightarrow> j \<noteq> i \<Longrightarrow>
        heap (cc_client t) ! j = heap (cc_client s) ! j \<and> cc_callers t ! j = cc_callers s ! j \<and>
        pending (cc_client t) j = pending (cc_client s) j \<and> held t j = held s j"
    and recv: "cc_receiver t = RDone \<longleftrightarrow> cc_receiver s = RDone"
    and own: "i < length (heap (cc_client s)) \<Longrightarrow> caller_inv t i"
    and table: "table_inv (cc_client t)" and lock: "lock_inv t"
    and held: "\<And>j. held t j \<Longrightarrow> j \<in> registered (cc_client t)"
    and after: "cc_receiver s = RDone \<Longrightarrow> isShutdown (cc_client t) \<and> cc_lock t = None"
  shows "calls_inv t"
proof -
  have "caller_inv t j" if "j < length (heap (cc_client s))" for j
  proof (cases "j = i")
    case False
    then show ?thesis
      using inv same[OF that False] recv that
      by (intro other_caller[of s j t]) (auto simp: calls_inv_def)
  qed (use own that in simp)
  with assms show ?thesis by (simp add: calls_inv_def)
qed

lemma caller_fields:
  assumes "calls_inv s" and "i < length (cc_callers s)"
  shows "i < length (heap (cc_client s))" and "caller_inv s i" and "table_inv (cc_client s)" and "lock_inv s"
    and "\<And>j. held s j \<Longrightarrow> j \<in> registered (cc_client s)"
    and "length (cc_callers s) = length (heap (cc_client s))"
    and "cc_receiver s = RDone \<Longrightarrow> isShutdown (cc_client s) \<and> cc_lock s = None"
  using assms by (auto simp: calls_inv_def)

lemma refuse_eq:
  assumes "send_add i c = Inl r" and "call_Finish (heap c ! i) = (1, [])" and "i < length (heap c)"
  shows "\<exists>err. r = Some (c\<lparr>heap := (heap c)[i := (heap c ! i)\<lparr>call_Error := Some err, call_Finish := (1, [i])\<rparr>]\<rparr>)"
  using assms fail_call_eq[OF assms(2,3)]
  by (auto simp: send_add_def addCall_def Let_def split: if_splits)

lemma calls_inv_refuse:
  assumes inv: "calls_inv s" and i: "i < length (cc_callers s)" and pc: "cc_callers s ! i = CSending"
    and l: "cc_lock s = None" and r: "send_add i (cc_client s) = Inl (Some c')"
  shows "calls_inv (s\<lparr>cc_client := c', cc_callers := (cc_callers s)[i := CWaiting]\<rparr>)"
proof -
  note f = caller_fields[OF inv i]
  have ci: "seqno (cc_client s) i = 0" "call_Finish (heap (cc_client s) ! i) = (1, [])"
    using f(2) pc by (simp_all add: caller_inv_def)
  then have no: "\<not> pending (cc_client s) i" "\<not> held s i"
    using f(3,5) pending_registered registered_less by blast+
  obtain err where c': "c' = (cc_client s)\<lparr>heap := (heap (cc_client s))[i := (heap (cc_client s) ! i)\<lparr>call_Error := Some err, call_Finish := (1, [i])\<rparr>]\<rparr>"
    using refuse_eq[OF r ci(2) f(1)] by auto
  have pend: "pending c' = pending (cc_client s)" by (simp add: c' pending_def fun_eq_iff)
  have seq: "seqno c' j = seqno (cc_client s) j" for j
    using f(1) by (cases "i = j") (simp_all add: c')
  then have reg: "registered c' = registered (cc_client s)" by (intro registered_cong) (simp_all add: c')
  show ?thesis
  proof (rule calls_inv_one[OF inv, where i = i])
    show "table_inv (cc_client (s\<lparr>cc_client := c', cc_callers := (cc_callers s)[i := CWaiting]\<rparr>))"
      using table_inv_cong[OF f(3), of c'] seq by (simp add: c')
    show "lock_inv (s\<lparr>cc_client := c', cc_callers := (cc_callers s)[i := CWaiting]\<rparr>)"
      using f(4) l i by (auto simp: lock_inv_def nth_list_update)
    show "caller_inv (s\<lparr>cc_client := c', cc_callers := (cc_callers s)[i := CWaiting]\<rparr>) i"
      using f(1,6) no pend by (simp add: caller_inv_def owed_def c')
  qed (use f reg pend in \<open>auto simp: c'\<close>)
qed

lemma calls_inv_add:
  assumes inv: "calls_inv s" and few: "few_calls s"
    and i: "i < length (cc_callers s)" and pc: "cc_callers s ! i = CSending"
    and l: "cc_lock s = None" and r: "send_add i (cc_client s) = Inr (seq, c')"
  shows "calls_inv (s\<lparr>cc_client := c', cc_lock := Some i, cc_callers := (cc_callers s)[i := CEncoding seq]\<rparr>)"
    (is "calls_inv ?t")
proof -
  note f = caller_fields[OF inv i]
  let ?c = "cc_client s"
  have ci: "seqno ?c i = 0" "call_Finish (heap ?c ! i) = (1, [])"
    using f(2) pc by (simp_all add: caller_inv_def)
  have a: "\<not> isShutdown ?c" "seq = sequenceNumber ?c"
    and c': "heap c' = (heap ?c)[i := (heap ?c ! i)\<lparr>call_SequenceNumber := sequenceNumber ?c\<rparr>]"
      "pendingCalls c' = AList.update (sequenceNumber ?c) i (pendingCalls ?c)"
      "sequenceNumber c' = sequenceNumber ?c + 1" "isShutdown c' = isShutdown ?c"
    using r by (auto simp: send_add_def addCall_def Let_def split: if_splits)
  note t = table_inv_add[OF f(3,1) ci(1) few[unfolded few_calls_def] c'(1-3)]
  have no: "\<not> held s i" using f(5) ci registered_less by blast
  have nd: "cc_receiver s \<noteq> RDone" using f(7) a by auto
  have pend: "pending c' j \<longleftrightarrow> j = i \<or> pending ?c j" for j
    using t(4) by (auto simp: pending_def c' update_conv') (metis option.distinct(1))
  show ?thesis
  proof (rule calls_inv_one[OF inv, where i = i])
    show "table_inv (cc_client ?t)" using t(1) by simp
    show "lock_inv ?t"
      using f(1,4,6) l a t(3) by (auto simp: lock_inv_def nth_list_update c')
    show "caller_inv ?t i"
      using f(1,6) no nd pend ci by (simp add: caller_inv_def owed_def c')
    show "j \<in> registered (cc_client ?t)" if "held ?t j" for j using that f(5) t(2) by simp
  qed (use f nd pend in \<open>auto simp: c'\<close>)
qed

lemma lock_holder:
  assumes "calls_inv s" and "i < length (cc_callers s)" and "holds_lock (cc_callers s ! i) = Some k"
  shows "cc_lock s = Some i" and "seqno (cc_client s) i = k" and "k \<noteq> 0" and "cc_receiver s \<noteq> RDone"
    and "i \<in> registered (cc_client s)"
proof -
  note f = caller_fields[OF assms(1,2)]
  show l: "cc_lock s = Some i" using f(4) assms(2,3) by (auto simp: lock_inv_def)
  then show k: "seqno (cc_client s) i = k" "k \<noteq> 0" using f(4) assms(3) by (auto simp: lock_inv_def)
  show "cc_receiver s \<noteq> RDone" using f(7) l by auto
  show "i \<in> registered (cc_client s)" using f(1) k by (simp add: registered_def)
qed

text \<open>A caller gives the lock back, or goes on to take its call back.\<close>

lemma calls_inv_pc:
  assumes inv: "calls_inv s" and i: "i < length (cc_callers s)" and pc: "cc_callers s ! i = CEncoding k"
    and p: "p = CWaiting \<and> l = None \<or> p = CUndoing k e \<and> l = cc_lock s"
  shows "calls_inv (s\<lparr>cc_lock := l, cc_callers := (cc_callers s)[i := p]\<rparr>)" (is "calls_inv ?t")
proof (rule calls_inv_one[OF inv, where i = i])
  note f = caller_fields[OF inv i]
  have h: "cc_lock s = Some i" "seqno (cc_client s) i = k" "k \<noteq> 0" "cc_receiver s \<noteq> RDone"
    using lock_holder[OF inv i, of k] pc by simp_all
  show "lock_inv ?t" using f(1,4,6) h p by (auto simp: lock_inv_def nth_list_update)
  have "caller_inv s i" using f(2) .
  then show "caller_inv ?t i"
    using p pc i by (auto simp: caller_inv_def owed_def)
  show "table_inv (cc_client ?t)" using f(3) by simp
  show "j \<in> registered (cc_client ?t)" if "held ?t j" for j using that f(5) by simp
  show "isShutdown (cc_client ?t) \<and> cc_lock ?t = None" if "cc_receiver s = RDone" using that h by simp
qed simp_all

lemma calls_inv_encode:
  assumes inv: "calls_inv s" and i: "i < length (cc_callers s)" and pc: "cc_callers s ! i = CEncoding k"
    and e: "send_encode i k (cc_client s) = (r, c')"
    and p: "p = CWaiting \<and> l = None \<or> p = CUndoing k e' \<and> l = cc_lock s"
  shows "calls_inv (s\<lparr>cc_client := c', cc_lock := l, cc_callers := (cc_callers s)[i := p]\<rparr>)"
proof -
  have "calls_inv (s\<lparr>cc_client := c'\<rparr>)" using frame_ops(3)[OF e] by (intro calls_inv_frame[OF inv]) simp_all
  then show ?thesis
    using calls_inv_pc[of "s\<lparr>cc_client := c'\<rparr>" i k p l e'] i pc p by simp
qed

text \<open>The call \<open>i\<close> gets its result and is in the table no more.\<close>

lemma delivered_table:
  assumes tab: "table_inv c" and i: "i < length (heap c)"
    and h: "heap c' = (heap c)[i := x]" "call_SequenceNumber x = seqno c i"
    and same: "pendingCalls c' = pendingCalls c" "sequenceNumber c' = sequenceNumber c"
  shows "table_inv c'" and "registered c' = registered c" and "pending c' = pending c"
    and "seqno c' j = seqno c j"
proof -
  show seq: "seqno c' j = seqno c j" for j using h i by (cases "i = j") simp_all
  have l: "length (heap c') = length (heap c)" by (simp add: h(1))
  show "table_inv c'" by (rule table_inv_cong[OF tab same l seq])
  show "registered c' = registered c" by (rule registered_cong[OF l seq])
  show "pending c' = pending c" using same by (simp add: pending_def fun_eq_iff)
qed

lemma send_undo_cases:
  assumes inv: "calls_inv s" and i: "i < length (cc_callers s)" and pc: "holds_lock (cc_callers s ! i) = Some k"
  obtains (taken) "pending (cc_client s) i" "call_Finish (heap (cc_client s) ! i) = (1, [])"
      "send_undo e k (cc_client s) = Some ((cc_client s)\<lparr>pendingCalls := AList.delete k (pendingCalls (cc_client s)),
         heap := (heap (cc_client s))[i := (heap (cc_client s) ! i)\<lparr>call_Error := Some (LibError e), call_Finish := (1, [i])\<rparr>]\<rparr>)"
  | (gone) "\<not> pending (cc_client s) i"
      "send_undo e k (cc_client s) = Some ((cc_client s)\<lparr>pendingCalls := AList.delete k (pendingCalls (cc_client s))\<rparr>)"
proof -
  let ?c = "cc_client s"
  note f = caller_fields[OF inv i]
  note h = lock_holder[OF inv i pc]
  have m: "pending ?c i \<longleftrightarrow> map_of (pendingCalls ?c) k = Some i"
    using pending_iff[OF f(3), of i] h(2) by simp
  show ?thesis
  proof (cases "map_of (pendingCalls ?c) k")
    case None
    then show ?thesis using gone m by (simp add: send_undo_def deleteCall_def)
  next
    case (Some j)
    then have "j \<in> registered ?c" "seqno ?c j = k" using table_entry[OF f(3)] by blast+
    then have "j = i" using f(3) h(2,5) by (auto simp: table_inv_def inj_on_def)
    then have p: "pending ?c i" using m Some by simp
    then have "call_Finish (heap ?c ! i) = (1, [])" using f(2) h(4) by (simp add: caller_inv_def owed_def)
    then show ?thesis
      using taken[OF p] Some \<open>j = i\<close> f(1) fail_call_eq[of "?c\<lparr>pendingCalls := AList.delete k (pendingCalls ?c)\<rparr>" i]
      by (simp add: send_undo_def deleteCall_def)
  qed
qed

lemma calls_inv_undo:
  assumes inv: "calls_inv s" and i: "i < length (cc_callers s)" and pc: "cc_callers s ! i = CUndoing k e"
    and u: "send_undo e k (cc_client s) = Some c'"
  shows "calls_inv (s\<lparr>cc_client := c', cc_lock := None, cc_callers := (cc_callers s)[i := CWaiting]\<rparr>)"
    (is "calls_inv ?t")
proof -
  let ?c = "cc_client s"
  note f = caller_fields[OF inv i]
  have hl: "holds_lock (cc_callers s ! i) = Some k" using pc by simp
  note h = lock_holder[OF inv i hl]
  let ?d = "?c\<lparr>pendingCalls := AList.delete k (pendingCalls ?c)\<rparr>"
  have d: "table_inv ?d" using f(3) by (rule table_inv_delete)
  have pd: "pending ?d j \<longleftrightarrow> pending ?c j \<and> j \<noteq> i" for j
  proof -
    have "pending ?c j \<Longrightarrow> seqno ?c j = k \<Longrightarrow> j = i"
      using pending_registered[OF f(3)] h(2,5) f(3) by (auto simp: table_inv_def inj_on_def)
    then show ?thesis using pending_delete[OF f(3), of k j] h(2) by auto
  qed
  have locks: "lock_inv ?t"
    using f(4) h(1) i by (auto simp: lock_inv_def nth_list_update)
  have "table_inv c' \<and> registered c' = registered ?c \<and>
      (\<forall>j. pending c' j \<longleftrightarrow> pending ?c j \<and> j \<noteq> i) \<and> length (heap c') = length (heap ?c) \<and>
      (\<forall>j. j \<noteq> i \<longrightarrow> heap c' ! j = heap ?c ! j) \<and> (call_Finish (heap c' ! i) = (1, [i]) \<and> pending ?c i \<or>
         call_Finish (heap c' ! i) = call_Finish (heap ?c ! i) \<and> \<not> pending ?c i) \<and> seqno c' i = k"
  proof (cases rule: send_undo_cases[OF inv i hl, of e, case_names taken gone])
    case taken
    then have c': "c' = ?d\<lparr>heap := (heap ?d)[i := (heap ?d ! i)\<lparr>call_Error := Some (LibError e), call_Finish := (1, [i])\<rparr>]\<rparr>"
      using u by simp
    have "i < length (heap ?d)" using f(1) by simp
    note t = delivered_table[OF d this, of c' "(heap ?d ! i)\<lparr>call_Error := Some (LibError e), call_Finish := (1, [i])\<rparr>"]
    show ?thesis using t f(1) pd h(2) taken(1) by (simp add: c')
  next
    case gone
    then show ?thesis using u d pd h(2) by auto
  qed
  then have t: "table_inv c'" "registered c' = registered ?c" "\<And>j. pending c' j \<longleftrightarrow> pending ?c j \<and> j \<noteq> i"
    "length (heap c') = length (heap ?c)" "\<And>j. j \<noteq> i \<Longrightarrow> heap c' ! j = heap ?c ! j"
    "call_Finish (heap c' ! i) = (1, [i]) \<and> pending ?c i \<or>
         call_Finish (heap c' ! i) = call_Finish (heap ?c ! i) \<and> \<not> pending ?c i"
    by blast+
  show ?thesis
  proof (rule calls_inv_one[OF inv, where i = i])
    show "caller_inv ?t i"
      using f(2) t(6) h(4) i by (auto simp: caller_inv_def owed_def pc t(3))
    show "table_inv (cc_client ?t)" using t(1) by simp
    show "j \<in> registered (cc_client ?t)" if "held ?t j" for j using that f(5) t(2) by simp
    show "isShutdown (cc_client ?t) \<and> cc_lock ?t = None" if "cc_receiver s = RDone" using that h(4) by simp
  qed (use t f locks in auto)
qed

lemma calls_inv_cancel:
  assumes inv: "calls_inv s" and i: "i < length (cc_callers s)" and pc: "cc_callers s ! i = CWaiting"
    and r: "call_canceled ctx_err i (cc_client s) = (r, c')"
  shows "calls_inv (s\<lparr>cc_client := c', cc_callers := (cc_callers s)[i := CReturned r]\<rparr>)"
    (is "calls_inv ?t")
proof -
  let ?c = "cc_client s"
  note f = caller_fields[OF inv i]
  have c': "c' = ?c\<lparr>pendingCalls := AList.delete (seqno ?c i) (pendingCalls ?c)\<rparr>"
    using r by (simp add: call_canceled_def deleteCall_def)
  have pd: "pending c' j \<longleftrightarrow> pending ?c j \<and> seqno ?c j \<noteq> seqno ?c i" for j
    unfolding c' by (rule pending_delete[OF f(3)])
  have other: "pending c' j = pending ?c j" if "j \<noteq> i" "i < length (heap ?c)" for j
  proof -
    have "pending ?c j \<Longrightarrow> seqno ?c j = seqno ?c i \<Longrightarrow> j = i"
      using pending_registered[OF f(3), of j] that f(3)
      by (auto simp: table_inv_def inj_on_def registered_def)
    then show ?thesis using pd that by blast
  qed
  show ?thesis
  proof (rule calls_inv_one[OF inv, where i = i])
    show "caller_inv ?t i"
      using f(2) i pd by (auto simp: caller_inv_def owed_def pc c')
    show "table_inv (cc_client ?t)" using table_inv_delete[OF f(3)] by (simp add: c')
    show "lock_inv ?t" using f(4) i pc by (auto simp: lock_inv_def nth_list_update c')
    show "j \<in> registered (cc_client ?t)" if "held ?t j" for j using that f(5) by (simp add: c')
    show "heap (cc_client ?t) ! j = heap ?c ! j \<and> cc_callers ?t ! j = cc_callers s ! j \<and>
        pending (cc_client ?t) j = pending ?c j \<and> held ?t j = held s j" if "j \<noteq> i" for j
      using that other f(1) by (simp add: c')
  qed (use f in \<open>auto simp: c'\<close>)
qed

lemma calls_inv_finish:
  assumes inv: "calls_inv s" and i: "i < length (cc_callers s)" and pc: "cc_callers s ! i = CWaiting"
    and r: "call_finished i (cc_client s) = Some (r, c')"
  shows "calls_inv (s\<lparr>cc_client := c', cc_callers := (cc_callers s)[i := CReturned r]\<rparr>)"
    (is "calls_inv ?t")
proof -
  let ?c = "cc_client s"
  note f = caller_fields[OF inv i]
  have fin: "call_Finish (heap ?c ! i) = (1, [i])" "\<not> owed s i"
    using r f(2) by (auto simp: call_finished_def caller_inv_def split: list.splits)
  then have c': "c' = ?c\<lparr>heap := (heap ?c)[i := (heap ?c ! i)\<lparr>call_Finish := (1, [])\<rparr>]\<rparr>"
    using r by (simp add: call_finished_def update_call_def)
  have "table_inv c' \<and> registered c' = registered ?c \<and> pending c' = pending ?c \<and> (\<forall>j. seqno c' j = seqno ?c j)"
    using delivered_table[OF f(3,1), of c' "(heap ?c ! i)\<lparr>call_Finish := (1, [])\<rparr>"] by (simp add: c')
  then have t: "table_inv c'" "registered c' = registered ?c" "pending c' = pending ?c" "\<And>j. seqno c' j = seqno ?c j"
    by blast+
  have h: "heap c' = (heap ?c)[i := (heap ?c ! i)\<lparr>call_Finish := (1, [])\<rparr>]" "isShutdown c' = isShutdown ?c"
    by (simp_all add: c')
  show ?thesis
  proof (rule calls_inv_one[OF inv, where i = i])
    show "caller_inv ?t i"
      using f(1,2) i fin(2) by (simp add: caller_inv_def owed_def t(3) h)
    show "table_inv (cc_client ?t)" using t by simp
    show "lock_inv ?t" using f(4) i pc by (auto simp: lock_inv_def nth_list_update t(4))
    show "j \<in> registered (cc_client ?t)" if "held ?t j" for j using that f(5) t(2) by simp
  qed (use f in \<open>auto simp: h t(3)\<close>)
qed

text \<open>The receiver takes the call of a response out of the table, and gives it its result.\<close>

lemma calls_inv_match:
  assumes inv: "calls_inv s" and pc: "cc_receiver s = RMatch h"
    and r: "deleteCall (SequenceNumber h) (cc_client s) = (call, c')"
  shows "calls_inv (s\<lparr>cc_client := c', cc_receiver := RBody h call\<rparr>)" (is "calls_inv ?t")
proof -
  let ?c = "cc_client s" and ?k = "SequenceNumber h"
  have tab: "table_inv ?c" and lock: "lock_inv s" and len: "length (cc_callers s) = length (heap ?c)"
    using inv by (simp_all add: calls_inv_def)
  have c': "c' = ?c\<lparr>pendingCalls := AList.delete ?k (pendingCalls ?c)\<rparr>" and call: "call = map_of (pendingCalls ?c) ?k"
    using r by (auto simp: deleteCall_def)
  have no: "\<not> held s j" for j using pc by (simp add: held_def)
  have ho: "held ?t j \<longleftrightarrow> map_of (pendingCalls ?c) ?k = Some j" for j
    using call by (auto simp: held_def)
  have pd: "pending c' j \<longleftrightarrow> pending ?c j \<and> seqno ?c j \<noteq> ?k" for j
    unfolding c' by (rule pending_delete[OF tab])
  have take: "pending ?c j \<and> seqno ?c j = ?k \<longleftrightarrow> held ?t j" for j
    unfolding ho using pending_iff[OF tab, of j] table_entry[OF tab, of ?k j] by metis
  have ow: "owed ?t j = owed s j" for j
    using no[of j] pd[of j] take[of j] pc by (auto simp: owed_def)
  have ph: "\<not> (pending c' j \<and> held ?t j)" for j using pd[of j] take[of j] by blast
  have hc: "heap c' = heap ?c" by (simp add: c')
  have "caller_inv ?t j" if "caller_inv s j" for j
    using that ph[of j] ow[of j] by (simp add: caller_inv_def hc cong: caller_pc.case_cong)
  moreover have "held ?t j \<Longrightarrow> j \<in> registered ?c" for j using ho table_entry[OF tab] by blast
  moreover have "lock_inv ?t" using lock by (simp add: lock_inv_def c')
  ultimately show ?thesis
    using inv table_inv_delete[OF tab, of ?k] by (simp add: calls_inv_def c')
qed

lemma calls_inv_receiver:
  assumes inv: "calls_inv s" and s: "\<forall>j. \<not> held s j" "cc_receiver s \<noteq> RDone"
    and t: "r \<noteq> RDone" "\<forall>h j. r \<noteq> RBody h (Some j)"
  shows "calls_inv (s\<lparr>cc_receiver := r\<rparr>)"
proof -
  have no: "\<not> held (s\<lparr>cc_receiver := r\<rparr>) j" for j using t by (simp add: held_def)
  have "caller_inv (s\<lparr>cc_receiver := r\<rparr>) j" if "caller_inv s j" for j
    by (rule other_caller[OF that]) (simp_all add: no s(1)[rule_format] s(2) t(1))
  moreover have "lock_inv (s\<lparr>cc_receiver := r\<rparr>) = lock_inv s" by (simp add: lock_inv_def)
  ultimately show ?thesis using inv t(1) no by (simp add: calls_inv_def)
qed

lemma calls_inv_header:
  assumes inv: "calls_inv s" and pc: "cc_receiver s = RHeader" and r: "receive_header (cc_client s) = (x, c')"
    and t: "q \<noteq> RDone" "\<forall>h j. q \<noteq> RBody h (Some j)"
  shows "calls_inv (s\<lparr>cc_client := c', cc_receiver := q\<rparr>)"
proof -
  have "calls_inv (s\<lparr>cc_client := c'\<rparr>)" using frame_ops(2)[OF r] by (intro calls_inv_frame[OF inv]) simp_all
  moreover have "\<not> held s j" for j using pc by (simp add: held_def)
  ultimately show ?thesis
    using calls_inv_receiver[of "s\<lparr>cc_client := c'\<rparr>" q] pc t by simp
qed

lemma calls_inv_body:
  assumes inv: "calls_inv s" and pc: "cc_receiver s = RBody h call"
    and r: "receive_body h call (cc_client s) = Some (e, c')"
    and t: "q \<noteq> RDone" "\<forall>h j. q \<noteq> RBody h (Some j)"
  shows "calls_inv (s\<lparr>cc_client := c', cc_receiver := q\<rparr>)" (is "calls_inv ?t")
proof (cases call)
  case None
  then have "heap c' = heap (cc_client s) \<and> pendingCalls c' = pendingCalls (cc_client s) \<and>
      sequenceNumber c' = sequenceNumber (cc_client s) \<and> isShutdown c' = isShutdown (cc_client s)"
    using r by (auto simp: receive_body_def split: prod.splits)
  then have "calls_inv (s\<lparr>cc_client := c'\<rparr>)" by (intro calls_inv_frame[OF inv]) simp_all
  moreover have "\<not> held s j" for j using pc None by (simp add: held_def)
  ultimately show ?thesis
    using calls_inv_receiver[of "s\<lparr>cc_client := c'\<rparr>" q] pc t by simp
next
  case (Some i)
  let ?c = "cc_client s"
  have ho: "held s j \<longleftrightarrow> j = i" for j using pc Some by (auto simp: held_def)
  then have "i \<in> registered ?c" using inv by (simp add: calls_inv_def)
  then have "i < length (heap ?c)" by (simp add: registered_def)
  then have i: "i < length (cc_callers s)" using inv by (simp add: calls_inv_def)
  note f = caller_fields[OF inv i]
  have fin: "call_Finish (heap ?c ! i) = (1, [])" "\<not> pending ?c i"
    using f(2) ho pc by (auto simp: caller_inv_def owed_def)
  have "delivered ?c c' call"
    using receive_body_delivers[of call ?c h] r Some fin f(1) by auto
  then obtain x where x: "heap c' = (heap ?c)[i := x]" "call_SequenceNumber x = seqno ?c i" "call_Finish x = (1, [i])"
    and same: "pendingCalls c' = pendingCalls ?c" "sequenceNumber c' = sequenceNumber ?c" "isShutdown c' = isShutdown ?c"
    by (auto simp: delivered_def Some)
  note d = delivered_table[OF f(3,1) x(1,2) same(1,2)]
  have no: "\<not> held ?t j" for j using t by (simp add: held_def)
  show ?thesis
  proof (rule calls_inv_one[OF inv, where i = i])
    have "caller_inv s i \<Longrightarrow> cc_callers s ! i \<noteq> CSending"
      using \<open>i \<in> registered ?c\<close> by (auto simp: caller_inv_def registered_def)
    then show "caller_inv ?t i"
      using f(1,2) fin(2) no[of i] x by (auto simp: caller_inv_def owed_def d(3) split: caller_pc.splits)
    show "lock_inv ?t" using f(4) by (simp add: lock_inv_def d(4))
    show "table_inv (cc_client ?t)" using d(1) by simp
  qed (use f no t pc x(1) ho in \<open>auto simp: d(3)\<close>)
qed

lemma fail_calls_eq:
  assumes "distinct is" and "\<forall>i \<in> set is. i < length (heap c) \<and> call_Finish (heap c ! i) = (1, [])"
  shows "\<exists>c'. fail_calls err is c = Some c' \<and> pendingCalls c' = pendingCalls c \<and>
     sequenceNumber c' = sequenceNumber c \<and> isShutdown c' = isShutdown c \<and> length (heap c') = length (heap c) \<and>
     (\<forall>j < length (heap c). heap c' ! j =
        (if j \<in> set is then (heap c ! j)\<lparr>call_Error := Some err, call_Finish := (1, [j])\<rparr> else heap c ! j))"
  using assms
proof (induction "is" arbitrary: c)
  case (Cons i "is")
  define d where "d = c\<lparr>heap := (heap c)[i := (heap c ! i)\<lparr>call_Error := Some err, call_Finish := (1, [i])\<rparr>]\<rparr>"
  have f: "fail_call err i c = Some d" using Cons.prems by (simp add: d_def fail_call_eq)
  have "\<forall>j \<in> set is. j < length (heap d) \<and> call_Finish (heap d ! j) = (1, [])"
    using Cons.prems by (auto simp: d_def nth_list_update)
  then obtain c' where c': "fail_calls err is d = Some c'" "pendingCalls c' = pendingCalls d"
    "sequenceNumber c' = sequenceNumber d" "isShutdown c' = isShutdown d" "length (heap c') = length (heap d)"
    "\<forall>j < length (heap d). heap c' ! j =
        (if j \<in> set is then (heap d ! j)\<lparr>call_Error := Some err, call_Finish := (1, [j])\<rparr> else heap d ! j)"
    using Cons.IH[of d] Cons.prems(1) by auto
  then show ?case
    using f Cons.prems by (auto simp: d_def nth_list_update)
qed simp

lemma pending_list:
  assumes "table_inv c"
  shows "distinct (map snd (pendingCalls c))" and "set (map snd (pendingCalls c)) = {i. pending c i}"
proof -
  have d: "dict_ok (pendingCalls c)" using assms by (simp add: table_inv_def)
  then have e: "(k, i) \<in> set (pendingCalls c) \<longleftrightarrow> map_of (pendingCalls c) k = Some i" for k i
    by (simp add: map_of_eq_Some_iff)
  then show "set (map snd (pendingCalls c)) = {i. pending c i}" by (force simp: pending_def)
  have "inj_on snd (set (pendingCalls c))"
    using table_entry[OF assms] e by (auto simp: inj_on_def) metis
  then show "distinct (map snd (pendingCalls c))" using d by (simp add: distinct_map)
qed

lemma terminateCalls_eq:
  assumes inv: "calls_inv s" and nd: "cc_receiver s \<noteq> RDone"
  shows "\<exists>c'. terminateCalls err (cc_client s) = Some c' \<and> pendingCalls c' = pendingCalls (cc_client s) \<and>
     sequenceNumber c' = sequenceNumber (cc_client s) \<and> isShutdown c' \<and>
     length (heap c') = length (heap (cc_client s)) \<and>
     (\<forall>j < length (heap (cc_client s)). heap c' ! j =
        (if pending (cc_client s) j
         then (heap (cc_client s) ! j)\<lparr>call_Error := Some err, call_Finish := (1, [j])\<rparr>
         else heap (cc_client s) ! j))"
proof -
  let ?c = "(cc_client s)\<lparr>isShutdown := True\<rparr>" and ?is = "map snd (pendingCalls (cc_client s))"
  have tab: "table_inv (cc_client s)" using inv by (simp add: calls_inv_def)
  note l = pending_list[OF tab]
  have "\<forall>i \<in> set ?is. i < length (heap ?c) \<and> call_Finish (heap ?c ! i) = (1, [])"
  proof
    fix i assume "i \<in> set ?is"
    then have p: "pending (cc_client s) i" using l(2) by blast
    then have "i < length (heap (cc_client s))" using pending_registered[OF tab] registered_less by blast
    moreover from this have "caller_inv s i" using inv by (simp add: calls_inv_def)
    ultimately show "i < length (heap ?c) \<and> call_Finish (heap ?c ! i) = (1, [])"
      using p nd by (simp add: caller_inv_def owed_def)
  qed
  from fail_calls_eq[OF l(1) this, of err] obtain c' where "fail_calls err ?is ?c = Some c'"
    "pendingCalls c' = pendingCalls ?c" "sequenceNumber c' = sequenceNumber ?c" "isShutdown c' = isShutdown ?c"
    "length (heap c') = length (heap ?c)" "\<forall>j < length (heap ?c). heap c' ! j =
       (if j \<in> set ?is then (heap ?c ! j)\<lparr>call_Error := Some err, call_Finish := (1, [j])\<rparr> else heap ?c ! j)"
    by blast
  then show ?thesis
    unfolding terminateCalls_def l(2) by (intro exI[of _ c']) simp
qed

lemma calls_inv_terminate:
  assumes inv: "calls_inv s" and pc: "cc_receiver s = RTerminate e" and l: "cc_lock s = None"
    and r: "terminateCalls err (cc_client s) = Some c'"
  shows "calls_inv (s\<lparr>cc_client := c', cc_receiver := RDone\<rparr>)" (is "calls_inv ?t")
proof -
  let ?c = "cc_client s"
  have same: "pendingCalls c' = pendingCalls ?c" "sequenceNumber c' = sequenceNumber ?c" "isShutdown c'"
      "length (heap c') = length (heap ?c)"
    and h: "\<And>j. j < length (heap ?c) \<Longrightarrow> heap c' ! j =
        (if pending ?c j then (heap ?c ! j)\<lparr>call_Error := Some err, call_Finish := (1, [j])\<rparr> else heap ?c ! j)"
    using terminateCalls_eq[OF inv, of err] r pc by auto
  have seq: "seqno c' j = seqno ?c j" if "j < length (heap ?c)" for j using h[OF that] by simp
  have tab: "table_inv ?c" and lock: "lock_inv s" and len: "length (cc_callers s) = length (heap ?c)"
    and all: "\<And>j. j < length (heap ?c) \<Longrightarrow> caller_inv s j"
    using inv by (simp_all add: calls_inv_def)
  have no: "\<not> held s j" "\<not> held ?t j" for j using pc by (simp_all add: held_def)
  have pend: "pending c' = pending ?c" using same(1) by (simp add: pending_def fun_eq_iff)
  have "caller_inv ?t j" if j: "j < length (heap ?c)" for j
  proof -
    have "cc_callers s ! j = CSending \<Longrightarrow> \<not> pending ?c j"
      using all[OF j] pending_registered[OF tab, of j] registered_less[of j ?c] by (auto simp: caller_inv_def)
    then show ?thesis
      using all[OF j] no[of j] pc by (auto simp: caller_inv_def owed_def h[OF j] pend split: caller_pc.splits)
  qed
  moreover have "lock_inv ?t" using lock l by (simp add: lock_inv_def)
  moreover have "table_inv c'" by (rule table_inv_cong[OF tab same(1,2,4) seq])
  ultimately show ?thesis
    using len l same no by (simp add: calls_inv_def)
qed

subsection \<open>Reachable states\<close>

lemma finishCall_length: "finishCall i c = Some c' \<Longrightarrow> length (heap c') = length (heap c)"
  by (auto simp: finishCall_def Let_def split: prod.splits if_splits)

lemma fail_call_length: "fail_call err i c = Some c' \<Longrightarrow> length (heap c') = length (heap c)"
  by (auto simp: fail_call_def dest: finishCall_length)

lemma fail_calls_length: "fail_calls err is c = Some c' \<Longrightarrow> length (heap c') = length (heap c)"
  by (induction err "is" c rule: fail_calls.induct)
    (auto simp: bind_eq_Some_conv dest: fail_call_length)

lemma send_add_length:
  "send_add i c = Inl (Some c') \<Longrightarrow> length (heap c') = length (heap c)"
  "send_add i c = Inr (seq, c') \<Longrightarrow> length (heap c') = length (heap c)"
  by (auto simp: send_add_def addCall_def Let_def dest: fail_call_length split: prod.splits sum.splits if_splits)

lemma receive_body_length:
  "receive_body h call c = Some (e, c') \<Longrightarrow> length (heap c') = length (heap c)"
  by (auto simp: receive_body_def Let_def dest!: finishCall_length split: option.splits prod.splits if_splits)

lemma other_lengths:
  "send_undo e k c = Some c' \<Longrightarrow> length (heap c') = length (heap c)"
  "call_canceled x i c = (r, c') \<Longrightarrow> length (heap c') = length (heap c)"
  "call_finished i c = Some (r, c') \<Longrightarrow> length (heap c') = length (heap c)"
  "deleteCall k c = (call, c') \<Longrightarrow> length (heap c') = length (heap c)"
  "terminateCalls err c = Some c' \<Longrightarrow> length (heap c') = length (heap c)"
  by (auto simp: send_undo_def deleteCall_def call_canceled_def call_finished_def terminateCalls_def
      dest: fail_call_length fail_calls_length split: option.splits list.splits prod.splits)

lemmas heap_lengths = send_add_length receive_body_length other_lengths

lemma calls_step_length:
  "calls_step s t \<Longrightarrow> length (heap (cc_client s)) \<le> length (heap (cc_client t))"
  by (induction rule: calls_step.induct) (auto dest!: heap_lengths frame_ops)

lemma calls_inv_step:
  assumes "calls_step s t" and "calls_inv s" and "few_calls s"
  shows "calls_inv t"
  using assms(1)
proof cases
  case (start f x y)
  then show ?thesis using calls_inv_start[OF assms(2)] by (simp add: new_call_def)
next
  case (close r c')
  then show ?thesis using frame_ops(1)[of "cc_client s" r c'] by (auto intro: calls_inv_frame[OF assms(2)])
next
  case (encoded i k c')
  then show ?thesis using calls_inv_encode[OF assms(2), of i k None c' CWaiting None] by simp
next
  case (not_encoded i k e c')
  then show ?thesis
    using calls_inv_encode[OF assms(2), of i k "Some e" c' "CUndoing k e" "cc_lock s" e] by simp
qed (use assms(2,3) in \<open>auto intro: calls_inv_refuse calls_inv_add calls_inv_undo calls_inv_cancel
      calls_inv_finish calls_inv_header calls_inv_match calls_inv_body calls_inv_terminate\<close>)

lemma calls_inv_started: "calls_started s \<Longrightarrow> calls_inv s"
  by (auto simp: calls_started_def calls_start_def new_Client_def calls_inv_def table_inv_def lock_inv_def
      registered_def held_def)

interpretation cc: step_system calls_started calls_step "\<lambda>s. few_calls s \<longrightarrow> calls_inv s"
proof unfold_locales
  show "few_calls s \<longrightarrow> calls_inv s" if "calls_started s" for s
    using that calls_inv_started by blast
  show "few_calls t \<longrightarrow> calls_inv t" if "few_calls s \<longrightarrow> calls_inv s" "calls_step s t" for s t
    using that calls_step_length[of s t] calls_inv_step[of s t] by (auto simp: few_calls_def)
qed

abbreviation calls_reach :: "Calls \<Rightarrow> bool" where
  "calls_reach \<equiv> reach calls_started calls_step"

lemma calls_reach_inv: "calls_reach s \<Longrightarrow> few_calls s \<Longrightarrow> calls_inv s"
  using cc.reach_invar by blast

subsection \<open>What follows\<close>

text \<open>No goroutine ever blocks on the channel of a call.\<close>

definition never_blocks :: "Calls \<Rightarrow> bool" where
  "never_blocks s \<longleftrightarrow>
     (\<forall>i < length (cc_callers s).
        (cc_callers s ! i = CSending \<longrightarrow> send_add i (cc_client s) \<noteq> Inl None) \<and>
        (\<forall>k e. cc_callers s ! i = CUndoing k e \<longrightarrow> send_undo e k (cc_client s) \<noteq> None)) \<and>
     (\<forall>h call. cc_receiver s = RBody h call \<longrightarrow> receive_body h call (cc_client s) \<noteq> None) \<and>
     (\<forall>e. cc_receiver s = RTerminate e \<longrightarrow> terminateCalls (LibError e) (cc_client s) \<noteq> None)"

lemma calls_inv_never_blocks:
  assumes inv: "calls_inv s"
  shows "never_blocks s"
  unfolding never_blocks_def
proof (intro conjI allI impI)
  fix i assume i: "i < length (cc_callers s)"
  note f = caller_fields[OF inv i]
  show "send_add i (cc_client s) \<noteq> Inl None" if "cc_callers s ! i = CSending"
    using that f(1,2) refuse_eq[of i "cc_client s"] by (auto simp: caller_inv_def)
  show "send_undo e k (cc_client s) \<noteq> None" if "cc_callers s ! i = CUndoing k e" for k e
    using that by (cases rule: send_undo_cases[OF inv i, of k e]) auto
next
  fix h call assume pc: "cc_receiver s = RBody h call"
  have "call_Finish (heap (cc_client s) ! i) = (1, []) \<and> i < length (heap (cc_client s))" if "call = Some i" for i
  proof -
    have "held s i" using pc that by (simp add: held_def)
    then have "i < length (heap (cc_client s))" using inv registered_less by (auto simp: calls_inv_def)
    moreover from this have "caller_inv s i" using inv by (simp add: calls_inv_def)
    ultimately show ?thesis using \<open>held s i\<close> pc by (simp add: caller_inv_def owed_def)
  qed
  then show "receive_body h call (cc_client s) \<noteq> None"
    using receive_body_delivers[of call "cc_client s" h] by auto
next
  show "terminateCalls (LibError e) (cc_client s) \<noteq> None" if "cc_receiver s = RTerminate e" for e
    using terminateCalls_eq[OF inv, of "LibError e"] that by auto
qed

text \<open>A caller that waits has its result, or the receiver or the table still has its call.\<close>

lemma waiting_owed:
  assumes inv: "calls_inv s" and i: "i < length (cc_callers s)" and pc: "cc_callers s ! i = CWaiting"
  shows "(\<exists>r c'. call_finished i (cc_client s) = Some (r, c')) \<or> owed s i"
  using caller_fields(2)[OF inv i] pc
  by (auto simp: caller_inv_def call_finished_def)

text \<open>Once registered, a call keeps its number; the receiver holds the call of its response.\<close>

lemma list_update_seqno [simp]:
  "call_SequenceNumber x = call_SequenceNumber (xs ! i) \<Longrightarrow>
   call_SequenceNumber (xs[i := x] ! j) = call_SequenceNumber (xs ! j)"
  by (cases "i < length xs"; cases "i = j") (simp_all add: not_less list_update_beyond)

lemma finishCall_seqno: "finishCall i c = Some c' \<Longrightarrow> seqno c' j = seqno c j"
  by (auto simp: finishCall_def Let_def split: prod.splits if_splits)

lemma fail_call_seqno: "fail_call err i c = Some c' \<Longrightarrow> seqno c' j = seqno c j"
  unfolding fail_call_def by (drule finishCall_seqno[of _ _ _ j]) simp

lemma fail_calls_seqno: "fail_calls err is c = Some c' \<Longrightarrow> seqno c' j = seqno c j"
  by (induction err "is" c rule: fail_calls.induct)
    (auto simp: bind_eq_Some_conv dest: fail_call_seqno[of _ _ _ _ j])

lemma other_seqno:
  "send_undo e k c = Some c' \<Longrightarrow> seqno c' j = seqno c j"
  "call_canceled x i c = (r, c') \<Longrightarrow> seqno c' j = seqno c j"
  "call_finished i c = Some (r, c') \<Longrightarrow> seqno c' j = seqno c j"
  "deleteCall k c = (call, c') \<Longrightarrow> seqno c' j = seqno c j"
  "terminateCalls err c = Some c' \<Longrightarrow> seqno c' j = seqno c j"
  "send_add i c = Inl (Some c') \<Longrightarrow> seqno c' j = seqno c j"
  by (auto simp: send_undo_def deleteCall_def call_canceled_def call_finished_def terminateCalls_def
      send_add_def addCall_def Let_def
      dest: fail_call_seqno[of _ _ _ _ j] fail_calls_seqno[of _ _ _ _ j]
      split: option.splits list.splits prod.splits if_splits sum.splits)

lemma receive_body_seqno:
  assumes "receive_body h call c = Some (e, c')"
  shows "seqno c' j = seqno c j"
  using assms
  by (auto simp: receive_body_def Let_def dest!: finishCall_seqno[of _ _ _ j]
      split: option.splits prod.splits if_splits)

lemma send_add_seqno:
  "send_add i c = Inr (k, c') \<Longrightarrow> j \<noteq> i \<Longrightarrow> seqno c' j = seqno c j"
  by (auto simp: send_add_def addCall_def Let_def split: if_splits)

lemma calls_step_seqno:
  assumes "calls_step s t" and inv: "calls_inv s" and j: "j \<in> registered (cc_client s)"
  shows "seqno (cc_client t) j = seqno (cc_client s) j"
  using assms(1)
proof cases
  case (start f x y)
  then show ?thesis using j by (simp add: registered_def nth_append)
next
  case (add i k c')
  have "seqno (cc_client s) i = 0"
    using caller_fields(2)[OF inv add(2)] add(3) by (simp add: caller_inv_def)
  then have "j \<noteq> i" using j by (auto simp: registered_def)
  then show ?thesis using add send_add_seqno[OF add(5)] by simp
qed (auto dest!: other_seqno[where j = j] receive_body_seqno[where j = j] frame_ops)

lemma calls_step_registered:
  assumes "calls_step s t" and inv: "calls_inv s" and j: "j \<in> registered (cc_client s)"
  shows "j \<in> registered (cc_client t)"
  using calls_step_seqno[OF assms] calls_step_length[OF assms(1)] j by (simp add: registered_def)

text \<open>The table only grows when a call is added, under the next number.\<close>

lemma fail_call_pending: "fail_call err i c = Some c' \<Longrightarrow> pendingCalls c' = pendingCalls c"
  by (auto simp: fail_call_def finishCall_def Let_def split: prod.splits if_splits)

lemma fail_calls_pending: "fail_calls err is c = Some c' \<Longrightarrow> pendingCalls c' = pendingCalls c"
  by (induction err "is" c rule: fail_calls.induct) (auto simp: bind_eq_Some_conv dest: fail_call_pending)

lemma receive_body_pending: "receive_body h call c = Some (e, c') \<Longrightarrow> pendingCalls c' = pendingCalls c"
  by (auto simp: receive_body_def finishCall_def Let_def split: option.splits prod.splits if_splits)

lemma other_pending:
  "send_add i c = Inl (Some c') \<Longrightarrow> pendingCalls c' = pendingCalls c"
  "send_add i c = Inr (k, c') \<Longrightarrow> k = sequenceNumber c \<and> pendingCalls c' = AList.update k i (pendingCalls c)"
  "send_undo e k c = Some c' \<Longrightarrow> pendingCalls c' = AList.delete k (pendingCalls c)"
  "call_canceled x i c = (r, c') \<Longrightarrow> pendingCalls c' = AList.delete (seqno c i) (pendingCalls c)"
  "call_finished i c = Some (r, c') \<Longrightarrow> pendingCalls c' = pendingCalls c"
  "deleteCall k c = (call, c') \<Longrightarrow> pendingCalls c' = AList.delete k (pendingCalls c)"
  "terminateCalls err c = Some c' \<Longrightarrow> pendingCalls c' = pendingCalls c"
  by (auto simp: send_add_def addCall_def send_undo_def call_canceled_def deleteCall_def call_finished_def
      terminateCalls_def Let_def dest: fail_call_pending fail_calls_pending
      split: option.splits list.splits prod.splits if_splits sum.splits)

lemma pending_step:
  assumes "calls_step s t" and "map_of (pendingCalls (cc_client t)) k = Some i"
  shows "map_of (pendingCalls (cc_client s)) k = Some i \<or>
    k = sequenceNumber (cc_client s) \<and> i < length (cc_callers s) \<and> cc_callers t ! i = CEncoding k"
  using assms
  by cases (auto simp: update_conv' delete_conv' dest!: other_pending receive_body_pending frame_ops split: if_splits)

lemma waiting_step:
  assumes st: "calls_step s t" and inv: "calls_inv s" and p: "pending (cc_client t) i" and w: "cc_callers t ! i = CWaiting"
  shows "pending (cc_client s) i \<and> (cc_callers s ! i = CWaiting \<or>
    (\<exists>k. i < length (cc_callers s) \<and> cc_callers s ! i = CEncoding k \<and> send_encode i k (cc_client s) = (None, cc_client t)))"
proof -
  obtain k where k: "map_of (pendingCalls (cc_client t)) k = Some i" using p by (auto simp: pending_def)
  then have k': "map_of (pendingCalls (cc_client s)) k = Some i" using pending_step[OF st] w by fastforce
  have tab: "table_inv (cc_client s)" and len: "length (cc_callers s) = length (heap (cc_client s))"
    using inv by (simp_all add: calls_inv_def)
  have i: "i < length (heap (cc_client s))" "seqno (cc_client s) i = k" "k \<noteq> 0"
    using table_entry[OF tab k'] registered_less by auto
  have "cc_callers s ! i = CWaiting \<or>
    (\<exists>k. i < length (cc_callers s) \<and> cc_callers s ! i = CEncoding k \<and> send_encode i k (cc_client s) = (None, cc_client t))"
    using st
  proof cases
    case (refuse j c')
    then have "seqno (cc_client s) j = 0" using caller_fields(2)[OF inv refuse(2)] by (simp add: caller_inv_def)
    then show ?thesis using refuse w i by (cases "j = i") auto
  next
    case (undo j q e c')
    then have "seqno (cc_client s) j = q" using lock_holder(2)[OF inv undo(2), of q] by simp
    then show ?thesis using undo w i k other_pending(3)[OF undo(4)] by (cases "j = i") (auto simp: delete_conv')
  next
    case (encoded j q c')
    then show ?thesis using w by (cases "j = i") auto
  qed (use w i len in \<open>auto simp: nth_append nth_list_update split: if_splits\<close>)
  then show ?thesis using k' by (auto simp: pending_def)
qed

definition matched :: "Calls \<Rightarrow> bool" where
  "matched s \<longleftrightarrow> (\<forall>h i. cc_receiver s = RBody h (Some i) \<longrightarrow>
     i \<in> registered (cc_client s) \<and> seqno (cc_client s) i = SequenceNumber h)"

lemma matched_step:
  assumes st: "calls_step s t" and inv: "calls_inv s" and m: "matched s"
  shows "matched t"
proof (cases "\<exists>h i. cc_receiver t = RBody h (Some i)")
  case True
  then obtain h i where t: "cc_receiver t = RBody h (Some i)" by blast
  have "cc_receiver s = cc_receiver t \<or>
      (cc_receiver s = RMatch h \<and> map_of (pendingCalls (cc_client s)) (SequenceNumber h) = Some i)"
    using st t by cases (auto simp: deleteCall_def)
  then have "i \<in> registered (cc_client s) \<and> seqno (cc_client s) i = SequenceNumber h"
    using m t inv table_entry[of "cc_client s" "SequenceNumber h" i] by (auto simp: matched_def calls_inv_def)
  then show ?thesis
    using t calls_step_registered[OF st inv, of i] calls_step_seqno[OF st inv, of i] by (simp add: matched_def)
qed (simp add: matched_def)

lemma calls_reach_matched:
  assumes "calls_reach s" and "few_calls s"
  shows "matched s"
  using assms
proof (induction rule: reach.induct)
  case (reach_init s)
  then show ?case by (auto simp: calls_started_def calls_start_def matched_def)
next
  case (reach_step s t)
  then have "few_calls s" using calls_step_length[of s t] by (simp add: few_calls_def)
  with reach_step show ?case using matched_step calls_reach_inv by blast
qed

subsection \<open>A run that sends a call\<close>

lemma send_steps:
  assumes len: "length (cc_callers s) = length (heap (cc_client s))"
    and l: "cc_lock s = None" and a: "IsAvailable (cc_client s)" and h: "healthy (cl_coder (cc_client s))"
    and j: "marshal inputs = Some j"
  shows "\<exists>s1 s2 t. calls_step s s1 \<and> calls_step s1 s2 \<and> calls_step s2 t \<and>
     heap (cc_client s1) = heap (cc_client s) @ [new_call f inputs outp 1] \<and>
     cc_receiver s1 = cc_receiver s \<and> cc_receiver s2 = cc_receiver s \<and> length (heap (cc_client s2)) = length (heap (cc_client s1)) \<and>
     cc_lock t = None \<and> cc_receiver t = cc_receiver s \<and>
     cc_callers t = cc_callers s @ [CWaiting] \<and> IsAvailable (cc_client t) \<and> healthy (cl_coder (cc_client t)) \<and>
     incoming (cl_coder (cc_client t)) = incoming (cl_coder (cc_client s)) \<and>
     sent (cl_coder (cc_client t)) = sent (cl_coder (cc_client s)) @ [header_json \<lparr>ServiceDotMethod = f,
       SequenceNumber = sequenceNumber (cc_client s), Error = []\<rparr>, j] \<and>
     pendingCalls (cc_client t) = AList.update (sequenceNumber (cc_client s)) (length (heap (cc_client s))) (pendingCalls (cc_client s)) \<and>
     sequenceNumber (cc_client t) = sequenceNumber (cc_client s) + 1 \<and>
     heap (cc_client t) = heap (cc_client s) @ [(new_call f inputs outp 1)\<lparr>call_SequenceNumber := sequenceNumber (cc_client s)\<rparr>]"
proof -
  let ?c = "cc_client s" and ?n = "length (heap (cc_client s))" and ?k = "sequenceNumber (cc_client s)"
  let ?call = "new_call f inputs outp 1"
  let ?s1 = "s\<lparr>cc_callers := cc_callers s @ [CSending], cc_client := ?c\<lparr>heap := heap ?c @ [?call]\<rparr>\<rparr>"
  let ?c2 = "?c\<lparr>heap := heap ?c @ [?call\<lparr>call_SequenceNumber := ?k\<rparr>],
    pendingCalls := AList.update ?k ?n (pendingCalls ?c), sequenceNumber := ?k + 1\<rparr>"
  let ?s2 = "?s1\<lparr>cc_client := ?c2, cc_lock := Some ?n, cc_callers := (cc_callers ?s1)[?n := CEncoding ?k]\<rparr>"
  let ?hdr = "(requestHeader ?c)\<lparr>ServiceDotMethod := f, SequenceNumber := ?k, Error := []\<rparr>"
  obtain jc where jc: "jc_EncodeMessageHeaderAndBody (cl_coder ?c) ?hdr inputs = (None, jc)"
    "healthy jc" "incoming jc = incoming (cl_coder ?c)" "sent jc = sent (cl_coder ?c) @ [header_json ?hdr, j]"
    using encode_ok[OF h j, of ?hdr] by blast
  let ?c3 = "?c2\<lparr>requestHeader := ?hdr, cl_coder := jc\<rparr>"
  let ?s3 = "?s2\<lparr>cc_client := ?c3, cc_lock := None, cc_callers := (cc_callers ?s2)[?n := CWaiting]\<rparr>"
  have 1: "calls_step s ?s1" by (rule start)
  have "send_add ?n (cc_client ?s1) = Inr (?k, ?c2)"
    using a by (simp add: send_add_def addCall_def IsAvailable_def update_call_def Let_def)
  then have 2: "calls_step ?s1 ?s2" by (intro add) (simp_all add: l len nth_append)
  have "send_encode ?n ?k (cc_client ?s2) = (None, ?c3)"
    using jc(1) by (simp add: send_encode_def nth_append new_call_def)
  then have 3: "calls_step ?s2 ?s3" by (intro encoded) (simp_all add: len nth_append)
  have 4: "cc_callers ?s3 = cc_callers s @ [CWaiting]" using len by (simp add: list_update_append)
  have 5: "IsAvailable (cc_client ?s3)" using a by (simp add: IsAvailable_def)
  show ?thesis
    by (rule exI[of _ ?s1], rule exI[of _ ?s2], rule exI[of _ ?s3], intro conjI, rule 1, rule 2, rule 3)
      (simp_all only: 4 5, simp_all add: jc header_json_def)
qed

lemma send_run:
  assumes r: "calls_reach s" and "length (cc_callers s) = length (heap (cc_client s))"
    and "cc_lock s = None" and "IsAvailable (cc_client s)" and "healthy (cl_coder (cc_client s))"
    and "marshal inputs = Some j"
  shows "\<exists>t. calls_reach t \<and> cc_lock t = None \<and> cc_receiver t = cc_receiver s \<and>
     cc_callers t = cc_callers s @ [CWaiting] \<and> IsAvailable (cc_client t) \<and> healthy (cl_coder (cc_client t)) \<and>
     incoming (cl_coder (cc_client t)) = incoming (cl_coder (cc_client s)) \<and>
     pendingCalls (cc_client t) = AList.update (sequenceNumber (cc_client s)) (length (heap (cc_client s))) (pendingCalls (cc_client s)) \<and>
     sequenceNumber (cc_client t) = sequenceNumber (cc_client s) + 1 \<and>
     heap (cc_client t) = heap (cc_client s) @ [(new_call f inputs outp 1)\<lparr>call_SequenceNumber := sequenceNumber (cc_client s)\<rparr>]"
  using send_steps[OF assms(2-6), of f outp] reach_step[of calls_started calls_step] r by blast

definition sample_error :: MessageHeader where
  "sample_error = \<lparr>ServiceDotMethod = ''Arithmetic.Division'', SequenceNumber = 1, Error = ''divide by zero''\<rparr>"

definition sample_client :: "json list \<Rightarrow> Client" where
  "sample_client js = new_Client (NewJsonCoder (sample_connection [js])) DefaultConnectionInfo ''tcp@127.0.0.1:7''"

lemma calls_start_reach: "calls_reach (calls_start (sample_client js))"
  by (rule reach_init) (auto simp: calls_started_def sample_client_def)

text \<open>Two calls that wait for their responses.\<close>

lemma sample_waiting:
  "\<exists>s. calls_reach s \<and> few_calls s \<and> cc_receiver s = RHeader \<and> cc_lock s = None \<and> cc_callers s = [CWaiting, CWaiting] \<and>
     healthy (cl_coder (cc_client s)) \<and> incoming (cl_coder (cc_client s)) = js \<and>
     pendingCalls (cc_client s) = [(1, 0), (2, 1)] \<and> length (heap (cc_client s)) = 2"
proof -
  let ?c = "sample_client js"
  have c: "healthy (cl_coder ?c)" "IsAvailable ?c" "incoming (cl_coder ?c) = js" "heap ?c = []"
    "sequenceNumber ?c = 1" "pendingCalls ?c = []"
    by (simp_all add: sample_client_def new_Client_def IsAvailable_def)
  obtain t where t: "calls_reach t" "cc_lock t = None" "cc_receiver t = RHeader" "cc_callers t = [CWaiting]"
    "IsAvailable (cc_client t)" "healthy (cl_coder (cc_client t))" "incoming (cl_coder (cc_client t)) = js"
    "pendingCalls (cc_client t) = [(1, 0)]" "sequenceNumber (cc_client t) = 2" "length (heap (cc_client t)) = 1"
    using send_run[OF calls_start_reach[of js], of "VInt 1" "JNum 1" "''A.B''" None] c
    by (auto simp: calls_start_def)
  obtain s where "calls_reach s" "cc_lock s = None" "cc_receiver s = RHeader" "cc_callers s = [CWaiting, CWaiting]"
    "healthy (cl_coder (cc_client s))" "incoming (cl_coder (cc_client s)) = js"
    "pendingCalls (cc_client s) = [(1, 0), (2, 1)]" "length (heap (cc_client s)) = 2"
    using send_run[OF t(1), of "VInt 1" "JNum 1" "''A.B''" None] t by auto
  then show ?thesis by (intro exI[of _ s]) (simp add: few_calls_def)
qed

text \<open>The first of them has got an error response whose body is still to be read.\<close>

lemma sample_receiving:
  "\<exists>s. calls_reach s \<and> few_calls s \<and> cc_receiver s = RBody sample_error (Some 0) \<and> cc_lock s = None \<and>
     conn_open (connection (cl_coder (cc_client s))) \<and> incoming (cl_coder (cc_client s)) = [JObj []] \<and>
     pending (cc_client s) 1 \<and> length (heap (cc_client s)) = 2"
proof -
  obtain s where s: "calls_reach s" "few_calls s" "cc_receiver s = RHeader" "cc_lock s = None"
    "healthy (cl_coder (cc_client s))" "incoming (cl_coder (cc_client s)) = [header_json sample_error, JObj []]"
    "pendingCalls (cc_client s) = [(1, 0), (2, 1)]" "length (heap (cc_client s)) = 2"
    using sample_waiting[of "[header_json sample_error, JObj []]"] by blast
  have "conn_open (connection (cl_coder (cc_client s)))" using s(5) by (simp add: healthy_def)
  moreover have "received_header sample_error = sample_error" by (simp add: sample_error_def)
  ultimately obtain jc where jc: "jc_DecodeMessageHeader (cl_coder (cc_client s)) empty_header = ((None, sample_error), jc)"
    "incoming jc = [JObj []]" "conn_open (connection jc)" using decode_header_next[OF _ s(6)] by metis
  let ?c1 = "(cc_client s)\<lparr>cl_coder := jc\<rparr>"
  let ?s1 = "s\<lparr>cc_client := ?c1, cc_receiver := RMatch sample_error\<rparr>"
  let ?s2 = "?s1\<lparr>cc_client := ?c1\<lparr>pendingCalls := [(2, 1)]\<rparr>, cc_receiver := RBody sample_error (Some 0)\<rparr>"
  have "calls_step s ?s1" using header[of s sample_error ?c1] s(3) jc(1) by (simp add: receive_header_def)
  moreover have "calls_step ?s1 ?s2"
    by (rule match_) (simp_all add: deleteCall_def s(7) sample_error_def)
  ultimately have "calls_reach ?s2" using s(1) by (meson reach_step)
  moreover have "pending (cc_client ?s2) 1" by (auto simp: pending_def intro: exI[of _ 2])
  ultimately show ?thesis
    using s jc by (intro exI[of _ ?s2]) (simp add: few_calls_def)
qed

subsection \<open>Properties\<close>

text \<open>
  C21. No goroutine of a client ever blocks while it finishes a call: in every reachable state the
  channels (of capacity 1) that a refused or failed send, the receiver and the shutdown send on have
  room, so the locks that these hold are always released.
\<close>

theorem finishing_never_blocks:
  assumes "calls_reach s" and "few_calls s"
  shows "never_blocks s"
  by (rule calls_inv_never_blocks[OF calls_reach_inv[OF assms]])

theorem finishing_never_blocks_witness:
  "\<exists>s. calls_reach s \<and> cc_receiver s = RBody sample_error (Some 0) \<and>
     receive_body sample_error (Some 0) (cc_client s) \<noteq> None"
proof -
  obtain s where "calls_reach s" "few_calls s" "cc_receiver s = RBody sample_error (Some 0)"
    using sample_receiving by blast
  then show ?thesis using finishing_never_blocks[of s] by (auto simp: never_blocks_def)
qed

text \<open>
  C10. No call is lost: a caller that waits either has its result in its channel already, or the
  receiver is still running and has the call in hand or finds it in the table under the call's own
  sequence number.
\<close>

theorem no_call_is_lost:
  assumes "calls_reach s" and "few_calls s" and "i < length (cc_callers s)" and "cc_callers s ! i = CWaiting"
  shows "(\<exists>r c'. call_finished i (cc_client s) = Some (r, c')) \<or>
    cc_receiver s \<noteq> RDone \<and> ((\<exists>h. cc_receiver s = RBody h (Some i)) \<or>
      map_of (pendingCalls (cc_client s)) (call_SequenceNumber (heap (cc_client s) ! i)) = Some i)"
proof -
  have inv: "calls_inv s" using calls_reach_inv[OF assms(1,2)] .
  then have "table_inv (cc_client s)" by (simp add: calls_inv_def)
  then show ?thesis
    using waiting_owed[OF inv assms(3,4)] pending_iff[of "cc_client s" i] by (auto simp: owed_def held_def)
qed

theorem no_call_is_lost_witness:
  "\<exists>s. calls_reach s \<and> cc_callers s ! 1 = CWaiting \<and>
     ((\<exists>r c'. call_finished 1 (cc_client s) = Some (r, c')) \<or> (\<exists>h. cc_receiver s = RBody h (Some 1)) \<or>
      map_of (pendingCalls (cc_client s)) (call_SequenceNumber (heap (cc_client s) ! 1)) = Some 1)"
proof -
  obtain s where "calls_reach s" "few_calls s" "cc_callers s = [CWaiting, CWaiting]"
    using sample_waiting[of "[]"] by blast
  then show ?thesis using no_call_is_lost[of s 1] by auto
qed

text \<open>
  After the shutdown nobody waits in vain: once the receiver has terminated the calls, every
  caller that waits finds its result in its channel.
\<close>

lemma shutdown_releases_callers:
  assumes "calls_reach s" and "few_calls s" and "cc_receiver s = RDone"
    and "i < length (cc_callers s)" and "cc_callers s ! i = CWaiting"
  shows "\<exists>r c'. call_finished i (cc_client s) = Some (r, c')"
  using waiting_owed[OF calls_reach_inv[OF assms(1,2)] assms(4,5)] assms(3) by (simp add: owed_def)

text \<open>
  C11. Responses reach the right call: when the receiver has matched a response with a call, that is
  the one call with the response's sequence number, however calls, cancellations and responses have
  been interleaved.
\<close>

theorem response_matches_call:
  assumes "calls_reach s" and "few_calls s" and "cc_receiver s = RBody h (Some i)"
  shows "call_SequenceNumber (heap (cc_client s) ! i) = SequenceNumber h \<and>
    (\<forall>j < length (heap (cc_client s)). call_SequenceNumber (heap (cc_client s) ! j) = SequenceNumber h \<longrightarrow> j = i)"
proof -
  have "matched s" by (rule calls_reach_matched[OF assms(1,2)])
  then have i: "i \<in> registered (cc_client s)" "seqno (cc_client s) i = SequenceNumber h"
    using assms(3) by (auto simp: matched_def)
  moreover have "inj_on (seqno (cc_client s)) (registered (cc_client s))"
    using calls_reach_inv[OF assms(1,2)] by (simp add: calls_inv_def table_inv_def)
  ultimately show ?thesis by (auto simp: inj_on_def registered_def)
qed

theorem response_matches_call_witness:
  "\<exists>s. calls_reach s \<and> cc_receiver s = RBody sample_error (Some 0) \<and> call_SequenceNumber (heap (cc_client s) ! 0) = 1"
proof -
  obtain s where "calls_reach s" "few_calls s" "cc_receiver s = RBody sample_error (Some 0)"
    using sample_receiving by blast
  then show ?thesis using response_matches_call[of s sample_error 0] by (auto simp: sample_error_def)
qed

text \<open>
  C12. One failed call fails all: when the response to a call carries an error, the body is decoded
  into nil, which package json refuses; the receiver then shuts the client down, and every other
  pending call fails with that decoding error. (The failed call's own error is \<^verbatim>\<open>fmt.Errorf\<close> of the
  text in the response.)
\<close>

theorem error_response_fails_all_calls:
  assumes r: "calls_reach s" and few: "few_calls s" and pc: "cc_receiver s = RBody h (Some i)"
    and e: "Error h \<noteq> []" and l: "cc_lock s = None"
    and inc: "conn_open (connection (cl_coder (cc_client s)))" "incoming (cl_coder (cc_client s)) = b # w"
  shows "\<exists>t. calls_step\<^sup>*\<^sup>* s t \<and> cc_receiver t = RDone \<and> isShutdown (cc_client t) \<and>
    call_Error (heap (cc_client t) ! i) = Some (ResponseError (fmt_Errorf (Error h))) \<and>
    (\<forall>j. pending (cc_client s) j \<longrightarrow> call_Error (heap (cc_client t) ! j) = Some (LibError JsonInvalidTarget))"
proof -
  let ?c = "cc_client s" and ?E = "JsonInvalidTarget"
  have inv: "calls_inv s" using calls_reach_inv[OF r few] .
  have hi: "held s i" using pc by (simp add: held_def)
  then have i: "i < length (heap ?c)" using inv registered_less by (auto simp: calls_inv_def)
  then have ci: "caller_inv s i" using inv by (simp add: calls_inv_def)
  with hi pc have fin: "call_Finish (heap ?c ! i) = (1, [])" and np: "\<not> pending ?c i"
    by (auto simp: caller_inv_def owed_def)
  obtain jc where jc: "jc_DecodeMessageBody (cl_coder ?c) None = ((Some ?E, None), jc)"
    using decode_nil_next[OF inc] by blast
  let ?x = "(heap ?c ! i)\<lparr>call_Error := Some (ResponseError (fmt_Errorf (Error h))), call_Finish := (1, [i])\<rparr>"
  let ?c1 = "?c\<lparr>cl_coder := jc, heap := (heap ?c)[i := ?x]\<rparr>"
  have "receive_body h (Some i) ?c = Some (Some ?E, ?c1)"
    using jc e fin i by (simp add: receive_body_def finishCall_def update_call_def)
  from bad_body[OF pc this]
  have st: "calls_step s (s\<lparr>cc_client := ?c1, cc_receiver := RTerminate ?E\<rparr>)" (is "calls_step s ?t") .
  have inv': "calls_inv ?t" using calls_inv_step[OF st inv few] .
  have pend: "pending (?c\<lparr>cl_coder := a, heap := hs\<rparr>) = pending ?c" for a hs by (simp add: pending_def fun_eq_iff)
  obtain c2 where c2: "terminateCalls (LibError ?E) (cc_client ?t) = Some c2" "isShutdown c2"
    "\<And>j. j < length (heap ?c) \<Longrightarrow> heap c2 ! j = (if pending ?c j
        then ((heap ?c)[i := ?x] ! j)\<lparr>call_Error := Some (LibError ?E), call_Finish := (1, [j])\<rparr> else (heap ?c)[i := ?x] ! j)"
    using terminateCalls_eq[OF inv', of "LibError ?E"] by (auto simp: pend)
  let ?u = "?t\<lparr>cc_client := c2, cc_receiver := RDone\<rparr>"
  have "calls_step ?t ?u" by (rule terminate[of _ ?E]) (use l c2(1) in simp_all)
  with st have "calls_step\<^sup>*\<^sup>* s ?u" by (meson r_into_rtranclp rtranclp_trans)
  moreover have "call_Error (heap c2 ! i) = Some (ResponseError (fmt_Errorf (Error h)))" using c2(3)[OF i] np i by simp
  moreover have "call_Error (heap c2 ! j) = Some (LibError ?E)" if "pending ?c j" for j
  proof -
    have "table_inv ?c" using inv by (simp add: calls_inv_def)
    then have "j < length (heap ?c)" using that pending_registered registered_less by blast
    then show ?thesis using c2(3)[of j] that by simp
  qed
  ultimately show ?thesis using c2(2) by (intro exI[of _ ?u]) simp
qed

theorem error_response_fails_all_calls_witness:
  "\<exists>s t. calls_reach s \<and> pending (cc_client s) 1 \<and> calls_step\<^sup>*\<^sup>* s t \<and>
     call_Error (heap (cc_client t) ! 0) = Some (ResponseError ''divide by zero'') \<and>
     call_Error (heap (cc_client t) ! 1) = Some (LibError JsonInvalidTarget)"
proof -
  obtain s where s: "calls_reach s" "few_calls s" "cc_receiver s = RBody sample_error (Some 0)" "cc_lock s = None"
    "conn_open (connection (cl_coder (cc_client s)))" "incoming (cl_coder (cc_client s)) = [JObj []]" "pending (cc_client s) 1"
    using sample_receiving by blast
  have "Error sample_error \<noteq> []" by (simp add: sample_error_def)
  from error_response_fails_all_calls[OF s(1-3) this s(4-6)] show ?thesis
    using s(1,7) by (auto simp: sample_error_def fmt_Errorf_plain)
qed

text \<open>
  A call on a client that is closed or shut down fails at once: its error is in its channel when
  \<^verbatim>\<open>sendCall\<close> returns, and nothing else of the client has changed; in particular nothing is sent.
\<close>

theorem unavailable_client_refuses:
  assumes "\<not> IsAvailable c" and "i < length (heap c)" and "call_Finish (heap c ! i) = (1, [])"
  shows "\<exists>c' err. sendCall i c = Some c' \<and> err \<in> {ClientClosed, ClientShutdown} \<and>
    call_finished i c' = Some (Some err, c'\<lparr>heap := (heap c)[i := (heap c ! i)\<lparr>call_Error := Some err\<rparr>]\<rparr>) \<and>
    cl_coder c' = cl_coder c \<and> pendingCalls c' = pendingCalls c \<and> sequenceNumber c' = sequenceNumber c"
proof -
  let ?err = "if isClosed c then ClientClosed else ClientShutdown"
  let ?c' = "c\<lparr>heap := (heap c)[i := (heap c ! i)\<lparr>call_Error := Some ?err, call_Finish := (Suc 0, [i])\<rparr>]\<rparr>"
  have same: "(heap c ! i)\<lparr>call_Error := x, call_Finish := (Suc 0, [])\<rparr> = (heap c ! i)\<lparr>call_Error := x\<rparr>" for x
    using assms(3) by (cases "heap c ! i") simp
  have "sendCall i c = Some ?c'" using sendCall_unavailable[OF assms(1,2), of 0] assms(3) by simp
  moreover have "call_finished i ?c' = Some (Some ?err, ?c'\<lparr>heap := (heap c)[i := (heap c ! i)\<lparr>call_Error := Some ?err\<rparr>]\<rparr>)"
    using assms(2) same by (simp add: call_finished_def update_call_def)
  ultimately show ?thesis by (intro exI[of _ ?c'] exI[of _ ?err]) simp
qed

theorem unavailable_client_refuses_witness:
  "\<exists>c'. sendCall 0 ((sample_client [])\<lparr>isClosed := True, heap := [new_call ''A.B'' (VInt 1) None 1]\<rparr>) = Some c' \<and>
     pendingCalls c' = []"
  using unavailable_client_refuses[of "(sample_client [])\<lparr>isClosed := True, heap := [new_call ''A.B'' (VInt 1) None 1]\<rparr>" 0]
  by (auto simp: IsAvailable_def new_call_def sample_client_def new_Client_def)

end
