(* ===== verification/Rpc.thy ===== *)
theory Rpc
  imports Serve_Coder Client_Calls
begin

text \<open>
  One call from end to end: the client sends it, the server reads it, calls the method and
  responds, and the client receives the response, each with the operations of its own theory. The
  network hands over what the other side has newly sent.
\<close>

subsection \<open>The network\<close>

definition deliver :: "json list \<Rightarrow> JsonCoder \<Rightarrow> JsonCoder" where
  "deliver js jc = jc\<lparr>connection := (connection jc)\<lparr>conn_recv := conn_recv (connection jc) @ [js]\<rparr>\<rparr>"

definition newly_sent :: "JsonCoder \<Rightarrow> JsonCoder \<Rightarrow> json list" where
  "newly_sent before after = drop (length (sent before)) (sent after)"

lemma deliver_simps [simp]:
  "incoming (deliver js jc) = incoming jc @ js"
  "sent (deliver js jc) = sent jc"
  "healthy (deliver js jc) = healthy jc"
  "conn_open (connection (deliver js jc)) = conn_open (connection jc)"
  by (simp_all add: deliver_def incoming_def sent_def healthy_def)

lemma newly_sent_append: "sent jc' = sent jc @ js \<Longrightarrow> newly_sent jc jc' = js"
  by (simp add: newly_sent_def)

subsection \<open>The call\<close>

text \<open>The server's part: one turn of the loop and the handler of the request, with no time limit hit.\<close>

definition rpc_server :: "Server \<Rightarrow> JsonCoder \<Rightarrow> (Server \<times> JsonCoder) option" where
  "rpc_server srv jc =
     (case serve_turn srv jc of
        (Accepted r, jc1) \<Rightarrow>
          (case call_request srv r of
             (Ret (err, output), srv1) \<Rightarrow>
               (let r1 = r\<lparr>req_output := Some output\<rparr>
                in Some (srv1, send_response jc1 (call_header r1 err) (call_body r1 err)))
           | _ \<Rightarrow> None)
      | _ \<Rightarrow> None)"

definition rpc :: "Server \<Rightarrow> JsonCoder \<Rightarrow> nat \<Rightarrow> Client \<Rightarrow> (Server \<times> JsonCoder \<times> lib_error option \<times> Client) option" where
  "rpc srv jc i c =
     (case sendCall i c of
        None \<Rightarrow> None
      | Some c1 \<Rightarrow>
          (let jc1 = deliver (newly_sent (cl_coder c) (cl_coder c1)) jc
           in case rpc_server srv jc1 of
                None \<Rightarrow> None
              | Some (srv1, jc2) \<Rightarrow>
                  (case receive_turn (c1\<lparr>cl_coder := deliver (newly_sent jc1 jc2) (cl_coder c1)\<rparr>) of
                     None \<Rightarrow> None
                   | Some (e, c2) \<Rightarrow> Some (srv1, jc2, e, c2))))"

subsection \<open>The server's part\<close>

text \<open>The type that the body of a request is decoded as.\<close>

definition input_elem :: "Method \<Rightarrow> go_type" where
  "input_elem m = (case underlying (InputType m) of TPtr t \<Rightarrow> t | _ \<Rightarrow> InputType m)"

definition input_of :: "Method \<Rightarrow> go_value \<Rightarrow> go_value" where
  "input_of m v = (if type_Kind (InputType m) = KPtr then VPtr v else v)"

lemma kind_ptr_iff: "type_Kind t = KPtr \<longleftrightarrow> (\<exists>u. underlying t = TPtr u)"
  by (induction t) auto

text \<open>A method as registration makes it: its two parameters are the types it was registered with.\<close>

definition well_formed :: "Method \<Rightarrow> bool" where
  "well_formed m \<longleftrightarrow> length (rm_In (methodType m)) = 3 \<and> rm_In (methodType m) ! 1 = InputType m \<and>
     rm_In (methodType m) ! 2 = OutputType m \<and> type_ok (InputType m) \<and> type_ok (OutputType m) \<and>
     type_Kind (OutputType m) = KPtr"

lemma input_created:
  assumes "well_formed m"
  shows "\<exists>input. CreateInput m = Ret input \<and> assignable (rv_Type input) (InputType m) \<and>
    decode_target input = \<lparr>rv_Type = TPtr (input_elem m), rv_Val = VPtr (zero_value (input_elem m))\<rparr> \<and>
    (\<forall>v. rv_Type (decoded_input input (Some \<lparr>rv_Type = TPtr (input_elem m), rv_Val = VPtr v\<rparr>)) = rv_Type input \<and>
         rv_Val (decoded_input input (Some \<lparr>rv_Type = TPtr (input_elem m), rv_Val = VPtr v\<rparr>)) = input_of m v)"
proof (cases "type_Kind (InputType m) = KPtr")
  case True
  then obtain u where u: "underlying (InputType m) = TPtr u" "type_Elem (InputType m) = Ret u"
    using underlying_ptr by blast
  show ?thesis
    by (rule exI[of _ "reflect_New u"])
      (use True u in \<open>simp add: CreateInput_def reflect_New_def decode_target_def decoded_input_def
         input_elem_def input_of_def assignable_ptr\<close>)
next
  case False
  then have e: "input_elem m = InputType m"
    using kind_ptr_iff[of "InputType m"] by (auto simp: input_elem_def split: go_type.splits)
  show ?thesis
    by (rule exI[of _ "\<lparr>rv_Type = InputType m, rv_Val = zero_value (InputType m)\<rparr>"])
      (use False e in \<open>auto simp: CreateInput_def decode_target_def decoded_input_def input_of_def
         split: go_kind.splits\<close>)
qed

lemma rpc_server_runs:
  assumes jc: "healthy jc" and inc: "incoming jc = header_json h # j # w"
    and search: "search_service srv (ServiceDotMethod h) = (Some s, Some n, None)"
    and svc: "map_of (ServiceMap srv) s = Some svc" "map_of (ServiceMethod svc) n = Some m"
    and m: "well_formed m" "MethodName m = n" and ok: "header_ok h"
    and v: "typed (input_elem m) v" "type_ok (input_elem m)" "sendable v" "marshal v = Some j"
    and out: "CreateOutput m = Ret output"
    and f: "rm_Func (methodType m) (sv_Val (serviceValue svc)) (input_of m v) (rv_Val output) = Ret (err, recv, reply)"
    and reply: "err = None \<longrightarrow> marshal reply = Some jr"
  shows "\<exists>srv1 jc1. rpc_server srv jc = Some (srv1, jc1) \<and> healthy jc1 \<and> incoming jc1 = w \<and>
     sent jc1 = sent jc @ (case err of
        None \<Rightarrow> [header_json h, jr] | Some e \<Rightarrow> [header_json (h\<lparr>Error := e\<rparr>), JObj []]) \<and>
     srv1 = srv\<lparr>ServiceMap := AList.update s ((count_call n svc)
       \<lparr>serviceValue := (serviceValue svc)\<lparr>sv_Val := recv\<rparr>\<rparr>) (ServiceMap srv)\<rparr>"
proof -
  obtain input where input: "CreateInput m = Ret input" "assignable (rv_Type input) (InputType m)"
    "decode_target input = \<lparr>rv_Type = TPtr (input_elem m), rv_Val = VPtr (zero_value (input_elem m))\<rparr>"
    "\<And>v. rv_Type (decoded_input input (Some \<lparr>rv_Type = TPtr (input_elem m), rv_Val = VPtr v\<rparr>)) = rv_Type input"
    "\<And>v. rv_Val (decoded_input input (Some \<lparr>rv_Type = TPtr (input_elem m), rv_Val = VPtr v\<rparr>)) = input_of m v"
    using input_created[OF m(1)] by blast
  have fm: "find_method srv (Some s) (Some n) = Some m" using svc by (simp add: find_method_def)
  let ?in = "decoded_input input (Some \<lparr>rv_Type = TPtr (input_elem m), rv_Val = VPtr v\<rparr>)"
  let ?r = "\<lparr>req_header = h, req_service = Some s, req_method = Some n, req_input = Some ?in, req_output = Some output\<rparr>"
  have op: "conn_open (connection jc)" using jc by (simp add: healthy_def)
  have "unmarshal (input_elem m) j (zero_value (input_elem m)) = (v, False)"
    using unmarshal_marshal[OF v(1-4)] .
  from serve_turn_accepts[OF op inc ok search fm input(1) out input(3) this]
  obtain jc1 where t: "serve_turn srv jc = (Accepted ?r, jc1)" "incoming jc1 = w" "sent jc1 = sent jc" "healthy jc1"
    using jc by auto
  have "assignable (rv_Type output) (OutputType m)"
    using CreateOutput_typed[of m] m(1) out by (auto simp: well_formed_def)
  moreover have cs: "serviceValue (count_call n svc) = serviceValue svc"
    by (simp add: count_call_def split: option.split)
  ultimately have call: "call_request srv ?r = (Ret (map_option UserError err, output\<lparr>rv_Val := reply\<rparr>),
      srv\<lparr>ServiceMap := AList.update s ((count_call n svc)\<lparr>serviceValue := (serviceValue svc)\<lparr>sv_Val := recv\<rparr>\<rparr>) (ServiceMap srv)\<rparr>)"
    using m input(2,4,5) svc fm f by (simp add: call_request_def service_Call_def well_formed_def cs)
  show ?thesis
  proof (cases err)
    case None
    then show ?thesis
      using t call reply send_response_ok[OF t(4), of reply jr h]
      by (simp add: rpc_server_def call_header_def call_body_def Let_def)
  next
    case (Some e)
    then show ?thesis
      using t call send_response_ok[OF t(4), of invalidRequest "JObj []" "h\<lparr>Error := e\<rparr>"]
      by (simp add: rpc_server_def call_header_def call_body_def Let_def)
  qed
qed

subsection \<open>The round trip\<close>

text \<open>
  The call \<open>i\<close> of a client, ready to be sent (the names are UTF-8, as all Go identifiers are), and what the
  server makes of it.
\<close>

definition ready :: "Client \<Rightarrow> nat \<Rightarrow> string \<Rightarrow> string \<Rightarrow> bool" where
  "ready c i s n \<longleftrightarrow> healthy (cl_coder c) \<and> incoming (cl_coder c) = [] \<and> IsAvailable c \<and>
     i < length (heap c) \<and> call_ServiceDotMethod (heap c ! i) = s @ CHR ''.'' # n \<and> CHR ''.'' \<notin> set n \<and>
     utf8_valid (s @ CHR ''.'' # n) \<and>
     call_Finish (heap c ! i) = (1, [])"

definition serves :: "Server \<Rightarrow> string \<Rightarrow> string \<Rightarrow> Service \<Rightarrow> Method \<Rightarrow> bool" where
  "serves srv s n svc m \<longleftrightarrow> map_of (ServiceMap srv) s = Some svc \<and> map_of (ServiceMethod svc) n = Some m \<and>
     well_formed m \<and> MethodName m = n"

text \<open>The client after the call has been sent, and the two messages of the call.\<close>

lemma rpc_parts:
  assumes c: "ready c i s n" and srv: "serves srv s n svc m"
    and jc: "healthy jc" "incoming jc = []"
    and v: "typed (input_elem m) v" "type_ok (input_elem m)" "sendable v" "marshal v = Some j"
      "marshal (call_Inputs (heap c ! i)) = Some j"
    and out: "CreateOutput m = Ret output"
    and f: "rm_Func (methodType m) (sv_Val (serviceValue svc)) (input_of m v) (rv_Val output) = Ret (err, recv, reply)"
    and reply: "err = None \<longrightarrow> marshal reply = Some jr"
  shows "\<exists>c1 srv1 jc2 h. rpc srv jc i c = map_option (\<lambda>(e, c2). (srv1, jc2, e, c2)) (receive_turn c1) \<and>
     healthy jc2 \<and> incoming jc2 = [] \<and>
     srv1 = srv\<lparr>ServiceMap := AList.update s ((count_call n svc)
       \<lparr>serviceValue := (serviceValue svc)\<lparr>sv_Val := recv\<rparr>\<rparr>) (ServiceMap srv)\<rparr> \<and>
     SequenceNumber h = sequenceNumber c \<and> Error h = [] \<and>
     healthy (cl_coder c1) \<and> pendingCalls c1 = AList.update (sequenceNumber c) i (pendingCalls c) \<and>
     heap c1 = (heap c)[i := (heap c ! i)\<lparr>call_SequenceNumber := sequenceNumber c\<rparr>] \<and>
     incoming (cl_coder c1) = (case err of
        None \<Rightarrow> [header_json h, jr] | Some e \<Rightarrow> [header_json (h\<lparr>Error := e\<rparr>), JObj []])"
proof -
  define h where "h = \<lparr>ServiceDotMethod = call_ServiceDotMethod (heap c ! i), SequenceNumber = sequenceNumber c, Error = []\<rparr>"
  obtain c1 where c1: "sendCall i c = Some c1" "healthy (cl_coder c1)" "sent (cl_coder c1) = sent (cl_coder c) @ [header_json h, j]"
    "incoming (cl_coder c1) = incoming (cl_coder c)" "pendingCalls c1 = AList.update (sequenceNumber c) i (pendingCalls c)"
    "heap c1 = (heap c)[i := (heap c ! i)\<lparr>call_SequenceNumber := sequenceNumber c\<rparr>]"
    using sendCall_ok[of c i j] c v(5) unfolding h_def ready_def by blast
  let ?jc = "deliver [header_json h, j] jc"
  have n: "newly_sent (cl_coder c) (cl_coder c1) = [header_json h, j]"
    using c1(3) by (rule newly_sent_append)
  have ok: "header_ok h" using c by (simp add: h_def ready_def)
  have search: "search_service srv (ServiceDotMethod h) = (Some s, Some n, None)"
    using c srv by (simp add: h_def ready_def serves_def search_dot)
  have "incoming ?jc = header_json h # j # []" "healthy ?jc" using jc by simp_all
  from rpc_server_runs[OF this(2,1) search _ _ _ _ ok v(1-4) out f reply]
  obtain srv1 jc2 where s: "rpc_server srv ?jc = Some (srv1, jc2)" "healthy jc2" "incoming jc2 = []"
    "sent jc2 = sent ?jc @ (case err of
        None \<Rightarrow> [header_json h, jr] | Some e \<Rightarrow> [header_json (h\<lparr>Error := e\<rparr>), JObj []])"
    "srv1 = srv\<lparr>ServiceMap := AList.update s ((count_call n svc)
       \<lparr>serviceValue := (serviceValue svc)\<lparr>sv_Val := recv\<rparr>\<rparr>) (ServiceMap srv)\<rparr>"
    using srv by (auto simp: serves_def)
  let ?c = "c1\<lparr>cl_coder := deliver (newly_sent ?jc jc2) (cl_coder c1)\<rparr>"
  have resp: "newly_sent ?jc jc2 = (case err of
      None \<Rightarrow> [header_json h, jr] | Some e \<Rightarrow> [header_json (h\<lparr>Error := e\<rparr>), JObj []])"
    using s(4) by (rule newly_sent_append)
  have "rpc srv jc i c = map_option (\<lambda>(e, c2). (srv1, jc2, e, c2)) (receive_turn ?c)"
    using c1(1) n s(1) by (simp add: rpc_def Let_def map_option_case split: option.split)
  moreover have "incoming (cl_coder ?c) = (case err of
      None \<Rightarrow> [header_json h, jr] | Some e \<Rightarrow> [header_json (h\<lparr>Error := e\<rparr>), JObj []])"
    using resp c1(4) c by (simp add: ready_def)
  ultimately show ?thesis
    using s(2,3,5) c1(2,5,6) by (intro exI[of _ ?c] exI[of _ srv1] exI[of _ jc2] exI[of _ h]) (simp add: h_def)
qed

text \<open>A call without an error brings the reply of the method into the output of the caller.\<close>

lemma rpc_returns:
  assumes c: "ready c i s n" and srv: "serves srv s n svc m"
    and jc: "healthy jc" "incoming jc = []"
    and v: "typed (input_elem m) v" "type_ok (input_elem m)" "sendable v" "marshal v = Some j"
      "marshal (call_Inputs (heap c ! i)) = Some j"
    and out: "CreateOutput m = Ret output"
    and f: "rm_Func (methodType m) (sv_Val (serviceValue svc)) (input_of m v) (rv_Val output) = Ret (None, recv, VPtr reply)"
    and reply: "typed u reply" "type_ok u" "sendable reply" "marshal reply = Some jr"
      "call_Output (heap c ! i) = Some (reflect_New u)"
  shows "\<exists>srv1 jc1 c1. rpc srv jc i c = Some (srv1, jc1, None, c1) \<and> healthy jc1 \<and> incoming jc1 = [] \<and>
     healthy (cl_coder c1) \<and> incoming (cl_coder c1) = [] \<and> map_of (pendingCalls c1) (sequenceNumber c) = None \<and>
     heap c1 = (heap c)[i := (heap c ! i)\<lparr>call_SequenceNumber := sequenceNumber c,
       call_Output := Some \<lparr>rv_Type = TPtr u, rv_Val = VPtr reply\<rparr>, call_Finish := (1, [i])\<rparr>] \<and>
     srv1 = srv\<lparr>ServiceMap := AList.update s ((count_call n svc)
       \<lparr>serviceValue := (serviceValue svc)\<lparr>sv_Val := recv\<rparr>\<rparr>) (ServiceMap srv)\<rparr>"
proof -
  from rpc_parts[OF c srv jc v out f, of jr] reply(4)
  obtain c1 srv1 jc2 h where p: "rpc srv jc i c = map_option (\<lambda>(e, c2). (srv1, jc2, e, c2)) (receive_turn c1)"
    "healthy jc2" "incoming jc2 = []"
    "srv1 = srv\<lparr>ServiceMap := AList.update s ((count_call n svc)
       \<lparr>serviceValue := (serviceValue svc)\<lparr>sv_Val := recv\<rparr>\<rparr>) (ServiceMap srv)\<rparr>"
    "SequenceNumber h = sequenceNumber c" "Error h = []" "healthy (cl_coder c1)"
    "pendingCalls c1 = AList.update (sequenceNumber c) i (pendingCalls c)"
    "heap c1 = (heap c)[i := (heap c ! i)\<lparr>call_SequenceNumber := sequenceNumber c\<rparr>]"
    "incoming (cl_coder c1) = [header_json h, jr]"
    by auto
  have i: "i < length (heap c)" "call_Finish (heap c ! i) = (Suc 0, [])" using c by (simp_all add: ready_def)
  have u: "unmarshal u jr (zero_value u) = (reply, False)" using unmarshal_marshal[OF reply(1-4)] .
  have "conn_open (connection (cl_coder c1))" "map_of (pendingCalls c1) (SequenceNumber h) = Some i"
    "i < length (heap c1)" "incoming (cl_coder c1) = header_json h # jr # []"
    "call_Output (heap c1 ! i) = Some \<lparr>rv_Type = TPtr u, rv_Val = VPtr (zero_value u)\<rparr>"
    "call_Finish (heap c1 ! i) = (Suc 0, [])"
    using p i reply(5) by (simp_all add: healthy_def update_conv' reflect_New_def)
  from receive_turn_ok[OF this(1,4) p(6) this(2,3,5) u this(6)]
  obtain c2 where c2: "receive_turn c1 = Some (None, c2)" "incoming (cl_coder c2) = []"
    "healthy (cl_coder c2) = healthy (cl_coder c1)" "pendingCalls c2 = AList.delete (SequenceNumber h) (pendingCalls c1)"
    "heap c2 = (heap c1)[i := (heap c1 ! i)\<lparr>call_Output := Some \<lparr>rv_Type = TPtr u, rv_Val = VPtr reply\<rparr>,
       call_Finish := (Suc 0, [i])\<rparr>]"
    by blast
  have "heap c2 = (heap c)[i := (heap c ! i)\<lparr>call_SequenceNumber := sequenceNumber c,
       call_Output := Some \<lparr>rv_Type = TPtr u, rv_Val = VPtr reply\<rparr>, call_Finish := (1, [i])\<rparr>]"
    using c2(5) p(9) i by simp
  then show ?thesis
    using p(1-5,7) c2 by (simp add: delete_conv')
qed

text \<open>A call with an error fails with what \<^verbatim>\<open>fmt.Errorf\<close> makes of its text, and ends the client's receiver.\<close>

lemma rpc_fails:
  assumes c: "ready c i s n" and srv: "serves srv s n svc m"
    and jc: "healthy jc" "incoming jc = []"
    and v: "typed (input_elem m) v" "type_ok (input_elem m)" "sendable v" "marshal v = Some j"
      "marshal (call_Inputs (heap c ! i)) = Some j"
    and out: "CreateOutput m = Ret output"
    and f: "rm_Func (methodType m) (sv_Val (serviceValue svc)) (input_of m v) (rv_Val output) = Ret (Some e, recv, reply)"
    and e: "e \<noteq> []"
  shows "\<exists>srv1 jc1 c1. rpc srv jc i c = Some (srv1, jc1, Some JsonInvalidTarget, c1) \<and>
     heap c1 = (heap c)[i := (heap c ! i)\<lparr>call_SequenceNumber := sequenceNumber c,
       call_Error := Some (ResponseError (fmt_Errorf (utf8_repair e))), call_Finish := (1, [i])\<rparr>]"
proof -
  from rpc_parts[OF c srv jc v out f]
  obtain c1 srv1 jc2 h where p: "rpc srv jc i c = map_option (\<lambda>(e, c2). (srv1, jc2, e, c2)) (receive_turn c1)"
    "SequenceNumber h = sequenceNumber c" "healthy (cl_coder c1)"
    "pendingCalls c1 = AList.update (sequenceNumber c) i (pendingCalls c)"
    "heap c1 = (heap c)[i := (heap c ! i)\<lparr>call_SequenceNumber := sequenceNumber c\<rparr>]"
    "incoming (cl_coder c1) = [header_json (h\<lparr>Error := e\<rparr>), JObj []]"
    by auto
  have i: "i < length (heap c)" "call_Finish (heap c ! i) = (Suc 0, [])" using c by (simp_all add: ready_def)
  let ?h = "h\<lparr>Error := e\<rparr>"
  have "conn_open (connection (cl_coder c1))" "map_of (pendingCalls c1) (SequenceNumber ?h) = Some i"
    "i < length (heap c1)" "incoming (cl_coder c1) = header_json ?h # JObj [] # []" "Error ?h \<noteq> []"
    "call_Finish (heap c1 ! i) = (Suc 0, [])"
    using p i e by (simp_all add: healthy_def update_conv')
  from receive_turn_dropped(2)[OF this(1,4,2,5,3,6)] obtain c2 where
    "receive_turn c1 = Some (Some JsonInvalidTarget, c2)"
    "heap c2 = (heap c1)[i := (heap c1 ! i)\<lparr>call_Error := Some (ResponseError (fmt_Errorf (utf8_repair (Error ?h)))), call_Finish := (Suc 0, [i])\<rparr>]"
    by blast
  then show ?thesis using p(1,5) i by simp
qed

subsection \<open>Properties\<close>

definition add_inputs :: "int \<Rightarrow> int \<Rightarrow> go_value" where
  "add_inputs a b = VStruct [(''A'', VInt a), (''B'', VInt b)]"

definition sample_caller :: "string \<Rightarrow> Client" where
  "sample_caller f = (new_Client (NewJsonCoder (sample_connection [])) DefaultConnectionInfo ''tcp@127.0.0.1:7'')
     \<lparr>heap := [new_call f (VPtr (add_inputs 2 0)) (Some (reflect_New output_type)) 1]\<rparr>"

definition idle_coder :: JsonCoder where "idle_coder = NewJsonCoder (sample_connection [])"

lemma idle_coder_simps [simp]: "healthy idle_coder" "incoming idle_coder = []"
  by (simp_all add: idle_coder_def)

lemma sample_serves:
  assumes "n = ''Addition'' \<and> m = new_Method (arithmetic_methods ! 0) \<or> n = ''Division'' \<and> m = new_Method (arithmetic_methods ! 1)"
  shows "serves sample_server ''Arithmetic'' n arithmetic_service m"
  using assms
  by (auto simp: serves_def well_formed_def sample_server_def arithmetic_method)
    (simp_all add: arithmetic_methods_def new_Method_def suitable_def exported_or_builtin_def input_type_def output_type_def)

lemma sample_method:
  assumes "m = new_Method (arithmetic_methods ! 0) \<or> m = new_Method (arithmetic_methods ! 1)"
  shows "input_elem m = input_type" "CreateOutput m = Ret (reflect_New output_type)" "input_of m v = VPtr v"
  using assms
  by (auto simp: input_elem_def CreateOutput_def input_of_def new_Method_def arithmetic_methods_def output_type_def)

lemma sample_inputs:
  "typed input_type (add_inputs 2 0)" "type_ok input_type" "sendable (add_inputs 2 0)"
  "marshal (add_inputs 2 0) = Some (JObj [(''A'', JNum 2), (''B'', JNum 0)])"
  "marshal (call_Inputs (heap (sample_caller f) ! 0)) = Some (JObj [(''A'', JNum 2), (''B'', JNum 0)])"
  by (simp_all add: add_inputs_def input_type_def int_ok_def ast_IsExported_def is_upper_def sample_caller_def new_call_def)

lemma sample_ready:
  "CHR ''.'' \<notin> set n \<Longrightarrow> utf8_valid n \<Longrightarrow> ready (sample_caller (''Arithmetic'' @ CHR ''.'' # n)) 0 ''Arithmetic'' n"
  by (simp add: ready_def sample_caller_def new_Client_def new_call_def IsAvailable_def)

text \<open>
  C5. A call works from end to end: for a method of a registered service, the client's call is sent,
  read, executed and answered, and when the method returns without an error the caller finds in its
  output exactly the value that the method left in its reply, no error, and its channel filled; the
  method ran on the value that the caller passed, and was counted once.
\<close>

theorem rpc_round_trip:
  assumes "ready c i s n" and "serves srv s n svc m" and "healthy jc" and "incoming jc = []"
    and "typed (input_elem m) v" and "type_ok (input_elem m)" and "sendable v" and "marshal v = Some j"
    and "marshal (call_Inputs (heap c ! i)) = Some j" and "CreateOutput m = Ret output"
    and "rm_Func (methodType m) (sv_Val (serviceValue svc)) (input_of m v) (rv_Val output) = Ret (None, recv, VPtr reply)"
    and "typed u reply" and "type_ok u" and "sendable reply" and "marshal reply = Some jr"
    and "call_Output (heap c ! i) = Some (reflect_New u)"
  shows "\<exists>srv1 jc1 c1. rpc srv jc i c = Some (srv1, jc1, None, c1) \<and>
    call_Output (heap c1 ! i) = Some \<lparr>rv_Type = TPtr u, rv_Val = VPtr reply\<rparr> \<and>
    call_Error (heap c1 ! i) = call_Error (heap c ! i) \<and> call_Finish (heap c1 ! i) = (1, [i]) \<and>
    (\<forall>j < length (heap c). j \<noteq> i \<longrightarrow> heap c1 ! j = heap c ! j) \<and>
    healthy jc1 \<and> incoming jc1 = [] \<and> healthy (cl_coder c1) \<and> incoming (cl_coder c1) = [] \<and>
    (\<exists>svc1. map_of (ServiceMap srv1) s = Some svc1 \<and> sv_Val (serviceValue svc1) = recv \<and>
       map_option callCounts (map_of (ServiceMethod svc1) n) = Some (callCounts m + 1))"
proof -
  have i: "i < length (heap c)" using assms(1) by (simp add: ready_def)
  have n: "map_of (ServiceMethod svc) n = Some m" using assms(2) by (simp add: serves_def)
  show ?thesis
    using rpc_returns[OF assms] i n
    by (force simp: update_conv' count_call_lookup)
qed

theorem rpc_round_trip_witness:
  "\<exists>srv1 jc1 c1. rpc sample_server idle_coder 0 (sample_caller ''Arithmetic.Addition'') = Some (srv1, jc1, None, c1) \<and>
     call_Output (heap c1 ! 0) = Some \<lparr>rv_Type = TPtr output_type, rv_Val = VPtr (VStruct [(''C'', VInt 2)])\<rparr>"
proof -
  let ?m = "new_Method (arithmetic_methods ! 0)" and ?c = "sample_caller (''Arithmetic'' @ CHR ''.'' # ''Addition'')"
  have m: "?m = new_Method (arithmetic_methods ! 0) \<or> ?m = new_Method (arithmetic_methods ! 1)" by simp
  note sm = sample_method[OF m]
  have r: "ready ?c 0 ''Arithmetic'' ''Addition''" by (rule sample_ready) simp_all
  have s: "serves sample_server ''Arithmetic'' ''Addition'' arithmetic_service ?m" by (rule sample_serves) simp
  have f: "rm_Func (methodType ?m) (sv_Val (serviceValue arithmetic_service)) (input_of ?m (add_inputs 2 0)) (rv_Val (reflect_New output_type)) =
      Ret (None, VPtr (VInt 0), VPtr (VStruct [(''C'', VInt 2)]))"
    by (simp add: input_of_def new_Method_def arithmetic_methods_def add_inputs_def arithmetic_service_def arithmetic_def)
  have u: "typed output_type (VStruct [(''C'', VInt 2)])" "type_ok output_type" "sendable (VStruct [(''C'', VInt 2)])"
    "marshal (VStruct [(''C'', VInt 2)]) = Some (JObj [(''C'', JNum 2)])"
    by (simp_all add: output_type_def int_ok_def ast_IsExported_def is_upper_def)
  have o: "call_Output (heap ?c ! 0) = Some (reflect_New output_type)" by (simp add: sample_caller_def new_call_def)
  have "\<exists>srv1 jc1 c1. rpc sample_server idle_coder 0 ?c = Some (srv1, jc1, None, c1) \<and>
     call_Output (heap c1 ! 0) = Some \<lparr>rv_Type = TPtr output_type, rv_Val = VPtr (VStruct [(''C'', VInt 2)])\<rparr>"
    using rpc_round_trip[OF r s idle_coder_simps _ _ sample_inputs(3,4,5) sm(2) f u o] sample_inputs(1,2) sm(1) by auto
  then show ?thesis by simp
qed

text \<open>
  C6. A call whose method fails with a non-empty error text gets an error, whose text is what
  \<^verbatim>\<open>fmt.Errorf\<close> makes of the method's text taken as a format: the method's text itself when it is UTF-8
  and has no percent sign, and in general another one. The very same response ends the client's
  receiver: decoding the body into nil fails.
\<close>

theorem rpc_error_ends_receiver:
  assumes "ready c i s n" and "serves srv s n svc m" and "healthy jc" and "incoming jc = []"
    and "typed (input_elem m) v" and "type_ok (input_elem m)" and "sendable v" and "marshal v = Some j"
    and "marshal (call_Inputs (heap c ! i)) = Some j" and "CreateOutput m = Ret output"
    and "rm_Func (methodType m) (sv_Val (serviceValue svc)) (input_of m v) (rv_Val output) = Ret (Some e, recv, reply)"
    and "e \<noteq> []"
  shows "\<exists>srv1 jc1 c1 text. rpc srv jc i c = Some (srv1, jc1, Some JsonInvalidTarget, c1) \<and>
    call_Error (heap c1 ! i) = Some (ResponseError text) \<and> text = fmt_Errorf (utf8_repair e) \<and>
    (utf8_valid e \<and> CHR ''%'' \<notin> set e \<longrightarrow> text = e) \<and> call_Finish (heap c1 ! i) = (1, [i])"
proof -
  have i: "i < length (heap c)" using assms(1) by (simp add: ready_def)
  then show ?thesis using rpc_fails[OF assms] by (fastforce simp: fmt_Errorf_plain)
qed

theorem rpc_error_ends_receiver_witness:
  "\<exists>srv1 jc1 c1. rpc sample_server idle_coder 0 (sample_caller ''Arithmetic.Division'') = Some (srv1, jc1, Some JsonInvalidTarget, c1) \<and>
     call_Error (heap c1 ! 0) = Some (ResponseError ''divide by zero'')"
proof -
  let ?m = "new_Method (arithmetic_methods ! 1)" and ?c = "sample_caller (''Arithmetic'' @ CHR ''.'' # ''Division'')"
  have m: "?m = new_Method (arithmetic_methods ! 0) \<or> ?m = new_Method (arithmetic_methods ! 1)" by simp
  note sm = sample_method[OF m]
  have r: "ready ?c 0 ''Arithmetic'' ''Division''" by (rule sample_ready) simp_all
  have s: "serves sample_server ''Arithmetic'' ''Division'' arithmetic_service ?m" by (rule sample_serves) simp
  have f: "rm_Func (methodType ?m) (sv_Val (serviceValue arithmetic_service)) (input_of ?m (add_inputs 2 0)) (rv_Val (reflect_New output_type)) =
      Ret (Some ''divide by zero'', VPtr (VInt 0), rv_Val (reflect_New output_type))"
    by (simp add: input_of_def new_Method_def arithmetic_methods_def add_inputs_def arithmetic_service_def arithmetic_def)
  have "\<exists>srv1 jc1 c1. rpc sample_server idle_coder 0 ?c = Some (srv1, jc1, Some JsonInvalidTarget, c1) \<and>
     call_Error (heap c1 ! 0) = Some (ResponseError ''divide by zero'')"
    using rpc_error_ends_receiver[OF r s idle_coder_simps _ _ sample_inputs(3,4,5) sm(2) f] sample_inputs(1,2) sm(1) by auto
  then show ?thesis by simp
qed

end
