(* ===== verification/Client_Wire.thy ===== *)
theory Client_Wire
  imports Rpc
begin

text \<open>
  A client and its wire: what its goroutines have written is the sequence of the messages of its
  calls, each call at most once, and what they have done to the calls is what the responses that
  arrived say. (The wire is \<open>sent\<close> and \<open>incoming\<close> of the client's coder.)
\<close>

subsection \<open>Decoding what is there\<close>

lemma dec_read_front: "dec_read buf c = (Inr j, buf', c') \<Longrightarrow> buf @ concat (conn_recv c) = j # buf' @ concat (conn_recv c')"
  by (auto simp: dec_read_def dest: next_chunk_Some split: list.splits option.splits if_splits)

lemma decoded_header:
  assumes "jc_DecodeMessageHeader jc empty_header = ((None, h), jc')"
  shows "\<exists>j. incoming jc = j # incoming jc' \<and> (\<forall>h'. j = header_json h' \<longrightarrow> received_header h' = h)"
  using assms dec_read_front[of "dbuf jc" "connection jc"]
  by (force simp: jc_DecodeMessageHeader_def dec_Decode_def incoming_def unmarshal_header Let_def
      split: prod.splits sum.splits if_splits)

lemma decoded_body:
  assumes "jc_DecodeMessageBody jc b = ((None, b'), jc')"
  shows "\<exists>t v j w. pointer_target b = Some (t, v) \<and> incoming jc = j # incoming jc' \<and> unmarshal t j v = (w, False) \<and>
    b' = map_option (\<lambda>rv. rv\<lparr>rv_Val := VPtr w\<rparr>) b"
  using assms dec_read_front[of "dbuf jc" "connection jc"]
  by (force simp: jc_DecodeMessageBody_def dec_Decode_def dec_Decode_nil_def incoming_def Let_def
      split: prod.splits sum.splits if_splits option.splits)

lemma decoded_type: "jc_DecodeMessageBody jc b = ((e, b'), jc') \<Longrightarrow> map_option rv_Type b' = map_option rv_Type b"
  by (auto simp: jc_DecodeMessageBody_def Let_def option.map_comp o_def split: prod.splits option.splits)

subsection \<open>What a step leaves alone\<close>

text \<open>The part of a call that its caller gave and nobody changes.\<close>

definition given :: "Call \<Rightarrow> string \<times> go_value \<times> go_type option" where
  "given call = (call_ServiceDotMethod call, call_Inputs call, map_option rv_Type (call_Output call))"

lemma list_update_given [simp]: "given x = given (xs ! i) \<Longrightarrow> given (xs[i := x] ! j) = given (xs ! j)"
  by (cases "i < length xs"; cases "i = j") (simp_all add: not_less list_update_beyond)

lemma given_updates [simp]:
  "given (call\<lparr>call_SequenceNumber := k\<rparr>) = given call"
  "given (call\<lparr>call_Error := e\<rparr>) = given call"
  "given (call\<lparr>call_Finish := f\<rparr>) = given call"
  "map_option rv_Type b = map_option rv_Type (call_Output call) \<Longrightarrow> given (call\<lparr>call_Output := b\<rparr>) = given call"
  by (simp_all add: given_def)

lemma finishCall_given: "finishCall i c = Some c' \<Longrightarrow> given (heap c' ! j) = given (heap c ! j)"
  by (auto simp: finishCall_def Let_def split: prod.splits if_splits)

lemma fail_call_given: "fail_call err i c = Some c' \<Longrightarrow> given (heap c' ! j) = given (heap c ! j)"
  unfolding fail_call_def by (drule finishCall_given[of _ _ _ j]) simp

lemma fail_calls_given: "fail_calls err is c = Some c' \<Longrightarrow> given (heap c' ! j) = given (heap c ! j)"
  by (induction err "is" c rule: fail_calls.induct)
    (auto simp: bind_eq_Some_conv dest: fail_call_given[of _ _ _ _ j])

lemma other_given:
  "send_undo e k c = Some c' \<Longrightarrow> given (heap c' ! j) = given (heap c ! j)"
  "call_canceled x i c = (r, c') \<Longrightarrow> given (heap c' ! j) = given (heap c ! j)"
  "call_finished i c = Some (r, c') \<Longrightarrow> given (heap c' ! j) = given (heap c ! j)"
  "deleteCall k c = (call, c') \<Longrightarrow> given (heap c' ! j) = given (heap c ! j)"
  "terminateCalls err c = Some c' \<Longrightarrow> given (heap c' ! j) = given (heap c ! j)"
  "send_add i c = Inl (Some c') \<Longrightarrow> given (heap c' ! j) = given (heap c ! j)"
  "send_add i c = Inr (k, c') \<Longrightarrow> given (heap c' ! j) = given (heap c ! j)"
  by (auto simp: send_undo_def deleteCall_def call_canceled_def call_finished_def terminateCalls_def
      send_add_def addCall_def Let_def
      dest: fail_call_given[of _ _ _ _ j] fail_calls_given[of _ _ _ _ j]
      split: option.splits list.splits prod.splits if_splits sum.splits)

lemma receive_body_given:
  assumes "receive_body h call c = Some (e, c')"
  shows "given (heap c' ! j) = given (heap c ! j)"
  using assms
  by (auto simp: receive_body_def Let_def decoded_type dest!: finishCall_given[of _ _ _ j]
      split: option.splits prod.splits if_splits)

lemma calls_step_given:
  assumes "calls_step s t" and "j < length (heap (cc_client s))"
  shows "given (heap (cc_client t) ! j) = given (heap (cc_client s) ! j)"
  using assms by cases (auto simp: nth_append dest!: other_given[where j = j] receive_body_given[where j = j] frame_ops)

subsection \<open>What the client has written\<close>

definition request_of :: "Client \<Rightarrow> nat \<Rightarrow> MessageHeader \<times> go_value" where
  "request_of c i = (\<lparr>ServiceDotMethod = call_ServiceDotMethod (heap c ! i), SequenceNumber = seqno c i, Error = []\<rparr>,
     call_Inputs (heap c ! i))"

text \<open>
  The calls \<open>is\<close> have been written, one after the other, each once; a call is written when its
  caller has finished encoding it. A connection that is closed takes nothing more; until then every
  call whose caller waits for a response has been written.
\<close>

definition written :: "json list \<Rightarrow> nat list \<Rightarrow> Calls \<Rightarrow> bool" where
  "written start is s \<longleftrightarrow> distinct is \<and>
     (\<forall>i \<in> set is. i \<in> registered (cc_client s) \<and> cc_callers s ! i \<noteq> CSending \<and> (\<forall>k. cc_callers s ! i \<noteq> CEncoding k)) \<and>
     sent (cl_coder (cc_client s)) = start @ frames (map (request_of (cc_client s)) is) \<and>
     (healthy (cl_coder (cc_client s)) \<or> \<not> conn_open (connection (cl_coder (cc_client s)))) \<and>
     (\<forall>i. conn_open (connection (cl_coder (cc_client s))) \<and> pending (cc_client s) i \<and> cc_callers s ! i = CWaiting \<longrightarrow> i \<in> set is)"

lemma request_of_same:
  assumes "calls_step s t" and "calls_inv s" and "i \<in> registered (cc_client s)"
  shows "request_of (cc_client t) i = request_of (cc_client s) i"
  using calls_step_seqno[OF assms] calls_step_given[OF assms(1), of i] assms(3)
  by (simp add: request_of_def given_def registered_def)

lemma frames_append [simp]: "frames (ms @ ms') = frames ms @ frames ms'"
  by (simp add: frames_def)

lemma frames_simps [simp]: "frames [] = []" "frames (m # ms) = header_json (fst m) # the (marshal (snd m)) # frames ms"
  by (simp_all add: frames_def)

text \<open>Only a caller that encodes its call writes.\<close>

definition quiet_coder :: "Client \<Rightarrow> Client \<Rightarrow> bool" where
  "quiet_coder c c' \<longleftrightarrow> sent (cl_coder c') = sent (cl_coder c) \<and>
     (healthy (cl_coder c) \<or> \<not> conn_open (connection (cl_coder c)) \<longrightarrow>
      healthy (cl_coder c') \<or> \<not> conn_open (connection (cl_coder c'))) \<and>
     (conn_open (connection (cl_coder c')) \<longrightarrow> conn_open (connection (cl_coder c)))"

lemma quiet_same: "cl_coder c' = cl_coder c \<Longrightarrow> quiet_coder c c'"
  by (simp add: quiet_coder_def)

lemma decode_quiet:
  "jc_DecodeMessageHeader jc h = (r, jc') \<Longrightarrow>
     sent jc' = sent jc \<and> healthy jc' = healthy jc \<and> conn_open (connection jc') = conn_open (connection jc)"
  "jc_DecodeMessageBody jc b = (r', jc') \<Longrightarrow>
     sent jc' = sent jc \<and> healthy jc' = healthy jc \<and> conn_open (connection jc') = conn_open (connection jc)"
  using decode_wire decode_open by blast+

lemma close_quiet: "client_Close c = (r, c') \<Longrightarrow> quiet_coder c c'"
  by (auto simp: client_Close_def jc_Close_def conn_Close_def quiet_coder_def sent_def Let_def
      split: prod.splits if_splits)

lemma header_quiet: "receive_header c = (x, c') \<Longrightarrow> quiet_coder c c'"
  by (auto simp: receive_header_def quiet_coder_def split: prod.splits option.splits dest!: decode_quiet(1))

lemma finishCall_coder: "finishCall i c = Some c' \<Longrightarrow> cl_coder c' = cl_coder c"
  by (auto simp: finishCall_def Let_def split: prod.splits if_splits)

lemma fail_call_coder: "fail_call err i c = Some c' \<Longrightarrow> cl_coder c' = cl_coder c"
  by (auto simp: fail_call_def dest: finishCall_coder)

lemma fail_calls_coder: "fail_calls err is c = Some c' \<Longrightarrow> cl_coder c' = cl_coder c"
  by (induction err "is" c rule: fail_calls.induct) (auto simp: bind_eq_Some_conv dest: fail_call_coder)

lemma other_coder:
  "send_undo e k c = Some c' \<Longrightarrow> cl_coder c' = cl_coder c"
  "call_canceled x i c = (r, c') \<Longrightarrow> cl_coder c' = cl_coder c"
  "call_finished i c = Some (r, c') \<Longrightarrow> cl_coder c' = cl_coder c"
  "deleteCall k c = (call, c') \<Longrightarrow> cl_coder c' = cl_coder c"
  "terminateCalls err c = Some c' \<Longrightarrow> cl_coder c' = cl_coder c"
  "send_add i c = Inl (Some c') \<Longrightarrow> cl_coder c' = cl_coder c"
  "send_add i c = Inr (k, c') \<Longrightarrow> cl_coder c' = cl_coder c"
  by (auto simp: send_undo_def deleteCall_def call_canceled_def call_finished_def terminateCalls_def
      send_add_def addCall_def Let_def dest: fail_call_coder fail_calls_coder
      split: option.splits list.splits prod.splits if_splits sum.splits)

text \<open>The body step decodes once, with the output of the call or with nil.\<close>

lemma receive_body_coder:
  assumes "receive_body h call c = Some (e, c')"
  shows "\<exists>b b'. jc_DecodeMessageBody (cl_coder c) b = ((e, b'), cl_coder c')"
  using assms
  by (auto simp: receive_body_def Let_def dest!: finishCall_coder
      split: option.splits prod.splits if_splits) blast+

lemma receive_body_quiet: "receive_body h call c = Some (e, c') \<Longrightarrow> quiet_coder c c'"
  using receive_body_coder[of h call c e c'] by (auto simp: quiet_coder_def dest!: decode_quiet(2))

lemma calls_step_writes:
  assumes "calls_step s t"
  shows "quiet_coder (cc_client s) (cc_client t) \<and>
      (\<forall>i k. i < length (cc_callers s) \<and> cc_callers s ! i = CEncoding k \<longrightarrow> cc_callers t ! i = CEncoding k) \<or>
    (\<exists>i k r. i < length (cc_callers s) \<and> cc_callers s ! i = CEncoding k \<and>
       send_encode i k (cc_client s) = (r, cc_client t) \<and>
       cc_callers t = (cc_callers s)[i := case r of None \<Rightarrow> CWaiting | Some e \<Rightarrow> CUndoing k e])"
  using assms
  by cases (auto simp: nth_append nth_list_update intro: quiet_same
      dest: close_quiet header_quiet receive_body_quiet other_coder intro!: exI)

lemma written_step:
  assumes st: "calls_step s t" and inv: "calls_inv s" and w: "written start is s"
    and ok: "\<forall>i < length (heap (cc_client s)). marshal (call_Inputs (heap (cc_client s) ! i)) \<noteq> None"
  shows "\<exists>js. written start (is @ js) t \<and> length js \<le> 1"
proof -
  let ?c = "cc_client s" and ?d = "cc_client t"
  have old: "i \<in> registered ?d \<and> request_of ?d i = request_of ?c i" if "i \<in> set is" for i
    using that w calls_step_registered[OF st inv] request_of_same[OF st inv] by (auto simp: written_def)
  have callers: "cc_callers t ! i \<noteq> CSending \<and> (\<forall>k. cc_callers t ! i \<noteq> CEncoding k)" if i: "i \<in> set is" for i
  proof -
    have "i < length (cc_callers s)" "cc_callers s ! i \<noteq> CSending" "\<forall>k. cc_callers s ! i \<noteq> CEncoding k"
      using i w inv registered_less[of i ?c] by (auto simp: written_def calls_inv_def)
    with st show ?thesis by cases (auto simp: nth_append nth_list_update)
  qed
  have reqs: "frames (map (request_of ?d) is) = frames (map (request_of ?c) is)"
    using old by (intro arg_cong[of _ _ frames]) simp
  have waits: "pending ?c i \<and> (cc_callers s ! i = CWaiting \<or>
      (\<exists>k. i < length (cc_callers s) \<and> cc_callers s ! i = CEncoding k \<and> send_encode i k ?c = (None, ?d)))"
    if "pending ?d i" "cc_callers t ! i = CWaiting" for i
    by (rule waiting_step[OF st inv that])
  consider (quiet) "quiet_coder ?c ?d"
      "\<forall>i k. i < length (cc_callers s) \<and> cc_callers s ! i = CEncoding k \<longrightarrow> cc_callers t ! i = CEncoding k"
    | (send) i k r where "i < length (cc_callers s)" "cc_callers s ! i = CEncoding k" "send_encode i k ?c = (r, ?d)"
        "cc_callers t = (cc_callers s)[i := case r of None \<Rightarrow> CWaiting | Some e \<Rightarrow> CUndoing k e]"
    using calls_step_writes[OF st] by blast
  then show ?thesis
  proof cases
    case quiet
    have "i \<in> set is" if "conn_open (connection (cl_coder ?d))" "pending ?d i" "cc_callers t ! i = CWaiting" for i
    proof -
      have "cc_callers s ! i = CWaiting" using waits[OF that(2,3)] quiet(2) that(3) by auto
      moreover have "conn_open (connection (cl_coder ?c))" using quiet(1) that(1) by (simp add: quiet_coder_def)
      ultimately show ?thesis using waits[OF that(2,3)] w by (simp add: written_def)
    qed
    then have "written start is t" using w old callers reqs quiet(1) by (auto simp: written_def quiet_coder_def)
    then show ?thesis by (intro exI[of _ "[]"]) simp
  next
    case (send i k r)
    have other: "cc_callers s ! j = CWaiting" if "pending ?d j" "cc_callers t ! j = CWaiting" "j \<noteq> i" for j
      using that send(4) by (simp add: nth_list_update)
    have i: "i < length (heap ?c)" "i \<notin> set is" using inv send(1,2) w by (auto simp: calls_inv_def written_def)
    have "holds_lock (cc_callers s ! i) = Some k" using send(2) by simp
    note l = lock_holder[OF inv send(1) this]
    let ?h = "(requestHeader ?c)\<lparr>ServiceDotMethod := call_ServiceDotMethod (heap ?c ! i), SequenceNumber := k, Error := []\<rparr>"
    have h: "?h = fst (request_of ?c i)" using l(2) by (simp add: request_of_def)
    obtain jc where jc: "jc_EncodeMessageHeaderAndBody (cl_coder ?c) ?h (call_Inputs (heap ?c ! i)) = (r, jc)" "cl_coder ?d = jc"
      using send(3)[symmetric] by (auto simp: send_encode_def Let_def split: prod.splits)
    show ?thesis
    proof (cases "healthy (cl_coder ?c)")
      case True
      obtain j where j: "marshal (call_Inputs (heap ?c ! i)) = Some j" using ok i(1) by auto
      from encode_ok[OF True j, of ?h] jc have e: "r = None" "healthy jc" "sent jc = sent (cl_coder ?c) @ [header_json ?h, j]"
        by auto
      have "written start (is @ [i]) t"
        unfolding written_def
        using w i e jc(2) reqs old callers send(1,4) j l(5) h request_of_same[OF st inv l(5)]
          calls_step_registered[OF st inv l(5)] other waits True
        by (fastforce simp: written_def request_of_def healthy_def)
      then show ?thesis by (intro exI[of _ "[i]"]) simp
    next
      case False
      then have c: "\<not> conn_open (connection (cl_coder ?c))" using w by (auto simp: written_def)
      then have "sent jc = sent (cl_coder ?c)" "\<not> conn_open (connection jc)"
        using closed_encode[OF c, of ?h "call_Inputs (heap ?c ! i)"]
          encode_keeps_open[of "cl_coder ?c" ?h "call_Inputs (heap ?c ! i)"] jc(1) by simp_all
      then have "written start is t" using w old callers reqs jc(2) by (simp add: written_def)
      then show ?thesis by (intro exI[of _ "[]"]) simp
    qed
  qed
qed

subsection \<open>What the responses have done\<close>

text \<open>
  Where the receiver is in the stream of responses: \<open>log\<close> is what the server has sent, and \<open>rest\<close>
  what has not arrived yet. The calls of the responses that it has dealt with are out of the table.
\<close>

definition taken_out :: "(MessageHeader \<times> go_value) list \<Rightarrow> Client \<Rightarrow> bool" where
  "taken_out ms c \<longleftrightarrow> (\<forall>m \<in> set ms. map_of (pendingCalls c) (SequenceNumber (fst m)) = None)"

definition receiving :: "(MessageHeader \<times> go_value) list \<Rightarrow> json list \<Rightarrow> Calls \<Rightarrow> bool" where
  "receiving log rest s \<longleftrightarrow>
     (let js = incoming (cl_coder (cc_client s)) @ rest in
      case cc_receiver s of
        RHeader \<Rightarrow> \<exists>pre post. log = pre @ post \<and> js = frames post \<and> taken_out pre (cc_client s)
      | RMatch h \<Rightarrow> \<exists>pre h' b post. received_header h' = h \<and> log = pre @ (h', b) # post \<and> js = the (marshal b) # frames post \<and>
          taken_out pre (cc_client s)
      | RBody h call \<Rightarrow> \<exists>pre h' b post. received_header h' = h \<and> log = pre @ (h', b) # post \<and>
          js = the (marshal b) # frames post \<and> taken_out (pre @ [(h', b)]) (cc_client s)
      | _ \<Rightarrow> True)"

lemma receiving_more: "receiving log rest s \<Longrightarrow> receiving (log @ ms) (rest @ frames ms) s"
  by (fastforce simp: receiving_def Let_def split: receiver_pc.splits)

lemma taken_out_simps [simp]:
  "taken_out [] c" "taken_out (ms @ ms') c \<longleftrightarrow> taken_out ms c \<and> taken_out ms' c"
  "taken_out (m # ms) c \<longleftrightarrow> map_of (pendingCalls c) (SequenceNumber (fst m)) = None \<and> taken_out ms c"
  by (auto simp: taken_out_def)

lemma taken_out_step:
  assumes "calls_step s t" and "\<forall>m \<in> set log. SequenceNumber (fst m) \<noteq> sequenceNumber (cc_client s)"
    and "set ms \<subseteq> set log" and "taken_out ms (cc_client s)"
  shows "taken_out ms (cc_client t)"
  unfolding taken_out_def
proof (intro ballI, rule ccontr)
  fix m assume m: "m \<in> set ms" "map_of (pendingCalls (cc_client t)) (SequenceNumber (fst m)) \<noteq> None"
  then obtain i where "map_of (pendingCalls (cc_client t)) (SequenceNumber (fst m)) = Some i" by blast
  from pending_step[OF assms(1) this] show False using m(1) assms(2-4) by (fastforce simp: taken_out_def)
qed

lemma receiving_same:
  assumes "receiving log rest s" and "cc_receiver t = cc_receiver s"
    and "incoming (cl_coder (cc_client t)) = incoming (cl_coder (cc_client s))"
    and "\<And>ms. set ms \<subseteq> set log \<Longrightarrow> taken_out ms (cc_client s) \<Longrightarrow> taken_out ms (cc_client t)"
  shows "receiving log rest t"
proof (cases "cc_receiver s")
  case RHeader
  then obtain pre post where "log = pre @ post" "incoming (cl_coder (cc_client s)) @ rest = frames post" "taken_out pre (cc_client s)"
    using assms(1) by (auto simp: receiving_def Let_def)
  then show ?thesis using RHeader assms(2-4) by (auto simp: receiving_def Let_def)
next
  case (RMatch h)
  then obtain pre h' b post where "received_header h' = h" "log = pre @ (h', b) # post"
    "incoming (cl_coder (cc_client s)) @ rest = the (marshal b) # frames post" "taken_out pre (cc_client s)"
    using assms(1) by (auto simp: receiving_def Let_def)
  then show ?thesis using RMatch assms(2,3) assms(4)[of pre] by (fastforce simp: receiving_def Let_def)
next
  case (RBody h call)
  then obtain pre h' b post where "received_header h' = h" "log = pre @ (h', b) # post"
    "incoming (cl_coder (cc_client s)) @ rest = the (marshal b) # frames post" "taken_out (pre @ [(h', b)]) (cc_client s)"
    using assms(1) by (auto simp: receiving_def Let_def)
  then show ?thesis using RBody assms(2,3) assms(4)[of "pre @ [(h', b)]"] by (fastforce simp: receiving_def Let_def)
qed (use assms(2) in \<open>simp_all add: receiving_def\<close>)

lemma finished_incoming: "client_Close c = (r, c') \<Longrightarrow> incoming (cl_coder c') = incoming (cl_coder c)"
  by (auto simp: client_Close_def jc_Close_def conn_Close_def incoming_def split: prod.splits if_splits)

lemma send_encode_incoming: "send_encode i k c = (e, c') \<Longrightarrow> incoming (cl_coder c') = incoming (cl_coder c)"
  using encode_incoming by (auto simp: send_encode_def Let_def split: prod.splits) (metis snd_conv)

lemma receive_body_next:
  assumes "receive_body h call c = Some (None, c')"
  shows "\<exists>j. incoming (cl_coder c) = j # incoming (cl_coder c')"
proof -
  obtain b b' where "jc_DecodeMessageBody (cl_coder c) b = ((None, b'), cl_coder c')"
    using receive_body_coder[OF assms] by blast
  from decoded_body[OF this] show ?thesis by blast
qed

lemma receiving_step:
  assumes st: "calls_step s t" and r: "receiving log rest s"
    and new: "\<forall>m \<in> set log. SequenceNumber (fst m) \<noteq> sequenceNumber (cc_client s)"
  shows "receiving log rest t"
proof -
  have keep: "taken_out ms (cc_client t)" if "set ms \<subseteq> set log" "taken_out ms (cc_client s)" for ms
    using taken_out_step[OF st new that] .
  from st show ?thesis
  proof cases
    case (header h c')
    then obtain jc where d: "jc_DecodeMessageHeader (cl_coder (cc_client s)) empty_header = ((None, h), jc)"
      "cl_coder c' = jc"
      by (auto simp: receive_header_def split: prod.splits option.splits)
    from decoded_header[OF d(1)] obtain j where j: "incoming (cl_coder (cc_client s)) = j # incoming jc"
      "\<forall>h'. j = header_json h' \<longrightarrow> received_header h' = h" by blast
    obtain pre post where p: "log = pre @ post" "j # incoming jc @ rest = frames post" "taken_out pre (cc_client s)"
      using r header(2) j(1) by (auto simp: receiving_def)
    then obtain h' b post' where "post = (h', b) # post'" by (cases post) auto
    with p j(2) header d(2) keep[of pre] show ?thesis by (auto simp: receiving_def Let_def)
  next
    case (body h call c')
    obtain pre h' b post where p: "log = pre @ (h', b) # post"
      "incoming (cl_coder (cc_client s)) @ rest = the (marshal b) # frames post" "taken_out (pre @ [(h', b)]) (cc_client s)"
      using r body(2) by (auto simp: receiving_def Let_def)
    obtain j where "incoming (cl_coder (cc_client s)) = j # incoming (cl_coder c')" using receive_body_next[OF body(3)] by blast
    then have "incoming (cl_coder c') @ rest = frames post" "taken_out (pre @ [(h', b)]) (cc_client t)"
      using p keep[of "pre @ [(h', b)]"] by auto
    moreover have "log = (pre @ [(h', b)]) @ post" using p(1) by simp
    ultimately have "\<exists>pre post. log = pre @ post \<and> incoming (cl_coder c') @ rest = frames post \<and> taken_out pre c'"
      using body(1) by (metis Calls.select_convs(1) Calls.surjective Calls.update_convs(1,4))
    then show ?thesis using body(1) by (simp add: receiving_def)
  next
    case (match_ h call c')
    obtain pre h' b post where p: "received_header h' = h" "log = pre @ (h', b) # post"
      "incoming (cl_coder (cc_client s)) @ rest = the (marshal b) # frames post" "taken_out pre (cc_client s)"
      using r match_(2) by (auto simp: receiving_def Let_def)
    have n: "SequenceNumber h' = SequenceNumber h" using p(1) by auto
    have "map_of (pendingCalls c') (SequenceNumber h') = None"
      using other_pending(6)[OF match_(3)] n by (simp add: delete_conv')
    then show ?thesis
      using p match_ keep[of pre] other_coder(4)[OF match_(3)] by (fastforce simp: receiving_def Let_def)
  next
    case (no_header e c')
    then show ?thesis by (simp add: receiving_def)
  next
    case (bad_body h call e c')
    then show ?thesis by (simp add: receiving_def)
  next
    case (terminate e c')
    then show ?thesis by (simp add: receiving_def)
  qed (rule receiving_same[OF r _ _ keep]; (assumption | auto dest!: other_coder finished_incoming send_encode_incoming))+
qed

text \<open>
  A call whose result is in its channel has failed or has been given a response of the log, decoded
  into its output; until then its output is as its caller passed it, a new value.
\<close>

definition fresh_output :: "Call \<Rightarrow> bool" where
  "fresh_output call \<longleftrightarrow> (\<exists>u. call_Output call = Some (reflect_New u))"

definition resolved :: "(MessageHeader \<times> go_value) list \<Rightarrow> Call \<Rightarrow> bool" where
  "resolved log call \<longleftrightarrow> (\<exists>h b u w. (h, b) \<in> set log \<and> Error h = [] \<and>
     SequenceNumber h = call_SequenceNumber call \<and> call_SequenceNumber call \<noteq> 0 \<and>
     unmarshal u (the (marshal b)) (zero_value u) = (w, False) \<and>
     call_Output call = Some \<lparr>rv_Type = TPtr u, rv_Val = VPtr w\<rparr>)"

definition result_inv :: "(MessageHeader \<times> go_value) list \<Rightarrow> Calls \<Rightarrow> nat \<Rightarrow> bool" where
  "result_inv log s i \<longleftrightarrow>
     (let call = heap (cc_client s) ! i in
      (owed s i \<or> call_SequenceNumber call = 0 \<longrightarrow> fresh_output call) \<and>
      (call_Finish call = (1, [i]) \<longrightarrow> call_Error call \<noteq> None \<or> resolved log call) \<and>
      (cc_callers s ! i = CReturned None \<longrightarrow> resolved log call \<and> \<not> owed s i))"

definition results :: "(MessageHeader \<times> go_value) list \<Rightarrow> Calls \<Rightarrow> bool" where
  "results log s \<longleftrightarrow> (\<forall>i < length (heap (cc_client s)). result_inv log s i)"

lemma resolved_more: "resolved log call \<Longrightarrow> resolved (log @ ms) call"
  by (auto simp: resolved_def)

lemma results_more: "results log s \<Longrightarrow> results (log @ ms) s"
  by (auto simp: results_def result_inv_def Let_def intro: resolved_more)

lemma results_one:
  assumes r: "results log s" and len: "length (heap (cc_client t)) = length (heap (cc_client s))"
    and same: "\<And>j. j < length (heap (cc_client s)) \<Longrightarrow> j \<noteq> i \<Longrightarrow>
        heap (cc_client t) ! j = heap (cc_client s) ! j \<and> cc_callers t ! j = cc_callers s ! j \<and> (owed t j \<longrightarrow> owed s j)"
    and own: "i < length (heap (cc_client s)) \<Longrightarrow> result_inv log t i"
  shows "results log t"
  unfolding results_def len
proof (intro allI impI)
  fix j assume j: "j < length (heap (cc_client s))"
  show "result_inv log t j"
  proof (cases "j = i")
    case False
    have "result_inv log s j" using r j by (simp add: results_def)
    with same[OF j False] show ?thesis by (auto simp: result_inv_def Let_def)
  qed (use own j in simp)
qed

lemma results_frame:
  assumes "results log s" and "heap (cc_client t) = heap (cc_client s)" and "cc_callers t = cc_callers s"
    and "\<And>j. owed t j \<Longrightarrow> owed s j"
  shows "results log t"
  using assms by (simp add: results_def result_inv_def Let_def) blast

lemma owed_calls [simp]:
  "owed (s\<lparr>cc_callers := ps\<rparr>) = owed s"
  "owed (s\<lparr>cc_lock := l\<rparr>) = owed s"
  by (simp_all add: owed_def fun_eq_iff)

lemma owed_client: "pendingCalls c = pendingCalls (cc_client s) \<Longrightarrow> owed (s\<lparr>cc_client := c\<rparr>) = owed s"
  by (simp add: owed_def fun_eq_iff pending_def)

text \<open>The body of a response: an error, or the output is what the body decodes to.\<close>

lemma receive_body_result:
  assumes r: "receive_body h (Some i) c = Some (e, c')" and i: "i < length (heap c)" "call_Finish (heap c ! i) = (1, [])"
    and out: "call_Output (heap c ! i) = Some (reflect_New u)"
  shows "\<exists>x. heap c' = (heap c)[i := x] \<and> call_Finish x = (1, [i]) \<and> call_SequenceNumber x = seqno c i \<and>
    pendingCalls c' = pendingCalls c \<and>
    (call_Error x \<noteq> None \<or> Error h = [] \<and> (\<exists>j w. incoming (cl_coder c) = j # incoming (cl_coder c') \<and>
       unmarshal u j (zero_value u) = (w, False) \<and> call_Output x = Some \<lparr>rv_Type = TPtr u, rv_Val = VPtr w\<rparr>))"
proof (cases "Error h = []")
  case False
  obtain e1 b jc where "jc_DecodeMessageBody (cl_coder c) None = ((e1, b), jc)" by (metis prod.exhaust)
  with False r i show ?thesis
    by (auto simp: receive_body_def finishCall_def update_call_def Let_def)
next
  case True
  obtain e1 b jc where d: "jc_DecodeMessageBody (cl_coder c) (Some (reflect_New u)) = ((e1, b), jc)" by (metis prod.exhaust)
  show ?thesis
  proof (cases e1)
    case None
    from decoded_body[OF d[unfolded None]] obtain j w where j: "incoming (cl_coder c) = j # incoming jc"
      "unmarshal u j (zero_value u) = (w, False)" "b = Some \<lparr>rv_Type = TPtr u, rv_Val = VPtr w\<rparr>"
      by (auto simp: pointer_target_def reflect_New_def)
    with None True r i out d show ?thesis
      by (auto simp: receive_body_def finishCall_def update_call_def Let_def)
  next
    case (Some err)
    with True r i out d show ?thesis
      by (auto simp: receive_body_def finishCall_def update_call_def Let_def)
  qed
qed

lemma results_start:
  assumes inv: "calls_inv s" and r: "results log s" and x: "fresh_output x" "call_Finish x = (1, [])" "call_SequenceNumber x = 0"
  shows "results log (s\<lparr>cc_callers := cc_callers s @ [CSending],
    cc_client := (cc_client s)\<lparr>heap := heap (cc_client s) @ [x]\<rparr>\<rparr>)" (is "results log ?t")
proof -
  let ?n = "length (heap (cc_client s))"
  have n: "length (cc_callers s) = ?n" using inv by (simp add: calls_inv_def)
  have o: "owed ?t j = owed s j" for j by (simp add: owed_def pending_def held_def)
  have "result_inv log ?t j" if "j < Suc ?n" for j
  proof (cases "j = ?n")
    case True
    have "\<not> owed s ?n"
      using inv pending_registered[of "cc_client s" ?n] registered_less[of ?n "cc_client s"]
      by (auto simp: owed_def calls_inv_def)
    then show ?thesis using True x n o by (simp add: result_inv_def nth_append)
  next
    case False
    then have "result_inv log s j" "j < ?n" using r that by (auto simp: results_def)
    then show ?thesis using n o by (simp add: result_inv_def nth_append)
  qed
  then show ?thesis by (simp add: results_def)
qed

lemma results_refuse:
  assumes inv: "calls_inv s" and r: "results log s" and i: "i < length (cc_callers s)" and pc: "cc_callers s ! i = CSending"
    and a: "send_add i (cc_client s) = Inl (Some c')"
  shows "results log (s\<lparr>cc_client := c', cc_callers := (cc_callers s)[i := CWaiting]\<rparr>)"
proof -
  note f = caller_fields[OF inv i]
  have ci: "call_Finish (heap (cc_client s) ! i) = (1, [])" using f(2) pc by (simp add: caller_inv_def)
  obtain err where c': "c' = (cc_client s)\<lparr>heap := (heap (cc_client s))[i := (heap (cc_client s) ! i)\<lparr>call_Error := Some err, call_Finish := (1, [i])\<rparr>]\<rparr>"
    using refuse_eq[OF a ci f(1)] by auto
  have "result_inv log s i" using r f(1) by (simp add: results_def)
  then show ?thesis
    using f(1,6) by (intro results_one[OF r, where i = i]) (auto simp: c' owed_client result_inv_def Let_def fresh_output_def)
qed

lemma results_add:
  assumes inv: "calls_inv s" and r: "results log s" and i: "i < length (cc_callers s)" and pc: "cc_callers s ! i = CSending"
    and a: "send_add i (cc_client s) = Inr (k, c')"
  shows "results log (s\<lparr>cc_client := c', cc_lock := Some i, cc_callers := (cc_callers s)[i := CEncoding k]\<rparr>)"
    (is "results log ?t")
proof -
  note f = caller_fields[OF inv i]
  let ?c = "cc_client s"
  have ci: "call_Finish (heap ?c ! i) = (1, [])" "seqno ?c i = 0" using f(2) pc by (simp_all add: caller_inv_def)
  have c': "heap c' = (heap ?c)[i := (heap ?c ! i)\<lparr>call_SequenceNumber := sequenceNumber ?c\<rparr>]"
      "pendingCalls c' = AList.update (sequenceNumber ?c) i (pendingCalls ?c)"
    using a by (auto simp: send_add_def addCall_def Let_def split: if_splits)
  have "owed ?t j \<longrightarrow> owed s j" if "j \<noteq> i" for j
    using that c'(2) by (auto simp: owed_def pending_def held_def update_conv' split: if_splits)
  moreover have "result_inv log s i" using r f(1) by (simp add: results_def)
  ultimately show ?thesis
    using f(1,6) ci c'(1) by (intro results_one[OF r, where i = i]) (auto simp: result_inv_def Let_def fresh_output_def)
qed

lemma results_encode:
  assumes r: "results log s" and e: "send_encode i k (cc_client s) = (err, c')" and p: "p = CWaiting \<or> p = CUndoing k e'"
    and i: "i < length (cc_callers s)" and len: "length (cc_callers s) = length (heap (cc_client s))"
  shows "results log (s\<lparr>cc_client := c', cc_lock := l, cc_callers := (cc_callers s)[i := p]\<rparr>)"
proof -
  have "result_inv log s i" using r i len by (simp add: results_def)
  then show ?thesis
    using frame_ops(3)[OF e] p i by (intro results_one[OF r, where i = i]) (auto simp: owed_client result_inv_def Let_def)
qed

lemma results_undo:
  assumes inv: "calls_inv s" and r: "results log s" and i: "i < length (cc_callers s)" and pc: "cc_callers s ! i = CUndoing k e"
    and u: "send_undo e k (cc_client s) = Some c'"
  shows "results log (s\<lparr>cc_client := c', cc_lock := None, cc_callers := (cc_callers s)[i := CWaiting]\<rparr>)" (is "results log ?t")
proof -
  note f = caller_fields[OF inv i]
  have ri: "result_inv log s i" using r f(1) by (simp add: results_def)
  have "pendingCalls c' = AList.delete k (pendingCalls (cc_client s))"
    using send_undo_cases[OF inv i, of k e] pc u by fastforce
  then have o: "owed ?t j \<longrightarrow> owed s j" for j
    by (auto simp: owed_def pending_def held_def delete_conv' split: if_splits)
  have "heap c' = heap (cc_client s) \<or>
      heap c' = (heap (cc_client s))[i := (heap (cc_client s) ! i)\<lparr>call_Error := Some (LibError e), call_Finish := (1, [i])\<rparr>]"
    using send_undo_cases[OF inv i, of k e] pc u by fastforce
  then show ?thesis
    using ri f(1,6) o
    by (intro results_one[OF r, where i = i]) (auto simp: result_inv_def Let_def fresh_output_def)
qed

lemma results_return:
  assumes inv: "calls_inv s" and r: "results log s" and i: "i < length (cc_callers s)"
    and h: "heap c' = heap (cc_client s)" and p: "pendingCalls c' = AList.delete k (pendingCalls (cc_client s))"
  shows "results log (s\<lparr>cc_client := c', cc_callers := (cc_callers s)[i := CReturned (Some e)]\<rparr>)" (is "results log ?t")
proof -
  note f = caller_fields[OF inv i]
  have ri: "result_inv log s i" using r f(1) by (simp add: results_def)
  have "owed ?t j \<longrightarrow> owed s j" for j
    using p by (auto simp: owed_def pending_def held_def delete_conv' split: if_splits)
  then show ?thesis
    using ri f(1,6) h by (intro results_one[OF r, where i = i]) (auto simp: result_inv_def Let_def)
qed

lemma results_finish:
  assumes inv: "calls_inv s" and r: "results log s" and i: "i < length (cc_callers s)"
    and c: "call_finished i (cc_client s) = Some (e, c')"
  shows "results log (s\<lparr>cc_client := c', cc_callers := (cc_callers s)[i := CReturned e]\<rparr>)" (is "results log ?t")
proof -
  note f = caller_fields[OF inv i]
  let ?call = "heap (cc_client s) ! i"
  have ri: "result_inv log s i" using r f(1) by (simp add: results_def)
  have fin: "call_Finish ?call = (1, [i])" "e = call_Error ?call"
    "c' = (cc_client s)\<lparr>heap := (heap (cc_client s))[i := ?call\<lparr>call_Finish := (1, [])\<rparr>]\<rparr>"
    using f(2) c by (auto simp: caller_inv_def call_finished_def update_call_def)
  moreover have "\<not> owed s i" using f(2) fin(1) by (auto simp: caller_inv_def)
  ultimately show ?thesis
    using ri f(1,6)
    by (intro results_one[OF r, where i = i]) (auto simp: owed_client result_inv_def Let_def fresh_output_def resolved_def)
qed

lemma results_body:
  assumes inv: "calls_inv s" and m: "matched s" and r: "results log s" and rc: "receiving log rest s"
    and pc: "cc_receiver s = RBody h call" and b: "receive_body h call (cc_client s) = Some (e, c')"
    and q: "\<forall>h j. q \<noteq> RBody h (Some j)"
  shows "results log (s\<lparr>cc_client := c', cc_receiver := q\<rparr>)" (is "results log ?t")
proof (cases call)
  case None
  then have "heap c' = heap (cc_client s) \<and> pendingCalls c' = pendingCalls (cc_client s)"
    using b by (auto simp: receive_body_def split: prod.splits)
  then show ?thesis
    using pc q by (intro results_frame[OF r]) (auto simp: owed_def pending_def held_def)
next
  case (Some i)
  let ?c = "cc_client s"
  have i: "i \<in> registered ?c" "seqno ?c i = SequenceNumber h" using m pc Some by (simp_all add: matched_def)
  then have l: "i < length (heap ?c)" "i < length (cc_callers s)" "seqno ?c i \<noteq> 0"
    using inv registered_less by (auto simp: calls_inv_def)
  note f = caller_fields[OF inv l(2)]
  have o: "owed s i" using pc Some by (auto simp: owed_def held_def)
  have ri: "result_inv log s i" using r l(1) by (simp add: results_def)
  have fin: "call_Finish (heap ?c ! i) = (1, [])" "\<not> pending ?c i" using f(2) o pc Some by (auto simp: caller_inv_def held_def)
  have pcs: "cc_callers s ! i \<noteq> CReturned None" using ri o by (auto simp: result_inv_def Let_def)
  obtain u where u: "call_Output (heap ?c ! i) = Some (reflect_New u)"
    using ri o by (auto simp: result_inv_def fresh_output_def Let_def)
  obtain x where x: "heap c' = (heap ?c)[i := x]" "call_Finish x = (1, [i])" "call_SequenceNumber x = seqno ?c i"
    "pendingCalls c' = pendingCalls ?c"
    "call_Error x \<noteq> None \<or> Error h = [] \<and> (\<exists>j w. incoming (cl_coder ?c) = j # incoming (cl_coder c') \<and>
       unmarshal u j (zero_value u) = (w, False) \<and> call_Output x = Some \<lparr>rv_Type = TPtr u, rv_Val = VPtr w\<rparr>)"
    using receive_body_result[OF b[unfolded Some] l(1) fin(1) u] by blast
  have "call_Error x \<noteq> None \<or> resolved log x"
  proof (rule disjCI)
    assume n: "\<not> resolved log x"
    obtain pre h' bd post where p: "received_header h' = h" "log = pre @ (h', bd) # post"
      "incoming (cl_coder ?c) @ rest = the (marshal bd) # frames post"
      using rc pc by (auto simp: receiving_def Let_def)
    have m': "(h', bd) \<in> set log" "SequenceNumber h' = SequenceNumber h" "Error h' = [] \<longleftrightarrow> Error h = []"
      using p(1,2) by auto
    show "call_Error x \<noteq> None"
    proof
      assume "call_Error x = None"
      then obtain j w where j: "Error h = []" "incoming (cl_coder ?c) = j # incoming (cl_coder c')"
        "unmarshal u j (zero_value u) = (w, False)" "call_Output x = Some \<lparr>rv_Type = TPtr u, rv_Val = VPtr w\<rparr>"
        using x(5) by blast
      then have "j = the (marshal bd)" using p(3) by simp
      then have "resolved log x"
        unfolding resolved_def using m' j x(3) i(2) l(3) by (intro exI[of _ h'] exI[of _ bd] exI[of _ u] exI[of _ w]) simp
      then show False using n by simp
    qed
  qed
  moreover have "\<not> owed ?t i" "\<And>j. owed ?t j \<Longrightarrow> owed s j"
    using q x(4) fin(2) pc by (auto simp: owed_def pending_def held_def)
  ultimately show ?thesis
    using x(1-3) pcs l by (intro results_one[OF r, where i = i]) (auto simp: result_inv_def Let_def)
qed

lemma results_step:
  assumes st: "calls_step s t" and inv: "calls_inv s" and m: "matched s" and r: "results log s" and rc: "receiving log rest s"
    and new: "\<And>i. length (heap (cc_client s)) \<le> i \<Longrightarrow> i < length (heap (cc_client t)) \<Longrightarrow> fresh_output (heap (cc_client t) ! i)"
  shows "results log t"
  using st
proof cases
  case (start f x y)
  have "fresh_output (new_call f x y 1)"
    using new[of "length (heap (cc_client s))"] start by simp
  then show ?thesis using results_start[OF inv r] start by (simp add: new_call_def)
next
  case (refuse i c')
  then show ?thesis using results_refuse[OF inv r] by simp
next
  case (add i k c')
  then show ?thesis using results_add[OF inv r] by simp
next
  case (encoded i k c')
  then show ?thesis using results_encode[OF r encoded(4), where p = CWaiting] caller_fields(6)[OF inv encoded(2)] by simp
next
  case (not_encoded i k e c')
  then show ?thesis
    using results_encode[OF r not_encoded(4), where p = "CUndoing k e" and l = "cc_lock s"] caller_fields(6)[OF inv not_encoded(2)] by simp
next
  case (undo i k e c')
  then show ?thesis using results_undo[OF inv r] by simp
next
  case (cancel i x e c')
  then show ?thesis
    using results_return[OF inv r, of i c' "seqno (cc_client s) i" "ContextError x"] by (auto simp: call_canceled_def deleteCall_def)
next
  case (finish i e c')
  then show ?thesis using results_finish[OF inv r] by simp
next
  case (close e c')
  then show ?thesis using frame_ops(1)[OF close(2)] by (intro results_frame[OF r]) (auto simp: owed_client)
next
  case (header h c')
  then show ?thesis
    using frame_ops(2)[OF header(3)] by (intro results_frame[OF r]) (auto simp: owed_def pending_def held_def)
next
  case (no_header e c')
  then show ?thesis
    using frame_ops(2)[OF no_header(3)] by (intro results_frame[OF r]) (auto simp: owed_def pending_def held_def)
next
  case (match_ h call c')
  then have "owed t j \<Longrightarrow> owed s j" for j
    by (auto simp: owed_def pending_def held_def deleteCall_def delete_conv' split: if_splits)
  then show ?thesis using match_ by (intro results_frame[OF r]) (auto simp: deleteCall_def)
next
  case (body h call c')
  then show ?thesis using results_body[OF inv m r rc, of h call None c' RHeader] by simp
next
  case (bad_body h call e c')
  then show ?thesis using results_body[OF inv m r rc, of h call "Some e" c' "RTerminate e"] by simp
next
  case (terminate e c')
  obtain c1 where "terminateCalls (LibError e) (cc_client s) = Some c1" "length (heap c1) = length (heap (cc_client s))"
    "\<forall>j < length (heap (cc_client s)). heap c1 ! j = (if pending (cc_client s) j
       then (heap (cc_client s) ! j)\<lparr>call_Error := Some (LibError e), call_Finish := (1, [j])\<rparr> else heap (cc_client s) ! j)"
    using terminateCalls_eq[OF inv, of "LibError e"] terminate(2) by auto
  moreover have "pending (cc_client s) j \<Longrightarrow> owed s j" for j using terminate(2) by (simp add: owed_def)
  ultimately show ?thesis
    using terminate r by (fastforce simp: results_def result_inv_def Let_def owed_def fresh_output_def)
qed

end
