(* ===== verification/Server_Process.thy ===== *)
theory Server_Process
  imports Serve_Coder
begin

text \<open>
  The whole server process: the accept loop adds connections, each with its own goroutines, and all
  of them share the services. The counters of the methods are exact whatever the interleaving, and
  the information page shows them.
\<close>

subsection \<open>State and steps\<close>

text \<open>
  A connection is its processing limit and its goroutines; the server that they share is
  \<open>pr_server\<close>. Services may be registered at any time. A panic in any goroutine ends the process. That is
  what happens under \<^verbatim>\<open>LaunchAndAccept\<close>, which this models, and under \<^verbatim>\<open>LaunchAndServe\<close> for the goroutines
  of the requests; but there the loop of a connection runs in a goroutine of package net/http, which
  recovers from its panics, so that such a panic ends the connection and not the process.
\<close>

record Process =
  pr_server :: Server
  pr_conns :: "(duration \<times> Serving) list"

definition pr_alive :: "Process \<Rightarrow> bool" where
  "pr_alive p \<longleftrightarrow> (\<forall>(limit, s) \<in> set (pr_conns p). sh_panic (sv_shared s) = None)"

definition with_server :: "Server \<Rightarrow> Serving \<Rightarrow> Serving" where
  "with_server srv s = s\<lparr>sv_shared := (sv_shared s)\<lparr>sh_server := srv\<rparr>\<rparr>"

inductive process_step :: "Process \<Rightarrow> Process \<Rightarrow> bool" where
  pr_accept: "pr_alive p \<Longrightarrow> ServeConnection c = Serving jc info \<Longrightarrow>
    process_step p (p\<lparr>pr_conns := pr_conns p @ [(ProcessingTimeout info, serve_start (pr_server p) jc)]\<rparr>)"
| pr_conn: "pr_alive p \<Longrightarrow> k < length (pr_conns p) \<Longrightarrow> pr_conns p ! k = (limit, s) \<Longrightarrow>
    serve_step limit (with_server (pr_server p) s) t \<Longrightarrow>
    process_step p (p\<lparr>pr_server := sh_server (sv_shared t), pr_conns := (pr_conns p)[k := (limit, t)]\<rparr>)"
| pr_register: "pr_alive p \<Longrightarrow> ServiceRegister (pr_server p) sv = (Ret r, srv) \<Longrightarrow>
    process_step p (p\<lparr>pr_server := srv\<rparr>)"

definition pr_started :: "Process \<Rightarrow> bool" where
  "pr_started p \<longleftrightarrow> pr_conns p = [] \<and>
     (\<exists>lis. CreateServer lis = Inr (pr_server p) \<or> CreateServerHTTP lis = Inr (pr_server p))"

abbreviation process_reach :: "Process \<Rightarrow> bool" where
  "process_reach \<equiv> reach pr_started process_step"

subsection \<open>Counting\<close>

definition method_count :: "Server \<Rightarrow> string \<Rightarrow> string \<Rightarrow> 64 word option" where
  "method_count srv s n = map_option callCounts (find_method srv (Some s) (Some n))"

definition names_ok :: "Server \<Rightarrow> bool" where
  "names_ok srv \<longleftrightarrow> (\<forall>s n m. find_method srv (Some s) (Some n) = Some m \<longrightarrow> MethodName m = n)"

text \<open>The calls of a method: the handlers of its requests whose call has been made.\<close>

definition ran :: "string \<Rightarrow> string \<Rightarrow> Handler \<Rightarrow> bool" where
  "ran s n h \<longleftrightarrow> req_service (rh_request h) = Some s \<and> req_method (rh_request h) = Some n \<and> rh_worker h \<noteq> Calling"

definition ran_in :: "string \<Rightarrow> string \<Rightarrow> Serving \<Rightarrow> nat" where
  "ran_in s n c = length (filter (ran s n) (sv_handlers c))"

definition executed :: "Process \<Rightarrow> string \<Rightarrow> string \<Rightarrow> nat" where
  "executed p s n = sum_list (map (\<lambda>(limit, c). ran_in s n c) (pr_conns p))"

definition answerable :: "Server \<Rightarrow> Request \<Rightarrow> bool" where
  "answerable srv r \<longleftrightarrow> (\<exists>s n. req_service r = Some s \<and> req_method r = Some n \<and> method_count srv s n \<noteq> None) \<and>
     req_input r \<noteq> None \<and> req_output r \<noteq> None"

text \<open>What a call does to the counters.\<close>

definition counted :: "Request \<Rightarrow> Server \<Rightarrow> Server \<Rightarrow> bool" where
  "counted r srv srv' \<longleftrightarrow> (\<forall>s n. method_count srv' s n =
     map_option (\<lambda>k. if req_service r = Some s \<and> req_method r = Some n then k + 1 else k) (method_count srv s n))"

lemma find_method_alt:
  "find_method srv (Some s) (Some n) = Option.bind (map_of (ServiceMap srv) s) (\<lambda>svc. map_of (ServiceMethod svc) n)"
  by (simp add: find_method_def)

lemma call_request_counts:
  assumes "names_ok srv" and "answerable srv r" and "call_request srv r = (res, srv')"
  shows "counted r srv srv' \<and> names_ok srv'"
proof -
  obtain s n m where r: "req_service r = Some s" "req_method r = Some n" "find_method srv (Some s) (Some n) = Some m"
    using assms(2) by (auto simp: answerable_def method_count_def)
  then obtain svc where svc: "map_of (ServiceMap srv) s = Some svc" "map_of (ServiceMethod svc) n = Some m"
    by (auto simp: find_method_alt split: Option.bind_splits)
  obtain input outp where io: "req_input r = Some input" "req_output r = Some outp"
    using assms(2) by (auto simp: answerable_def)
  have nm: "MethodName m = n" using assms(1) r(3) by (simp add: names_ok_def)
  let ?svc = "snd (service_Call svc m input outp)"
  have srv': "srv' = srv\<lparr>ServiceMap := AList.update s ?svc (ServiceMap srv)\<rparr>"
    using assms(3) r svc io by (auto simp: call_request_def split: prod.splits)
  have m: "map_of (ServiceMethod ?svc) k =
      (if k = n then Some (m\<lparr>callCounts := callCounts m + 1\<rparr>) else map_of (ServiceMethod svc) k)" for k
    using svc(2) nm by (simp add: service_Call_methods count_call_lookup)
  have find: "find_method srv' (Some s') (Some n') =
      (if s' = s \<and> n' = n then Some (m\<lparr>callCounts := callCounts m + 1\<rparr>) else find_method srv (Some s') (Some n'))" for s' n'
    using svc m by (auto simp: srv' find_method_alt update_conv')
  show ?thesis
    using find r assms(1) nm by (auto simp: counted_def names_ok_def method_count_def option.map_ident)
qed

lemma register_counts:
  assumes "names_ok srv" and "ServiceRegister srv sv = (Ret res, srv')"
  shows "names_ok srv'" and "method_count srv' s n = method_count srv s n \<or>
      method_count srv s n = None \<and> method_count srv' s n = Some 0"
proof -
  have new: "find_method srv' (Some s') (Some n') = find_method srv (Some s') (Some n') \<or>
      find_method srv (Some s') (Some n') = None \<and>
      (\<forall>m. find_method srv' (Some s') (Some n') = Some m \<longrightarrow> MethodName m = n' \<and> callCounts m = 0)" for s' n'
  proof (cases "srv' = srv")
    case False
    then obtain svc where svc: "CreateService sv = Ret svc" "map_of (ServiceMap srv) (ServiceName svc) = None"
      "srv' = srv\<lparr>ServiceMap := AList.update (ServiceName svc) svc (ServiceMap srv)\<rparr>"
      using assms(2) by (auto simp: ServiceRegister_def split: go.splits option.splits)
    have "MethodName m = n' \<and> callCounts m = 0" if "map_of (ServiceMethod svc) n' = Some m" for m
      using that svc(1) createMethod_member[of "sv_Methods sv" "[]" n' m]
      by (cases "indirect_type sv") (auto simp: CreateService_def new_Method_def Let_def split: if_splits)
    then show ?thesis
      using svc(2,3) by (cases "s' = ServiceName svc") (simp_all add: find_method_alt update_conv')
  qed simp
  show "names_ok srv'" using new assms(1) unfolding names_ok_def by metis
  show "method_count srv' s n = method_count srv s n \<or> method_count srv s n = None \<and> method_count srv' s n = Some 0"
    using new[of s n]
    by (cases "find_method srv' (Some s) (Some n)"; cases "find_method srv (Some s) (Some n)") (auto simp: method_count_def)
qed

subsection \<open>What a step of a connection does\<close>

text \<open>
  A step calls at most one method, counts it, and leaves the other handlers and the server alone;
  a new handler has a request that can be answered and has not called.
\<close>

definition all_answerable :: "Server \<Rightarrow> Serving \<Rightarrow> bool" where
  "all_answerable srv c \<longleftrightarrow> (\<forall>h \<in> set (sv_handlers c). answerable srv (rh_request h))"

lemma counted_keeps:
  "counted r srv srv' \<Longrightarrow> answerable srv r' \<Longrightarrow> answerable srv' r'"
  by (auto simp: counted_def answerable_def)

lemma handler_step_counts:
  assumes "handler_step limit (h, sh) (h', sh')" and "names_ok (sh_server sh)"
    and "answerable (sh_server sh) (rh_request h)" and "sh_panic sh' = None"
  shows "(sh_server sh' = sh_server sh \<and> rh_request h' = rh_request h \<and> (\<forall>s n. ran s n h' = ran s n h)) \<or>
    (counted (rh_request h) (sh_server sh) (sh_server sh') \<and> names_ok (sh_server sh') \<and>
     answerable (sh_server sh') (rh_request h') \<and>
     (\<forall>s n. \<not> ran s n h \<and> ran s n h' = (req_service (rh_request h) = Some s \<and> req_method (rh_request h) = Some n)))"
  using assms(1)
proof (cases rule: handler_step.cases)
  case (call err outp srv)
  then have "counted (rh_request h) (sh_server sh) srv \<and> names_ok srv"
    using call_request_counts[OF assms(2,3)] by blast
  moreover from this have "answerable srv (rh_request h)" using assms(3) counted_keeps by blast
  then have "answerable srv ((rh_request h)\<lparr>req_output := Some outp\<rparr>)" by (simp add: answerable_def)
  ultimately show ?thesis using call by (simp add: ran_def)
qed (use assms(4) in \<open>auto simp: ran_def respond_def\<close>)

lemma accepted_answerable: "serve_turn srv jc = (Accepted r, jc') \<Longrightarrow> answerable srv r"
  by (erule accepted_parts)
    (auto simp: answerable_def method_count_def find_method_def split: option.splits Option.bind_splits)

lemma loop_turn_counts:
  assumes "all_answerable (sh_server (sv_shared c)) c"
  shows "sh_server (sv_shared (loop_turn c)) = sh_server (sv_shared c) \<and>
    all_answerable (sh_server (sv_shared c)) (loop_turn c) \<and> ran_in s n (loop_turn c) = ran_in s n c"
proof (cases rule: loop_turn_cases[of c])
  case (accepted r jc)
  then show ?thesis
    using assms accepted_answerable[OF accepted(1)]
    by (simp add: all_answerable_def ran_in_def ran_def new_handler_def)
qed (use assms in \<open>simp_all add: all_answerable_def ran_in_def\<close>)

lemma filter_update_length:
  "i < length xs \<Longrightarrow> length (filter P (xs[i := x])) + (if P (xs ! i) then 1 else 0) =
     length (filter P xs) + (if P x then 1 else 0)"
proof (induction xs arbitrary: i)
  case (Cons y ys)
  then show ?case
  proof (cases i)
    case (Suc j)
    then show ?thesis using Cons.IH[of j] Cons.prems by (auto split: if_splits)
  qed (auto)
qed simp

text \<open>The counters have grown by \<open>d\<close>.\<close>

definition grown :: "(string \<Rightarrow> string \<Rightarrow> nat) \<Rightarrow> Server \<Rightarrow> Server \<Rightarrow> bool" where
  "grown d srv srv' \<longleftrightarrow> (\<forall>s n. method_count srv' s n = map_option (\<lambda>k. k + of_nat (d s n)) (method_count srv s n))"

lemma grown_0: "grown (\<lambda>_ _. 0) srv srv"
  by (simp add: grown_def option.map_ident)

lemma grown_keeps: "grown d srv srv' \<Longrightarrow> answerable srv r \<Longrightarrow> answerable srv' r"
  by (auto simp: grown_def answerable_def)

lemma serve_step_counts:
  assumes "serve_step limit c c'" and "names_ok (sh_server (sv_shared c))"
    and "all_answerable (sh_server (sv_shared c)) c" and "sh_panic (sv_shared c') = None"
  shows "\<exists>d. grown d (sh_server (sv_shared c)) (sh_server (sv_shared c')) \<and> names_ok (sh_server (sv_shared c')) \<and>
    all_answerable (sh_server (sv_shared c')) c' \<and> (\<forall>s n. ran_in s n c' = ran_in s n c + d s n)"
  using assms(1)
proof cases
  case turn
  then show ?thesis using loop_turn_counts[OF assms(3)] assms(2) grown_0 by (intro exI[of _ "\<lambda>_ _. 0"]) simp
next
  case close
  then show ?thesis
    using assms(2,3) grown_0
    by (intro exI[of _ "\<lambda>_ _. 0"]) (simp add: close_coder_def all_answerable_def ran_in_def)
next
  case (handler i h' sh')
  let ?h = "sv_handlers c ! i"
  have a: "answerable (sh_server (sv_shared c)) (rh_request ?h)" using assms(3) handler(2) by (simp add: all_answerable_def)
  note fl = filter_update_length[OF handler(2), of "ran s n" h' for s n]
  have sub: "set ((sv_handlers c)[i := h']) \<subseteq> insert h' (set (sv_handlers c))" by (rule set_update_subset_insert)
  from handler_step_counts[OF handler(3) assms(2) a] assms(4) handler(1)
  consider (same) "sh_server sh' = sh_server (sv_shared c)" "rh_request h' = rh_request ?h" "\<And>s n. ran s n h' = ran s n ?h"
    | (called) "counted (rh_request ?h) (sh_server (sv_shared c)) (sh_server sh')" "names_ok (sh_server sh')"
        "answerable (sh_server sh') (rh_request h')"
        "\<And>s n. \<not> ran s n ?h \<and> ran s n h' = (req_service (rh_request ?h) = Some s \<and> req_method (rh_request ?h) = Some n)"
    by auto
  then show ?thesis
  proof cases
    case same
    have "ran_in s n c' = ran_in s n c" for s n
      using fl[of s n] same(3) handler(1) by (simp add: ran_in_def split: if_splits)
    moreover have "all_answerable (sh_server sh') c'"
      using assms(3) same sub a handler(1) by (auto simp: all_answerable_def)
    ultimately show ?thesis
      using same assms(2) handler(1) grown_0 by (intro exI[of _ "\<lambda>_ _. 0"]) simp
  next
    case called
    let ?d = "\<lambda>s n. if req_service (rh_request ?h) = Some s \<and> req_method (rh_request ?h) = Some n then 1 else 0 :: nat"
    have g: "grown ?d (sh_server (sv_shared c)) (sh_server sh')"
      using called(1) by (auto simp: counted_def grown_def intro: option.map_cong)
    moreover have "all_answerable (sh_server sh') c'"
      using assms(3) called(3) sub handler(1) grown_keeps[OF g] by (auto simp: all_answerable_def)
    moreover have "ran_in s n c' = ran_in s n c + ?d s n" for s n
      using fl[of s n] called(4)[of s n] handler(1) by (auto simp: ran_in_def split: if_splits)
    ultimately show ?thesis using called(2) handler(1) by (intro exI[of _ ?d]) simp
  qed
qed

subsection \<open>The invariant of the process\<close>

definition process_inv :: "Process \<Rightarrow> bool" where
  "process_inv p \<longleftrightarrow>
     (\<forall>(limit, c) \<in> set (pr_conns p). serve_inv limit c) \<and>
     (pr_alive p \<longrightarrow> names_ok (pr_server p) \<and>
        (\<forall>(limit, c) \<in> set (pr_conns p). all_answerable (pr_server p) c) \<and>
        (\<forall>s n k. method_count (pr_server p) s n = Some k \<longrightarrow> k = of_nat (executed p s n)))"

lemma with_server_simps [simp]:
  "sh_server (sv_shared (with_server srv c)) = srv" "sv_handlers (with_server srv c) = sv_handlers c"
  "sv_pc (with_server srv c) = sv_pc c" "sh_panic (sv_shared (with_server srv c)) = sh_panic (sv_shared c)"
  "sh_wait (sv_shared (with_server srv c)) = sh_wait (sv_shared c)"
  by (simp_all add: with_server_def)

lemma with_server_inv [simp]:
  "serve_inv limit (with_server srv c) = serve_inv limit c"
  "all_answerable srv' (with_server srv c) = all_answerable srv' c"
  "ran_in s n (with_server srv c) = ran_in s n c"
  by (simp_all add: serve_inv_def all_answerable_def ran_in_def)

lemma executed_update:
  assumes "k < length (pr_conns p)" and "pr_conns p ! k = (limit, c)"
  shows "executed (p\<lparr>pr_server := srv, pr_conns := (pr_conns p)[k := (limit, t)]\<rparr>) s n + ran_in s n c =
    executed p s n + ran_in s n t"
proof -
  let ?f = "\<lambda>(limit, c). ran_in s n c"
  have "?f (pr_conns p ! k) \<le> sum_list (map ?f (pr_conns p))"
    using elem_le_sum_list[of k "map ?f (pr_conns p)"] assms(1) by simp
  then show ?thesis using assms by (simp add: executed_def map_update sum_list_update)
qed

text \<open>A method that has not been registered has not been called.\<close>

lemma executed_unknown:
  assumes "\<forall>(limit, c) \<in> set (pr_conns p). all_answerable (pr_server p) c" and "method_count (pr_server p) s n = None"
  shows "executed p s n = 0"
proof -
  have "ran_in s n c = 0" if "(limit, c) \<in> set (pr_conns p)" for limit c
    using assms that by (fastforce simp: ran_in_def ran_def all_answerable_def answerable_def filter_empty_conv)
  then show ?thesis by (auto simp: executed_def)
qed

lemma process_inv_conn:
  assumes inv: "process_inv p" and alive: "pr_alive p" and k: "k < length (pr_conns p)" "pr_conns p ! k = (limit, c)"
    and step: "serve_step limit (with_server (pr_server p) c) t"
  shows "process_inv (p\<lparr>pr_server := sh_server (sv_shared t), pr_conns := (pr_conns p)[k := (limit, t)]\<rparr>)"
    (is "process_inv ?p")
proof -
  have m: "(limit, c) \<in> set (pr_conns p)" using k nth_mem by metis
  have set: "set (pr_conns ?p) \<subseteq> insert (limit, t) (set (pr_conns p))" using set_update_subset_insert by simp
  have "serve_inv limit (with_server (pr_server p) c)" using inv m by (auto simp: process_inv_def)
  then have "serve_inv limit t" using sc.invar_step[OF _ step] by blast
  then have 1: "\<forall>(limit, c) \<in> set (pr_conns ?p). serve_inv limit c"
    using inv set unfolding process_inv_def by blast
  have "names_ok (pr_server ?p) \<and> (\<forall>(limit, c) \<in> set (pr_conns ?p). all_answerable (pr_server ?p) c) \<and>
      (\<forall>s n k. method_count (pr_server ?p) s n = Some k \<longrightarrow> k = of_nat (executed ?p s n))" if "pr_alive ?p"
  proof -
    have t: "sh_panic (sv_shared t) = None"
      using that k(1) set_update_memI[OF k(1), of "(limit, t)"] by (auto simp: pr_alive_def)
    have old: "names_ok (pr_server p)" "\<forall>(limit, c) \<in> set (pr_conns p). all_answerable (pr_server p) c"
      "\<And>s n k. method_count (pr_server p) s n = Some k \<Longrightarrow> k = of_nat (executed p s n)"
      using inv alive by (auto simp: process_inv_def)
    obtain d where d: "grown d (pr_server p) (pr_server ?p)" "names_ok (pr_server ?p)"
      "all_answerable (pr_server ?p) t" "\<And>s n. ran_in s n t = ran_in s n c + d s n"
      using serve_step_counts[OF step] t old m by fastforce
    have "\<forall>(limit, c) \<in> set (pr_conns ?p). all_answerable (pr_server ?p) c"
      using set old(2) d(3) grown_keeps[OF d(1)] unfolding all_answerable_def by fastforce
    moreover have "j = of_nat (executed ?p s n)" if "method_count (pr_server ?p) s n = Some j" for s n j
    proof -
      have "map_option (\<lambda>k. k + of_nat (d s n)) (method_count (pr_server p) s n) = Some j"
        using that d(1) unfolding grown_def by metis
      then obtain i where "method_count (pr_server p) s n = Some i" "j = i + of_nat (d s n)" by auto
      moreover have "executed ?p s n = executed p s n + d s n"
        using executed_update[OF k, where srv = "sh_server (sv_shared t)" and t = t and s = s and n = n] d(4)[of s n] by simp
      ultimately show ?thesis using old(3) by simp
    qed
    ultimately show ?thesis using d(2) by blast
  qed
  with 1 show ?thesis unfolding process_inv_def by blast
qed

lemma process_inv_accept:
  assumes "process_inv p" and "pr_alive p"
  shows "process_inv (p\<lparr>pr_conns := pr_conns p @ [(limit, serve_start (pr_server p) jc)]\<rparr>)"
  using assms
  by (auto simp: process_inv_def pr_alive_def executed_def ran_in_def all_answerable_def serve_start_def serve_inv_def)

lemma process_inv_register:
  assumes inv: "process_inv p" and alive: "pr_alive p" and r: "ServiceRegister (pr_server p) sv = (Ret res, srv)"
  shows "process_inv (p\<lparr>pr_server := srv\<rparr>)"
proof -
  have old: "names_ok (pr_server p)" "\<forall>(limit, c) \<in> set (pr_conns p). all_answerable (pr_server p) c"
    "\<And>s n k. method_count (pr_server p) s n = Some k \<Longrightarrow> k = of_nat (executed p s n)"
    using inv alive by (auto simp: process_inv_def)
  note new = register_counts[OF old(1) r]
  have "answerable srv x" if a: "answerable (pr_server p) x" for x
  proof -
    obtain s n where "req_service x = Some s" "req_method x = Some n" "method_count (pr_server p) s n \<noteq> None"
      using a unfolding answerable_def by blast
    then show ?thesis using a new(2)[of s n] by (auto simp: answerable_def)
  qed
  then have "\<forall>(limit, c) \<in> set (pr_conns p). all_answerable srv c"
    using old(2) unfolding all_answerable_def by fastforce
  moreover have "k = of_nat (executed p s n)" if "method_count srv s n = Some k" for s n k
    using that new(2)[of s n] old(3) executed_unknown[OF old(2), of s n] by auto
  ultimately show ?thesis
    using inv new(1) by (auto simp: process_inv_def pr_alive_def executed_def)
qed

interpretation pr: step_system pr_started process_step process_inv
proof unfold_locales
  show "process_inv p" if "pr_started p" for p
  proof -
    have "ServiceMap (pr_server p) = []"
      using that by (auto simp: pr_started_def CreateServer_def CreateServerHTTP_def split: option.splits
          dest!: arg_cong[of _ _ ServiceMap])
    then show ?thesis
      using that by (simp add: pr_started_def process_inv_def names_ok_def method_count_def find_method_def)
  qed
  show "process_inv q" if "process_inv p" "process_step p q" for p q
    using that(2,1) by cases (auto intro: process_inv_conn process_inv_accept process_inv_register)
qed

subsection \<open>One connection\<close>

text \<open>A run of one connection is a run of the process.\<close>

lemma serve_step_alive: "serve_step limit s t \<Longrightarrow> sh_panic (sv_shared s) = None"
  by (erule serve_step.cases) (auto elim: handler_step.cases)

lemma process_lifts:
  assumes "served limit srv jc s"
    and "process_reach \<lparr>pr_server = srv, pr_conns = [(limit, serve_start srv jc)]\<rparr>"
  shows "process_reach \<lparr>pr_server = sh_server (sv_shared s), pr_conns = [(limit, s)]\<rparr>"
  using assms(1)
proof (induction rule: reach.induct)
  case (reach_init s)
  then show ?case using assms(2) by (simp add: serve_started_def serve_start_def)
next
  case (reach_step s t)
  let ?p = "\<lparr>pr_server = sh_server (sv_shared s), pr_conns = [(limit, s)]\<rparr>"
  have "serve_step limit (with_server (pr_server ?p) s) t" using reach_step(2) by (simp add: with_server_def)
  from pr_conn[OF _ _ _ this, of 0] have "process_step ?p \<lparr>pr_server = sh_server (sv_shared t), pr_conns = [(limit, t)]\<rparr>"
    using serve_step_alive[OF reach_step(2)] by (simp add: pr_alive_def)
  with reach_step(3) show ?case by (rule reach.reach_step)
qed

definition sample_info :: "duration \<Rightarrow> ConnectionInfo" where
  "sample_info limit = DefaultConnectionInfo\<lparr>ProcessingTimeout := limit\<rparr>"

lemma sample_process:
  assumes "int_ok limit"
  shows "process_reach \<lparr>pr_server = sample_server,
    pr_conns = [(limit, serve_start sample_server (NewJsonCoder (sample_connection later)))]\<rparr>"
proof -
  let ?srv = "sample_server\<lparr>ServiceMap := []\<rparr>"
  let ?c = "sample_connection ([info_json (sample_info limit)] # later)"
  let ?jc = "NewJsonCoder (sample_connection later)"
  have "CreateServer (Some (Listener sample_server)) = Inr ?srv" by (simp add: CreateServer_def sample_server_def)
  then have 0: "process_reach \<lparr>pr_server = ?srv, pr_conns = []\<rparr>" by (intro reach_init) (auto simp: pr_started_def)
  have r: "ServiceRegister ?srv arithmetic = (Ret None, sample_server)"
    by (simp add: ServiceRegister_def arithmetic_created sample_server_def arithmetic_service_def)
  have "process_step \<lparr>pr_server = ?srv, pr_conns = []\<rparr> \<lparr>pr_server = sample_server, pr_conns = []\<rparr>"
    using pr_register[of "\<lparr>pr_server = ?srv, pr_conns = []\<rparr>"] r by (simp add: pr_alive_def)
  with 0 have 1: "process_reach \<lparr>pr_server = sample_server, pr_conns = []\<rparr>" by (rule reach_step)
  have "info_ok (sample_info limit)"
    using assms by (simp add: info_ok_def sample_info_def DefaultConnectionInfo_def int_ok_def MagicNumber_def time_defs)
  then have s: "ServeConnection ?c = Serving ?jc (sample_info limit)"
    by (simp add: ServeConnection_def dec_Decode_def dec_read_def sample_connection_def unmarshal_info
        sample_info_def DefaultConnectionInfo_def CoderInitializerMap_lookup)
  have "process_step \<lparr>pr_server = sample_server, pr_conns = []\<rparr>
      \<lparr>pr_server = sample_server, pr_conns = [(limit, serve_start sample_server ?jc)]\<rparr>"
    using pr_accept[of "\<lparr>pr_server = sample_server, pr_conns = []\<rparr>", OF _ s] by (simp add: pr_alive_def sample_info_def)
  with 1 show ?thesis by (rule reach_step)
qed

text \<open>The process after the one request has been read and its method called.\<close>

lemma sample_called:
  "\<exists>p m. process_reach p \<and> pr_alive p \<and> executed p ''Arithmetic'' ''Addition'' = 1 \<and>
     (\<exists>svc. map_of (ServiceMap (pr_server p)) ''Arithmetic'' = Some svc \<and> map_of (ServiceMethod svc) ''Addition'' = Some m)"
proof -
  obtain s where s: "served 0 sample_server sample_coder s" "sv_handlers s = [new_handler sample_request]"
    "sh_panic (sv_shared s) = None" "sh_server (sv_shared s) = sample_server"
    using sample_turn[of 0] by blast
  let ?h = "new_handler sample_request"
  obtain outp srv where c: "call_request sample_server sample_request = (Ret (None, outp), srv)"
    "\<exists>svc m. map_of (ServiceMap srv) ''Arithmetic'' = Some svc \<and> map_of (ServiceMethod svc) ''Addition'' = Some m"
    using sample_call by blast
  let ?h' = "?h\<lparr>rh_worker := CallDone None, rh_request := sample_request\<lparr>req_output := Some outp\<rparr>\<rparr>"
  have "handler_step 0 (?h, sv_shared s) (?h', (sv_shared s)\<lparr>sh_server := srv\<rparr>)"
    using call[of "sv_shared s" ?h None outp srv 0] s(3,4) c(1) by (simp add: new_handler_def)
  from process_lifts[OF served_only_handler[OF s(1,2) this] sample_process[of 0 "[sample_request_chunk]", folded sample_coder_def]]
  show ?thesis
    using c(2) s(3) by (fastforce simp: pr_alive_def executed_def ran_in_def ran_def new_handler_def sample_request_def int_ok_def)
qed

subsection \<open>Properties\<close>

text \<open>
  C8. The counters are exact: with any number of connections and whatever the interleaving, the
  counter of a registered method is the number of its requests, over all connections, whose call has
  been made (modulo 2 to the 64), and the information page has the row of the method with it, in whatever
  order the services are visited.
\<close>

theorem page_shows_calls:
  assumes "process_reach p" and "pr_alive p"
    and "map_of (ServiceMap (pr_server p)) s = Some svc" and "map_of (ServiceMethod svc) n = Some m" and "visits order"
  shows "callCounts m = of_nat (executed p s n) \<and>
    (\<exists>page. info_ServeHTTP order (pr_server p) = InfoPage page \<and> sublist (method_row (n, m)) page)"
proof -
  have "process_inv p" using assms(1) by (rule pr.reach_invar)
  moreover have "method_count (pr_server p) s n = Some (callCounts m)"
    using assms(3,4) by (simp add: method_count_def find_method_def)
  moreover have "(s, ServiceMethod svc) \<in> set (map (\<lambda>(name, s). (name, ServiceMethod s)) (order (ServiceMap (pr_server p))))"
    using map_of_SomeD[OF assms(3)] visits_set[OF assms(5)] by force
  ultimately show ?thesis
    using assms(2) serverInfo_row[OF _ map_of_SomeD[OF assms(4)]] by (auto simp: process_inv_def info_ServeHTTP_def)
qed

theorem page_shows_calls_witness:
  "\<exists>p svc m. process_reach p \<and> map_of (ServiceMap (pr_server p)) ''Arithmetic'' = Some svc \<and> map_of (ServiceMethod svc) ''Addition'' = Some m \<and>
     callCounts m = 1"
proof -
  obtain p svc m where "process_reach p" "pr_alive p" "executed p ''Arithmetic'' ''Addition'' = 1"
    "map_of (ServiceMap (pr_server p)) ''Arithmetic'' = Some svc" "map_of (ServiceMethod svc) ''Addition'' = Some m"
    using sample_called by blast
  moreover from this have "callCounts m = 1"
    using page_shows_calls[of p "''Arithmetic''" svc "''Addition''" m "\<lambda>m. m"] by simp
  ultimately show ?thesis by blast
qed

text \<open>
  C38. Nothing that is registered can inject markup into the information page: whatever the names of
  the services and methods and the types of their parameters, and in whatever order the services are
  visited, the page opens exactly the tags of the template, 6 for the page, 8 for a service and 6 for a
  method.
\<close>

theorem page_markup_safe:
  assumes "visits order"
  shows "\<exists>page. info_ServeHTTP order srv = InfoPage page \<and>
     count_list page CHR ''<'' = 6 + (\<Sum>(name, svc) \<leftarrow> ServiceMap srv. 8 + 6 * length (ServiceMethod svc))"
proof -
  let ?f = "\<lambda>(name, svc). 8 + 6 * length (ServiceMethod svc)"
  have count: "count_list (concat (map service_table (map (\<lambda>(name, s). (name, ServiceMethod s)) sm))) CHR ''<'' =
      (\<Sum>(name, svc) \<leftarrow> sm. 8 + 6 * length (ServiceMethod svc))" for sm
    by (induction sm) (auto simp: count_service_table)
  have "mset (map ?f (order (ServiceMap srv))) = mset (map ?f (ServiceMap srv))"
    using assms by (simp add: visits_def)
  then have "sum_list (map ?f (order (ServiceMap srv))) = sum_list (map ?f (ServiceMap srv))"
    by (metis sum_mset_sum_list)
  then show ?thesis by (simp add: info_ServeHTTP_def serverInfo_def count del: map_map)
qed

theorem page_markup_safe_witness:
  "\<exists>page. info_ServeHTTP rev (sample_server\<lparr>ServiceMap := [(''<b>'', arithmetic_service\<lparr>ServiceMethod := []\<rparr>), (''B'', arithmetic_service\<lparr>ServiceMethod := []\<rparr>)]\<rparr>) =
     InfoPage page \<and> count_list page CHR ''<'' = 22"
  using page_markup_safe[OF visits_rev,
      of "sample_server\<lparr>ServiceMap := [(''<b>'', arithmetic_service\<lparr>ServiceMethod := []\<rparr>), (''B'', arithmetic_service\<lparr>ServiceMethod := []\<rparr>)]\<rparr>"]
  by simp

text \<open>
  Inside a table the methods come by name, whatever the order of the map; but the tables come in the
  order of the visits, so the page of a server with two services is not determined by the server.
\<close>

lemma table_order_independent:
  assumes "dict_ok ms" and "dict_ok ms'" and "set ms = set ms'"
  shows "service_table (name, ms) = service_table (name, ms')"
  using sort_key_dict[OF assms] by (simp add: service_table_def)

definition plain_name :: "string \<Rightarrow> bool" where
  "plain_name s \<longleftrightarrow> (\<forall>c \<in> set s. escape_char c = [c]) \<and> CHR 0x0A \<notin> set s"

lemma plain_escape: "plain_name s \<Longrightarrow> html_escape s = s"
  by (induction s) (auto simp: plain_name_def html_escape_def)

lemma service_table_head:
  "\<exists>rest. service_table (n, ms) = html_line 1 ''<hr>'' @ html_line 1 ''Service '' @ html_escape n @ CHR 0x0A # rest"
  unfolding service_table_def prod.case html_line_def[of 1 "''<hr>''"] by simp

lemma page_depends_on_visits:
  assumes "ServiceMap srv = (a, s) # (b, t) # rest" and "a \<noteq> b" and "plain_name a" and "plain_name b"
  shows "\<exists>order. visits order \<and> info_ServeHTTP order srv \<noteq> info_ServeHTTP (\<lambda>m. m) srv"
proof (intro exI conjI)
  let ?order = "\<lambda>m. case m of x # y # zs \<Rightarrow> y # x # zs | _ \<Rightarrow> m"
  show "visits ?order" by (auto simp: visits_def split: list.split)
  obtain xs ys where tables:
    "service_table (a, ServiceMethod s) = html_line 1 ''<hr>'' @ html_line 1 ''Service '' @ html_escape a @ CHR 0x0A # xs"
    "service_table (b, ServiceMethod t) = html_line 1 ''<hr>'' @ html_line 1 ''Service '' @ html_escape b @ CHR 0x0A # ys"
    using service_table_head by metis
  have first: "takeWhile (\<lambda>c. c \<noteq> CHR 0x0A) (n @ CHR 0x0A # Z) = n" if "plain_name n" for n Z
    using that unfolding plain_name_def by (subst takeWhile_append2) auto
  have "a = b" if "a @ CHR 0x0A # X = b @ CHR 0x0A # Y" for X Y
    using arg_cong[OF that, of "takeWhile (\<lambda>c. c \<noteq> CHR 0x0A)"] assms(3,4) by (simp add: first)
  then show "info_ServeHTTP ?order srv \<noteq> info_ServeHTTP (\<lambda>m. m) srv"
    using assms(1,2) by (auto dest: sym[of "b @ _"] simp: info_ServeHTTP_def serverInfo_def tables plain_escape assms(3,4))
qed

text \<open>
  C7. A closed connection has answered everything, also when other connections run at the same time:
  when the coder of a connection of a server process has been closed, every request that its loop
  accepted has got exactly one response, with its own sequence number and method.
\<close>

theorem process_closed_answered_all:
  assumes "process_reach p" and "(limit, c) \<in> set (pr_conns p)" and "sv_pc c = Closed" and "h \<in> set (sv_handlers c)"
  shows "\<exists>m. rh_sent h = [m] \<and> SequenceNumber (fst m) = SequenceNumber (req_header (rh_request h)) \<and>
    ServiceDotMethod (fst m) = ServiceDotMethod (req_header (rh_request h))"
proof -
  have "serve_inv limit c" using pr.reach_invar[OF assms(1)] assms(2) by (auto simp: process_inv_def)
  then show ?thesis using assms(3,4) by (rule closed_inv_answered)
qed

theorem process_closed_answered_all_witness:
  "\<exists>p h c. process_reach p \<and> (time_Second, c) \<in> set (pr_conns p) \<and> sv_handlers c = [h] \<and> length (rh_sent h) = 1"
proof -
  obtain c where c: "served time_Second sample_server sample_coder c" "sv_pc c = Closed" "length (sv_handlers c) = 1"
    using sample_served[of time_Second] by (auto simp: time_defs)
  then obtain h where h: "sv_handlers c = [h]" by (auto simp: length_Suc_conv)
  let ?p = "\<lparr>pr_server = sh_server (sv_shared c), pr_conns = [(time_Second, c)]\<rparr>"
  have "process_reach ?p"
    using process_lifts[OF c(1) sample_process[of _ "[sample_request_chunk]", folded sample_coder_def]] by (simp add: time_defs int_ok_def)
  then show ?thesis
    using process_closed_answered_all[of ?p time_Second c h] c(2) h by (intro exI[of _ ?p]) auto
qed

end
