(* ===== verification/Server_Wire.thy ===== *)
theory Server_Wire
  imports Client_Wire Server_Process
begin

text \<open>
  A connection of the server and its wire: as long as the requests that arrive name registered
  methods, the handlers are those of the requests, in their order, and every response without an
  error carries what the method of its request has computed.
\<close>

subsection \<open>What callers ask for\<close>

text \<open>
  A call by the name of a registered method (in UTF-8, as Go identifiers are), with an input that is the
  JSON of a value \<open>v\<close> of the method's input type; \<open>u\<close> is the type that the method's output points to.
\<close>

definition asks :: "Server \<Rightarrow> string \<Rightarrow> go_value \<Rightarrow> Method \<Rightarrow> go_value \<Rightarrow> go_type \<Rightarrow> bool" where
  "asks srv name inp m v u \<longleftrightarrow>
     (\<exists>s n. search_service srv name = (Some s, Some n, None) \<and> find_method srv (Some s) (Some n) = Some m) \<and>
     utf8_valid name \<and> well_formed m \<and> typed (input_elem m) v \<and> type_ok (input_elem m) \<and> sendable v \<and>
     marshal v \<noteq> None \<and> marshal inp = marshal v \<and> type_Elem (OutputType m) = Ret u \<and> type_ok u"

text \<open>
  The method, run on the value from some state of its receiver and on a new output, returns an error
  (or none) and leaves \<open>reply\<close> as its output.
\<close>

definition runs :: "Method \<Rightarrow> go_value \<Rightarrow> string option \<Rightarrow> go_value \<Rightarrow> bool" where
  "runs m v err reply \<longleftrightarrow> (\<exists>output recv recv'. CreateOutput m = Ret output \<and>
     rm_Func (methodType m) recv (input_of m v) (rv_Val output) = Ret (err, recv', reply))"

text \<open>The assumption on the code of a method: JSON can express the outputs that it returns.\<close>

definition expressible :: "Method \<Rightarrow> go_value \<Rightarrow> go_type \<Rightarrow> bool" where
  "expressible m v u \<longleftrightarrow> (\<forall>reply. runs m v None reply \<longrightarrow>
     (\<exists>w. reply = VPtr w \<and> typed u w \<and> sendable w \<and> marshal w \<noteq> None))"

lemma asks_unique:
  assumes "asks srv name inp m v u" and "asks srv name inp m' v' u'"
  shows "m' = m \<and> v' = v \<and> u' = u"
proof -
  have m: "m' = m" using assms by (auto simp: asks_def)
  with assms obtain j where "marshal v = Some j" "marshal v' = Some j" "typed (input_elem m) v" "typed (input_elem m) v'"
    "type_ok (input_elem m)" "sendable v" "sendable v'" by (auto simp: asks_def)
  then have "unmarshal (input_elem m) j (zero_value (input_elem m)) = (v, False)"
    "unmarshal (input_elem m) j (zero_value (input_elem m)) = (v', False)"
    by (auto intro: unmarshal_marshal)
  then show ?thesis using m assms by (auto simp: asks_def)
qed

subsection \<open>Methods stay\<close>

definition keeps :: "Server \<Rightarrow> Server \<Rightarrow> bool" where
  "keeps srv srv' \<longleftrightarrow> (\<forall>s n m. find_method srv (Some s) (Some n) = Some m \<longrightarrow>
     (\<exists>k. find_method srv' (Some s) (Some n) = Some (m\<lparr>callCounts := k\<rparr>)))"

lemma keeps_refl: "keeps srv srv"
  unfolding keeps_def by (metis Method.surjective Method.update_convs(5))

lemma keeps_trans: "keeps srv srv' \<Longrightarrow> keeps srv' srv'' \<Longrightarrow> keeps srv srv''"
  unfolding keeps_def by fastforce

lemma keeps_search:
  assumes "keeps srv srv'" and "search_service srv name = (Some s, Some n, None)" and "find_method srv (Some s) (Some n) = Some m"
  shows "search_service srv' name = (Some s, Some n, None)"
proof -
  obtain k where k: "find_method srv' (Some s) (Some n) = Some (m\<lparr>callCounts := k\<rparr>)"
    using assms(1,3) unfolding keeps_def by blast
  show ?thesis
  proof (cases rule: search_cases[of name srv])
    case (found s' n' svc m')
    then show ?thesis
      using assms(2) k search_dot[OF found(2), of srv' s'] by (auto simp: find_method_alt split: Option.bind_splits)
  qed (use assms(2) in auto)
qed

lemma call_request_keeps:
  assumes "names_ok srv" and "call_request srv r = (res, srv')"
  shows "keeps srv srv'"
proof (cases "srv' = srv")
  case False
  then obtain s n m svc svc' input outp where r: "req_service r = Some s" "req_method r = Some n"
    "find_method srv (Some s) (Some n) = Some m" "map_of (ServiceMap srv) s = Some svc" "map_of (ServiceMethod svc) n = Some m"
    and call: "service_Call svc m input outp = (res, svc')"
    and srv': "srv' = srv\<lparr>ServiceMap := AList.update s svc' (ServiceMap srv)\<rparr>"
    using assms(2)
    by (cases "req_method r") (auto simp: call_request_def find_method_def split: option.splits prod.splits Option.bind_splits)
  have nm: "MethodName m = n" using assms(1) r(3) by (simp add: names_ok_def)
  have "map_of (ServiceMethod svc') k =
      (if k = n then Some (m\<lparr>callCounts := callCounts m + 1\<rparr>) else map_of (ServiceMethod svc) k)" for k
    using r(5) nm service_Call_methods[of svc m input outp] call by (simp add: count_call_lookup)
  then have find: "find_method srv' (Some s') (Some n') =
      (if s' = s \<and> n' = n then Some (m\<lparr>callCounts := callCounts m + 1\<rparr>) else find_method srv (Some s') (Some n'))" for s' n'
    using r(4) by (auto simp: srv' find_method_alt update_conv')
  show ?thesis
    unfolding keeps_def find using r(3) keeps_refl[of srv] by (auto simp: keeps_def)
qed (simp add: keeps_refl)

lemma register_keeps:
  assumes "ServiceRegister srv sv = (Ret res, srv')"
  shows "keeps srv srv'"
proof (cases "srv' = srv")
  case False
  then obtain svc where "map_of (ServiceMap srv) (ServiceName svc) = None"
    "srv' = srv\<lparr>ServiceMap := AList.update (ServiceName svc) svc (ServiceMap srv)\<rparr>"
    using assms by (auto simp: ServiceRegister_def split: go.splits option.splits)
  then have "find_method srv (Some s) (Some n) = Some m \<Longrightarrow> find_method srv' (Some s) (Some n) = Some m" for s n m
    by (auto simp: find_method_alt update_conv')
  then show ?thesis using keeps_refl[of srv] unfolding keeps_def by fastforce
qed (simp add: keeps_refl)

lemma serve_step_keeps:
  assumes "serve_step limit c c'" and "names_ok (sh_server (sv_shared c))"
  shows "keeps (sh_server (sv_shared c)) (sh_server (sv_shared c'))"
  using assms(1)
proof cases
  case turn
  then show ?thesis by (cases rule: loop_turn_cases[of c]) (simp_all add: keeps_refl)
next
  case (handler i h' sh')
  from handler(3) have "keeps (sh_server (sv_shared c)) (sh_server sh')"
    using call_request_keeps[OF assms(2)] by (cases rule: handler_step.cases) (auto simp: keeps_refl respond_def)
  then show ?thesis using handler(1) by simp
next
  case close
  then show ?thesis by (simp add: close_coder_def keeps_refl)
qed

subsection \<open>Handlers and requests\<close>

text \<open>What a message asks for, and the body of a response that is what its method computed.\<close>

definition good_request :: "Server \<Rightarrow> MessageHeader \<times> go_value \<Rightarrow> bool" where
  "good_request srv msg \<longleftrightarrow> Error (fst msg) = [] \<and>
     (\<exists>m v u. asks srv (ServiceDotMethod (fst msg)) (snd msg) m v u \<and> expressible m v u)"

lemma good_request_header [simp]: "good_request srv msg \<Longrightarrow> header_ok (fst msg)"
  by (auto simp: good_request_def asks_def)

definition computed :: "Server \<Rightarrow> MessageHeader \<times> go_value \<Rightarrow> go_value \<Rightarrow> bool" where
  "computed srv msg body \<longleftrightarrow> (\<exists>m v u. asks srv (ServiceDotMethod (fst msg)) (snd msg) m v u \<and> expressible m v u \<and>
     (runs m v None body \<or> body = invalidRequest \<and> (\<exists>reply. runs m v (Some []) reply)))"

text \<open>The handler of a message: its request, and once the call is done the result of the call.\<close>

definition call_result :: "Method \<Rightarrow> go_value \<Rightarrow> go_error option \<Rightarrow> reflect_value option \<Rightarrow> bool" where
  "call_result m v e out \<longleftrightarrow> (\<exists>err rv. runs m v err (rv_Val rv) \<and> e = map_option UserError err \<and> out = Some rv)"

definition serving :: "Server \<Rightarrow> Handler \<Rightarrow> MessageHeader \<times> go_value \<Rightarrow> bool" where
  "serving srv h msg \<longleftrightarrow> Error (fst msg) = [] \<and>
     (\<exists>s n m v u input output.
       asks srv (ServiceDotMethod (fst msg)) (snd msg) m v u \<and> expressible m v u \<and>
       find_method srv (Some s) (Some n) = Some m \<and> CreateOutput m = Ret output \<and>
       req_header (rh_request h) = fst msg \<and> req_service (rh_request h) = Some s \<and> req_method (rh_request h) = Some n \<and>
       req_input (rh_request h) = Some input \<and> rv_Val input = input_of m v \<and>
       (case rh_worker h of
          Calling \<Rightarrow> req_output (rh_request h) = Some output
        | CallDone e \<Rightarrow> call_result m v e (req_output (rh_request h))
        | Responding e \<Rightarrow> call_result m v e (req_output (rh_request h))
        | _ \<Rightarrow> True))"

lemma serving_main [simp]:
  "serving srv (h\<lparr>rh_sent := ms\<rparr>) msg = serving srv h msg"
  "serving srv (h\<lparr>rh_main := a\<rparr>) msg = serving srv h msg"
  by (simp_all add: serving_def cong: worker_pc.case_cong)

lemma serving_worker:
  "serving srv h msg \<Longrightarrow> rh_worker h = CallDone e \<Longrightarrow> serving srv (h\<lparr>rh_worker := Responding e\<rparr>) msg"
  "serving srv h msg \<Longrightarrow> w \<in> {ResponseDone, WorkerEnded} \<Longrightarrow> serving srv (h\<lparr>rh_worker := w\<rparr>) msg"
  unfolding serving_def by fastforce+

lemma CreateOutput_method [simp]: "CreateOutput (m\<lparr>callCounts := k\<rparr>) = CreateOutput m"
  by (simp add: CreateOutput_def)

lemma call_request_result:
  assumes "call_request srv r = (Ret (e, out), srv')" and "req_service r = Some s" and "req_method r = Some n"
    and "find_method srv (Some s) (Some n) = Some (m\<lparr>callCounts := k\<rparr>)"
    and "req_input r = Some input" and "rv_Val input = input_of m v" and "req_output r = Some output" and "CreateOutput m = Ret output"
  shows "call_result m v e (Some out)"
  using assms
  by (fastforce simp: call_request_def service_Call_def call_result_def runs_def Let_def
      split: option.splits prod.splits go.splits if_splits)

text \<open>What a handler adds to the log.\<close>

definition good_response :: "Server \<Rightarrow> Handler \<Rightarrow> MessageHeader \<times> go_value \<Rightarrow> MessageHeader \<times> go_value \<Rightarrow> bool" where
  "good_response srv h msg r \<longleftrightarrow> marshal (snd r) \<noteq> None \<and>
     (Error (fst r) = [] \<longrightarrow> SequenceNumber (fst r) = SequenceNumber (fst msg) \<and> rh_worker h \<noteq> Calling \<and>
        computed srv msg (snd r))"

lemma computed_expressible: "computed srv msg body \<Longrightarrow> marshal body \<noteq> None"
  by (fastforce simp: computed_def expressible_def)

lemma lib_error_text_not_empty [simp]: "lib_error_text e \<noteq> []"
  by (cases e) simp_all

lemma error_text_not_empty [simp]:
  "server_error_text (HandleTimeout s) \<noteq> []" "server_error_text (LibError e) \<noteq> []"
  "server_error_text (InvalidServiceMethod s) \<noteq> []" "server_error_text (ServiceMissing s) \<noteq> []"
  by (cases e; simp)+

lemma serving_handler:
  assumes "handler_step limit (h, sh) (h', sh')" and "serving srv h msg" and "keeps srv (sh_server sh)"
  shows "serving srv h' msg \<and> (rh_worker h \<noteq> Calling \<longrightarrow> rh_worker h' \<noteq> Calling) \<and>
    (sh_log sh' = sh_log sh \<or> (\<exists>r. sh_log sh' = sh_log sh @ [r] \<and> good_response srv h' msg r))"
proof -
  obtain s n m v u input outp where
    a: "asks srv (ServiceDotMethod (fst msg)) (snd msg) m v u" "expressible m v u" and
    m: "find_method srv (Some s) (Some n) = Some m" "CreateOutput m = Ret outp" and
    r: "req_header (rh_request h) = fst msg" "req_service (rh_request h) = Some s" "req_method (rh_request h) = Some n"
       "req_input (rh_request h) = Some input" "rv_Val input = input_of m v" and
    w: "case rh_worker h of
          Calling \<Rightarrow> req_output (rh_request h) = Some outp
        | CallDone e \<Rightarrow> call_result m v e (req_output (rh_request h))
        | Responding e \<Rightarrow> call_result m v e (req_output (rh_request h))
        | _ \<Rightarrow> True" and err: "Error (fst msg) = []"
    using assms(2) unfolding serving_def by blast
  from assms(1) show ?thesis
  proof (cases rule: handler_step.cases)
    case (call e out1 srv')
    obtain k where "find_method (sh_server sh) (Some s) (Some n) = Some (m\<lparr>callCounts := k\<rparr>)"
      using assms(3) m(1) unfolding keeps_def by blast
    from call_request_result[OF call(5) r(2,3) this r(4,5) _ m(2)] w call(4)
    have "call_result m v e (Some out1)" by simp
    then show ?thesis using call a m r err unfolding serving_def by auto
  next
    case (send e hdr body)
    obtain err0 rv where e: "runs m v err0 (rv_Val rv)" "e = map_option UserError err0" "req_output (rh_request h) = Some rv"
      using w send(4) by (auto simp: call_result_def)
    have "good_response srv h' msg (hdr, body)"
    proof (cases err0)
      case None
      then have "computed srv msg body" using a e send(5,6) by (auto simp: computed_def call_body_def)
      then show ?thesis
        using None e send r computed_expressible[of srv msg body] by (simp add: good_response_def call_header_def)
    next
      case (Some t)
      show ?thesis
        using Some a e send r by (auto simp: good_response_def call_header_def call_body_def computed_def)
    qed
    then show ?thesis using send serving_worker(2)[OF assms(2)] by (auto simp: respond_def)
  next
    case (send_time_out hdr)
    then have "good_response srv h' msg (hdr, invalidRequest)" by (simp add: good_response_def timeout_header_def)
    moreover have "serving srv h' msg"
      using assms(2) send_time_out(1) by simp
    ultimately show ?thesis using send_time_out by (auto simp: respond_def)
  qed (use assms(2) in \<open>simp_all add: serving_worker\<close>)
qed

subsection \<open>The loop and the stream of requests\<close>

lemma turn_empty:
  assumes "incoming jc = []"
  shows "\<exists>e jc'. serve_turn srv jc = (Stopped e, jc')"
  using decode_header_end[OF assms, of empty_header]
  by (auto simp: serve_turn_def read_request_def read_header_def)

lemma turn_rejected:
  assumes "serve_turn srv jc = (Rejected h, jc')"
  shows "Error h \<noteq> []"
proof -
  have "search_service srv n = (s, m, Some e) \<Longrightarrow> server_error_text e \<noteq> []" for n s m e
    by (cases rule: search_cases[of n srv]) auto
  then show ?thesis
    using assms by (auto simp: serve_turn_def read_request_def Let_def
        split: prod.splits go.splits option.splits if_splits)
qed

lemma turn_rejected_header:
  assumes "serve_turn srv jc = (Rejected h, jc')"
  shows "\<exists>h0 jc1. jc_DecodeMessageHeader jc empty_header = ((None, h0), jc1) \<and> SequenceNumber h = SequenceNumber h0"
  using assms by (auto simp: serve_turn_def read_request_def read_header_def Let_def
      split: prod.splits go.splits option.splits if_splits)

lemma turn_accepted:
  assumes "serve_turn srv jc = (Accepted r, jc')"
  shows "Suc 0 < length (incoming jc)"
proof -
  obtain h jc1 b b' where h: "jc_DecodeMessageHeader jc empty_header = ((None, h), jc1)"
    and b: "jc_DecodeMessageBody jc1 b = ((None, b'), jc')"
    using assms by (auto simp: serve_turn_def read_request_def read_header_def Let_def
        split: prod.splits go.splits option.splits if_splits)
  show ?thesis using decoded_header[OF h] decoded_body[OF b] by auto
qed

lemma same_method [simp]:
  "well_formed (m\<lparr>callCounts := k\<rparr>) = well_formed m" "input_elem (m\<lparr>callCounts := k\<rparr>) = input_elem m"
  "input_of (m\<lparr>callCounts := k\<rparr>) = input_of m" "CreateInput (m\<lparr>callCounts := k\<rparr>) = CreateInput m"
  by (simp_all add: well_formed_def input_elem_def input_of_def CreateInput_def fun_eq_iff
      cong: go_type.case_cong go_kind.case_cong)

text \<open>A good request at the front of the stream is accepted, whatever the counters are by now.\<close>

lemma turn_good:
  assumes good: "good_request srv msg" and k: "keeps srv srv'" and op: "conn_open (connection jc)"
    and inc: "incoming jc = header_json (fst msg) # the (marshal (snd msg)) # w"
  shows "\<exists>r jc'. serve_turn srv' jc = (Accepted r, jc') \<and> incoming jc' = w \<and> serving srv (new_handler r) msg"
proof -
  obtain m v u where a: "asks srv (ServiceDotMethod (fst msg)) (snd msg) m v u" "expressible m v u" "Error (fst msg) = []"
    using good by (auto simp: good_request_def)
  then obtain s n where sn: "search_service srv (ServiceDotMethod (fst msg)) = (Some s, Some n, None)"
    "find_method srv (Some s) (Some n) = Some m" by (auto simp: asks_def)
  obtain c where m': "find_method srv' (Some s) (Some n) = Some (m\<lparr>callCounts := c\<rparr>)"
    using k sn(2) unfolding keeps_def by blast
  have v: "typed (input_elem m) v" "type_ok (input_elem m)" "sendable v" "marshal v = Some (the (marshal (snd msg)))"
    "well_formed m" "type_Elem (OutputType m) = Ret u"
    using a(1) by (auto simp: asks_def)
  obtain input where input: "CreateInput m = Ret input"
    "decode_target input = \<lparr>rv_Type = TPtr (input_elem m), rv_Val = VPtr (zero_value (input_elem m))\<rparr>"
    "\<And>v. rv_Val (decoded_input input (Some \<lparr>rv_Type = TPtr (input_elem m), rv_Val = VPtr v\<rparr>)) = input_of m v"
    using input_created[OF v(5)] by blast
  have "\<exists>outp. CreateOutput m = Ret outp" using v(6) by (simp add: CreateOutput_def Let_def)
  then obtain outp where outp: "CreateOutput m = Ret outp" by blast
  from serve_turn_accepts[OF op inc good_request_header[OF good] keeps_search[OF k sn] m' _ _ input(2) unmarshal_marshal[OF v(1-4)]]
  obtain jc' where "serve_turn srv' jc = (Accepted \<lparr>req_header = fst msg, req_service = Some s, req_method = Some n,
         req_input = Some (decoded_input input (Some \<lparr>rv_Type = TPtr (input_elem m), rv_Val = VPtr v\<rparr>)),
         req_output = Some outp\<rparr>, jc')" "incoming jc' = w"
    using input(1) outp by auto
  moreover have "serving srv (new_handler \<lparr>req_header = fst msg, req_service = Some s, req_method = Some n,
         req_input = Some (decoded_input input (Some \<lparr>rv_Type = TPtr (input_elem m), rv_Val = VPtr v\<rparr>)),
         req_output = Some outp\<rparr>) msg"
    unfolding serving_def using a sn(2) outp input(3) by (fastforce simp: new_handler_def)
  ultimately show ?thesis by blast
qed

text \<open>
  The handlers are those of the requests \<open>begun\<close>; the requests \<open>todo\<close> are still in the stream, of which
  \<open>rest\<close> has not arrived. Once the connection has been cut, what is left may end inside a request;
  until then the loop reads. What a handler has sent is in the log, and the log has responses to
  requests only.
\<close>

definition answered :: "Server \<Rightarrow> Handler list \<Rightarrow> (MessageHeader \<times> go_value) list \<Rightarrow> MessageHeader \<times> go_value \<Rightarrow> bool" where
  "answered srv hs begun r \<longleftrightarrow> marshal (snd r) \<noteq> None \<and>
     (Error (fst r) = [] \<longrightarrow> (\<exists>p < length begun. good_response srv (hs ! p) (begun ! p) r))"

definition logged :: "Serving \<Rightarrow> bool" where
  "logged c \<longleftrightarrow> (\<forall>h \<in> set (sv_handlers c). set (rh_sent h) \<subseteq> set (sh_log (sv_shared c)))"

definition numbered :: "(MessageHeader \<times> go_value) list \<Rightarrow> (MessageHeader \<times> go_value) list \<Rightarrow> bool" where
  "numbered msgs log \<longleftrightarrow> (\<forall>r \<in> set log. \<exists>msg \<in> set msgs. SequenceNumber (fst r) = SequenceNumber (fst msg))"

lemma numbered_simps [simp]:
  "numbered msgs []" "numbered msgs (log @ log') \<longleftrightarrow> numbered msgs log \<and> numbered msgs log'"
  "numbered msgs [r] \<longleftrightarrow> (\<exists>msg \<in> set msgs. SequenceNumber (fst r) = SequenceNumber (fst msg))"
  by (auto simp: numbered_def)

lemma numbered_more: "numbered msgs log \<Longrightarrow> numbered (msgs @ ms) log"
  by (auto simp: numbered_def)

definition conn_inv :: "Server \<Rightarrow> (MessageHeader \<times> go_value) list \<Rightarrow> json list \<Rightarrow> bool \<Rightarrow> Serving \<Rightarrow> bool" where
  "conn_inv srv msgs rest lost c \<longleftrightarrow> (\<exists>begun todo. msgs = begun @ todo \<and>
     list_all2 (serving srv) (sv_handlers c) begun \<and>
     list_all (answered srv (sv_handlers c) begun) (sh_log (sv_shared c)) \<and>
     (sv_pc c = Reading \<and> sh_panic (sv_shared c) = None \<longrightarrow>
        incoming (sh_coder (sv_shared c)) @ rest = frames todo \<or> lost \<and> incoming (sh_coder (sv_shared c)) = [])) \<and>
     (lost \<or> sv_pc c = Reading) \<and> logged c \<and> numbered msgs (sh_log (sv_shared c))"

lemma conn_invI:
  assumes "msgs = begun @ todo" and "list_all2 (serving srv) (sv_handlers c) begun"
    and "list_all (answered srv (sv_handlers c) begun) (sh_log (sv_shared c))"
    and "sv_pc c = Reading \<Longrightarrow> sh_panic (sv_shared c) = None \<Longrightarrow>
        incoming (sh_coder (sv_shared c)) @ rest = frames todo \<or> lost \<and> incoming (sh_coder (sv_shared c)) = []"
    and "lost \<or> sv_pc c = Reading" and "logged c" and "numbered msgs (sh_log (sv_shared c))"
  shows "conn_inv srv msgs rest lost c"
  unfolding conn_inv_def
  by (intro conjI, rule exI[of _ begun], rule exI[of _ todo]) (use assms in simp_all)

lemma good_response_later:
  "good_response srv h msg r \<Longrightarrow> (rh_worker h \<noteq> Calling \<longrightarrow> rh_worker h' \<noteq> Calling) \<Longrightarrow> good_response srv h' msg r"
  by (auto simp: good_response_def)

lemma answered_later:
  assumes "answered srv hs begun r" and "length begun \<le> length begun'"
    and "\<And>p. p < length begun \<Longrightarrow> begun' ! p = begun ! p \<and> (rh_worker (hs ! p) \<noteq> Calling \<longrightarrow> rh_worker (hs' ! p) \<noteq> Calling)"
  shows "answered srv hs' begun' r"
  unfolding answered_def
proof (intro conjI impI)
  show "marshal (snd r) \<noteq> None" using assms(1) by (simp add: answered_def)
  assume "Error (fst r) = []"
  then obtain p where p: "p < length begun" "good_response srv (hs ! p) (begun ! p) r"
    using assms(1) by (auto simp: answered_def)
  then have "good_response srv (hs' ! p) (begun' ! p) r" using assms(3)[OF p(1)] good_response_later by metis
  then show "\<exists>p < length begun'. good_response srv (hs' ! p) (begun' ! p) r" using p(1) assms(2) by (meson less_le_trans)
qed

lemma all_answered_later:
  assumes "list_all (answered srv hs begun) log" and "length begun \<le> length begun'"
    and "\<And>p. p < length begun \<Longrightarrow> begun' ! p = begun ! p \<and> (rh_worker (hs ! p) \<noteq> Calling \<longrightarrow> rh_worker (hs' ! p) \<noteq> Calling)"
  shows "list_all (answered srv hs' begun') log"
  using assms(1) answered_later[OF _ assms(2,3)] unfolding list_all_iff by blast

lemma conn_inv_same:
  assumes "conn_inv srv msgs rest lost c" and "sv_handlers c' = sv_handlers c" and "sh_log (sv_shared c') = sh_log (sv_shared c)"
    and "sv_pc c' = Reading \<and> sh_panic (sv_shared c') = None \<Longrightarrow> sv_pc c = Reading \<and> sh_panic (sv_shared c) = None \<and>
      incoming (sh_coder (sv_shared c')) = incoming (sh_coder (sv_shared c))"
    and "lost \<or> sv_pc c' = Reading"
  shows "conn_inv srv msgs rest lost c'"
  using assms unfolding conn_inv_def logged_def by fastforce

lemma conn_inv_more:
  assumes "conn_inv srv msgs rest lost c"
  shows "conn_inv srv (msgs @ ms) (rest @ frames ms) lost c"
proof -
  obtain begun todo where o: "msgs = begun @ todo" "list_all2 (serving srv) (sv_handlers c) begun"
    "list_all (answered srv (sv_handlers c) begun) (sh_log (sv_shared c))"
    "sv_pc c = Reading \<and> sh_panic (sv_shared c) = None \<longrightarrow>
        incoming (sh_coder (sv_shared c)) @ rest = frames todo \<or> lost \<and> incoming (sh_coder (sv_shared c)) = []"
    "lost \<or> sv_pc c = Reading" "logged c" "numbered msgs (sh_log (sv_shared c))"
    using assms unfolding conn_inv_def by blast
  then have "sv_pc c = Reading \<and> sh_panic (sv_shared c) = None \<longrightarrow>
        incoming (sh_coder (sv_shared c)) @ rest @ frames ms = frames (todo @ ms) \<or> lost \<and> incoming (sh_coder (sv_shared c)) = []"
    by (metis append_assoc frames_append)
  then show ?thesis
    using o(1-3,5-7) numbered_more[OF o(7)] by (intro conn_invI[where begun = begun and todo = "todo @ ms"]) auto
qed

lemma conn_inv_turn:
  assumes inv: "conn_inv srv msgs rest lost c" and good: "list_all (good_request srv) msgs"
    and k: "keeps srv (sh_server (sv_shared c))" and op: "conn_open (connection (sh_coder (sv_shared c)))"
    and pc: "sv_pc c = Reading" "sh_panic (sv_shared c) = None"
    and ready: "Suc 0 < length (incoming (sh_coder (sv_shared c))) \<or> lost"
  shows "conn_inv srv msgs rest lost (loop_turn c)"
proof -
  let ?jc = "sh_coder (sv_shared c)" and ?srv = "sh_server (sv_shared c)"
  obtain begun todo where o: "msgs = begun @ todo" "list_all2 (serving srv) (sv_handlers c) begun"
    "list_all (answered srv (sv_handlers c) begun) (sh_log (sv_shared c))"
    and inc: "incoming ?jc @ rest = frames todo \<or> lost \<and> incoming ?jc = []"
    and l: "logged c" "numbered msgs (sh_log (sv_shared c))"
    using inv pc unfolding conn_inv_def by blast
  show ?thesis
  proof (cases "Suc 0 < length (incoming ?jc)")
    case True
    with inc have inc: "incoming ?jc @ rest = frames todo" by auto
    then obtain msg todo' where todo: "todo = msg # todo'" using True by (cases todo) auto
    then obtain w where w: "incoming ?jc = header_json (fst msg) # the (marshal (snd msg)) # w" "w @ rest = frames todo'"
      using inc True by (cases "incoming ?jc"; cases "tl (incoming ?jc)") auto
    have "good_request srv msg" using good o(1) todo by simp
    from turn_good[OF this k op w(1)] obtain r jc' where
      t: "serve_turn ?srv ?jc = (Accepted r, jc')" "incoming jc' = w" "serving srv (new_handler r) msg" by blast
    have e: "loop_turn c = c\<lparr>sv_handlers := sv_handlers c @ [new_handler r],
         sv_shared := (sv_shared c)\<lparr>sh_coder := jc', sh_wait := sh_wait (sv_shared c) + 1\<rparr>\<rparr>"
      using t(1) by (simp add: loop_turn_def Let_def)
    have len: "length (sv_handlers c) = length begun" using o(2) by (rule list_all2_lengthD)
    have "list_all (answered srv (sv_handlers c @ [new_handler r]) (begun @ [msg])) (sh_log (sv_shared c))"
      by (rule all_answered_later[OF o(3)]) (use len in \<open>simp_all add: nth_append\<close>)
    moreover have "list_all2 (serving srv) (sv_handlers c @ [new_handler r]) (begun @ [msg])"
      using o(2) t(3) by (simp add: list_all2_appendI)
    ultimately show ?thesis
      unfolding e using o(1) todo t(2) w(2) l pc
      by (intro conn_invI[where begun = "begun @ [msg]" and todo = todo']) (simp_all add: logged_def new_handler_def)
  next
    case False
    then have lost: "lost" using ready by blast
    have no: "serve_turn ?srv ?jc \<noteq> (Accepted r, jc)" for r jc using turn_accepted[of ?srv ?jc r jc] False by blast
    show ?thesis
    proof (cases rule: loop_turn_cases[of c])
      case (rejected h jc)
      have "length (incoming jc) < length (incoming ?jc)"
        by (rule serve_turn_shrinks[OF rejected(1)]) simp
      then have e: "incoming jc = []" "incoming ?jc \<noteq> []" using False by (cases "incoming jc"; auto)+
      then have "incoming ?jc @ rest = frames todo" using inc by blast
      then obtain msg w where m: "msg \<in> set msgs" "incoming ?jc = header_json (fst msg) # w"
        using e(2) o(1) by (cases todo; cases "incoming ?jc") auto
      obtain h0 jc1 where h0: "jc_DecodeMessageHeader ?jc empty_header = ((None, h0), jc1)" "SequenceNumber h = SequenceNumber h0"
        using turn_rejected_header[OF rejected(1)] by blast
      have "received_header (fst msg) = h0" using decoded_header[OF h0(1)] m(2) by auto
      then have "numbered msgs [(h, invalidRequest)]" using m(1) h0(2) by auto
      moreover have "answered srv (sv_handlers c) begun (h, invalidRequest)"
        using turn_rejected[OF rejected(1)] by (simp add: answered_def)
      ultimately show ?thesis
        unfolding rejected(2) using o l e(1) lost
        by (intro conn_invI[where begun = begun and todo = todo]) (auto simp: logged_def)
    qed (use o l no lost in \<open>auto simp: logged_def intro: conn_invI\<close>)
  qed
qed

lemma handler_step_numbers:
  "handler_step limit (h, sh) (h', sh') \<Longrightarrow> sh_log sh' = sh_log sh \<or>
   (\<exists>r. sh_log sh' = sh_log sh @ [r] \<and> SequenceNumber (fst r) = SequenceNumber (req_header (rh_request h)))"
  by (erule handler_stepE) (auto simp: respond_def call_header_def timeout_header_def split: option.split)

lemma conn_inv_handler:
  assumes inv: "conn_inv srv msgs rest lost c" and k: "keeps srv (sh_server (sv_shared c))"
    and i: "i < length (sv_handlers c)" and h: "handler_step limit (sv_handlers c ! i, sv_shared c) (h', sh')"
  shows "conn_inv srv msgs rest lost (c\<lparr>sv_handlers := (sv_handlers c)[i := h'], sv_shared := sh'\<rparr>)"
proof -
  obtain begun todo where o: "msgs = begun @ todo" "list_all2 (serving srv) (sv_handlers c) begun"
    "list_all (answered srv (sv_handlers c) begun) (sh_log (sv_shared c))"
    and inc: "sv_pc c = Reading \<and> sh_panic (sv_shared c) = None \<longrightarrow>
        incoming (sh_coder (sv_shared c)) @ rest = frames todo \<or> lost \<and> incoming (sh_coder (sv_shared c)) = []"
    and l: "lost \<or> sv_pc c = Reading" "logged c" "numbered msgs (sh_log (sv_shared c))"
    using inv unfolding conn_inv_def by blast
  have len: "length (sv_handlers c) = length begun" using o(2) by (rule list_all2_lengthD)
  have "serving srv (sv_handlers c ! i) (begun ! i)" using o(2) i by (rule list_all2_nthD)
  from serving_handler[OF h this k]
  have s: "serving srv h' (begun ! i)" "rh_worker (sv_handlers c ! i) \<noteq> Calling \<longrightarrow> rh_worker h' \<noteq> Calling"
    "sh_log sh' = sh_log (sv_shared c) \<or> (\<exists>r. sh_log sh' = sh_log (sv_shared c) @ [r] \<and> good_response srv h' (begun ! i) r)"
    by blast+
  let ?hs = "(sv_handlers c)[i := h']"
  have old: "list_all (answered srv ?hs begun) (sh_log (sv_shared c))"
    by (rule all_answered_later[OF o(3)]) (use s(2) i in \<open>simp_all add: nth_list_update\<close>)
  have "good_response srv h' (begun ! i) r \<Longrightarrow> answered srv ?hs begun r" for r
    using i len by (auto simp: answered_def good_response_def)
  with old s(3) have new: "list_all (answered srv ?hs begun) (sh_log sh')" by auto
  have "list_all2 (serving srv) ?hs begun"
    using list_all2_update_cong[OF o(2) s(1), of i] by simp
  moreover have "incoming (sh_coder sh') = incoming (sh_coder (sv_shared c))" using handler_step_incoming[OF h] .
  moreover have "sh_panic (sv_shared c) = None" using handler_rank_step[OF h] by blast
  moreover have "logged (c\<lparr>sv_handlers := ?hs, sv_shared := sh'\<rparr>)"
  proof -
    have "set (rh_sent (sv_handlers c ! i)) \<subseteq> set (sh_log (sv_shared c))" using l(2) i by (simp add: logged_def)
    then have m: "set (rh_sent h') \<subseteq> set (sh_log sh')" "set (sh_log (sv_shared c)) \<subseteq> set (sh_log sh')"
      using handler_step_log[OF h] by auto
    have "set (rh_sent g) \<subseteq> set (sh_log sh')" if "g \<in> insert h' (set (sv_handlers c))" for g
      using that l(2) m by (auto simp: logged_def)
    then show ?thesis
      using set_update_subset_insert[of "sv_handlers c" i h'] unfolding logged_def by simp blast
  qed
  moreover have "numbered msgs (sh_log sh')"
  proof -
    have "fst (begun ! i) = req_header (rh_request (sv_handlers c ! i))" "begun ! i \<in> set msgs"
      using list_all2_nthD[OF o(2) i] o(1) i len by (auto simp: serving_def)
    then show ?thesis using handler_step_numbers[OF h] l(3) by (auto intro!: bexI[of _ "begun ! i"])
  qed
  ultimately show ?thesis
    using o(1) new inc l(1) by (intro conn_invI[where begun = begun and todo = todo]) simp_all
qed

end
