(* ===== verification/System.thy ===== *)
theory System
  imports Server_Wire
begin

text \<open>
  A client and a server process that are connected: the goroutines of the client, those of all
  connections of the server, and the network between them, which delivers what has been written in
  pieces of any size and may lose the connection at any time. One connection, the \<open>k\<close>-th of the
  process, is the client's; the others are arbitrary.
\<close>

subsection \<open>State and steps\<close>

text \<open>
  \<open>sys_up\<close> and \<open>sys_down\<close> count the values that have been delivered to the server and to the client.
\<close>

record System =
  sys_calls :: Calls
  sys_process :: Process
  sys_up :: nat
  sys_down :: nat
  sys_lost :: bool

abbreviation sys_client :: "System \<Rightarrow> Client" where
  "sys_client s \<equiv> cc_client (sys_calls s)"

abbreviation conn_at :: "nat \<Rightarrow> Process \<Rightarrow> Serving" where
  "conn_at k p \<equiv> snd (pr_conns p ! k)"

abbreviation conn_coder :: "Serving \<Rightarrow> JsonCoder" where
  "conn_coder c \<equiv> sh_coder (sv_shared c)"

definition deliver_request :: "nat \<Rightarrow> json list \<Rightarrow> Process \<Rightarrow> Process" where
  "deliver_request k js p = (case pr_conns p ! k of (limit, c) \<Rightarrow>
     p\<lparr>pr_conns := (pr_conns p)[k := (limit, c\<lparr>sv_shared := (sv_shared c)\<lparr>sh_coder := deliver js (conn_coder c)\<rparr>\<rparr>)]\<rparr>)"

definition deliver_response :: "json list \<Rightarrow> Calls \<Rightarrow> Calls" where
  "deliver_response js cs = cs\<lparr>cc_client := (cc_client cs)\<lparr>cl_coder := deliver js (cl_coder (cc_client cs))\<rparr>\<rparr>"

text \<open>
  The new calls of a step ask for registered methods, with typed inputs, and pass a new value for
  the output.
\<close>

definition good_call :: "Server \<Rightarrow> Call \<Rightarrow> bool" where
  "good_call srv call \<longleftrightarrow> (\<exists>m v u. asks srv (call_ServiceDotMethod call) (call_Inputs call) m v u \<and>
     expressible m v u \<and> call_Output call = Some (reflect_New u))"

definition well_asked :: "Server \<Rightarrow> Calls \<Rightarrow> Calls \<Rightarrow> bool" where
  "well_asked srv cs cs' \<longleftrightarrow>
     (\<forall>i. length (heap (cc_client cs)) \<le> i \<and> i < length (heap (cc_client cs')) \<longrightarrow> good_call srv (heap (cc_client cs') ! i))"

text \<open>
  A read waits until there is something to read: the receiver for the next value, the loop of the
  server for a header and a body (it reads both in one step). When the connection has been lost a
  read gets what has been delivered, and then an error.
\<close>

definition reads_response :: "Calls \<Rightarrow> Calls \<Rightarrow> bool" where
  "reads_response cs cs' \<longleftrightarrow> cc_receiver cs' \<noteq> cc_receiver cs \<and>
     (cc_receiver cs = RHeader \<or> (\<exists>h call. cc_receiver cs = RBody h call))"

definition reads_request :: "nat \<Rightarrow> Process \<Rightarrow> Process \<Rightarrow> bool" where
  "reads_request k p p' \<longleftrightarrow> sv_pc (conn_at k p) = Reading \<and>
     (sv_pc (conn_at k p') \<noteq> Reading \<or> incoming (conn_coder (conn_at k p')) \<noteq> incoming (conn_coder (conn_at k p)))"

inductive system_step :: "nat \<Rightarrow> Server \<Rightarrow> System \<Rightarrow> System \<Rightarrow> bool" for k srv where
  client_moves: "calls_step (sys_calls s) cs \<Longrightarrow> well_asked srv (sys_calls s) cs \<Longrightarrow>
    (reads_response (sys_calls s) cs \<longrightarrow>
       incoming (cl_coder (sys_client s)) \<noteq> [] \<or> sys_lost s \<or> \<not> conn_open (connection (cl_coder (sys_client s)))) \<Longrightarrow>
    system_step k srv s (s\<lparr>sys_calls := cs\<rparr>)"
| server_moves: "process_step (sys_process s) p \<Longrightarrow>
    (reads_request k (sys_process s) p \<longrightarrow>
       Suc 0 < length (incoming (conn_coder (conn_at k (sys_process s)))) \<or> sys_lost s) \<Longrightarrow>
    system_step k srv s (s\<lparr>sys_process := p\<rparr>)"
| to_server: "\<not> sys_lost s \<Longrightarrow> js = take n (drop (sys_up s) (sent (cl_coder (sys_client s)))) \<Longrightarrow>
    system_step k srv s (s\<lparr>sys_process := deliver_request k js (sys_process s), sys_up := sys_up s + length js\<rparr>)"
| to_client: "\<not> sys_lost s \<Longrightarrow> js = take n (drop (sys_down s) (sent (conn_coder (conn_at k (sys_process s))))) \<Longrightarrow>
    system_step k srv s (s\<lparr>sys_calls := deliver_response js (sys_calls s), sys_down := sys_down s + length js\<rparr>)"
| connection_lost: "system_step k srv s (s\<lparr>sys_lost := True\<rparr>)"

text \<open>
  The start: a client that has just been created, and a process at the moment when it has accepted the
  client's connection; nothing but the handshake has been sent.
\<close>

definition system_started :: "nat \<Rightarrow> Server \<Rightarrow> System \<Rightarrow> bool" where
  "system_started k srv s \<longleftrightarrow> \<not> sys_lost s \<and>
     (\<exists>jc info addr. sys_calls s = calls_start (new_Client jc info addr) \<and> healthy jc \<and> incoming jc = [] \<and>
        sys_up s = length (sent jc)) \<and>
     process_reach (sys_process s) \<and> pr_server (sys_process s) = srv \<and> k < length (pr_conns (sys_process s)) \<and>
     (\<exists>limit jc. pr_conns (sys_process s) ! k = (limit, serve_start srv jc) \<and> healthy jc \<and> incoming jc = [] \<and>
        sys_down s = length (sent jc))"

abbreviation system_reach :: "nat \<Rightarrow> Server \<Rightarrow> System \<Rightarrow> bool" where
  "system_reach k srv \<equiv> reach (system_started k srv) (system_step k srv)"

subsection \<open>The invariant\<close>

definition call_ok :: "Server \<Rightarrow> Call \<Rightarrow> bool" where
  "call_ok srv call \<longleftrightarrow> (\<exists>m v u. asks srv (call_ServiceDotMethod call) (call_Inputs call) m v u \<and>
     expressible m v u \<and> map_option rv_Type (call_Output call) = Some (TPtr u))"

definition linked :: "Server \<Rightarrow> json list \<Rightarrow> nat list \<Rightarrow> Serving \<Rightarrow> System \<Rightarrow> bool" where
  "linked srv start is c s \<longleftrightarrow>
     written start is (sys_calls s) \<and>
     conn_inv srv (map (request_of (sys_client s)) is) (drop (sys_up s) (sent (cl_coder (sys_client s)))) (sys_lost s) c \<and>
     receiving (sh_log (sv_shared c)) (drop (sys_down s) (sent (conn_coder c))) (sys_calls s) \<and>
     results (sh_log (sv_shared c)) (sys_calls s) \<and>
     sys_up s \<le> length (sent (cl_coder (sys_client s))) \<and> sys_down s \<le> length (sent (conn_coder c))"

definition system_inv :: "nat \<Rightarrow> Server \<Rightarrow> System \<Rightarrow> bool" where
  "system_inv k srv s \<longleftrightarrow>
     calls_inv (sys_calls s) \<and> matched (sys_calls s) \<and>
     (\<forall>i < length (heap (sys_client s)). call_ok srv (heap (sys_client s) ! i)) \<and>
     process_inv (sys_process s) \<and> keeps srv (pr_server (sys_process s)) \<and> k < length (pr_conns (sys_process s)) \<and>
     (\<exists>limit c start start' is. pr_conns (sys_process s) ! k = (limit, c) \<and> wired limit start' c \<and> linked srv start is c s)"

subsection \<open>Client steps\<close>

lemma call_ok_given: "given x = given y \<Longrightarrow> call_ok srv x = call_ok srv y"
  by (simp add: given_def call_ok_def)

lemma good_call_ok: "good_call srv call \<Longrightarrow> call_ok srv call \<and> fresh_output call"
  unfolding good_call_def call_ok_def fresh_output_def by (fastforce simp: reflect_New_def)

lemma call_ok_request: "call_ok srv (heap c ! i) \<Longrightarrow> good_request srv (request_of c i)"
  unfolding call_ok_def good_request_def request_of_def by fastforce

lemma calls_ok_step:
  assumes "calls_step cs cs'" and "well_asked srv cs cs'"
    and "\<forall>i < length (heap (cc_client cs)). call_ok srv (heap (cc_client cs) ! i)" and "i < length (heap (cc_client cs'))"
  shows "call_ok srv (heap (cc_client cs') ! i)"
proof (cases "i < length (heap (cc_client cs))")
  case True
  then show ?thesis using call_ok_given[OF calls_step_given[OF assms(1) True]] assms(3) by simp
qed (use assms(2,4) good_call_ok in \<open>auto simp: well_asked_def\<close>)

lemma linked_client:
  assumes l: "linked srv start is c s" and st: "calls_step (sys_calls s) cs" and inv: "calls_inv (sys_calls s)"
    and m: "matched (sys_calls s)" and w: "well_asked srv (sys_calls s) cs"
    and ok: "\<forall>i < length (heap (sys_client s)). call_ok srv (heap (sys_client s) ! i)"
  shows "\<exists>js. length js \<le> 1 \<and> linked srv start (is @ js) c (s\<lparr>sys_calls := cs\<rparr>)"
proof -
  let ?log = "sh_log (sv_shared c)" and ?rest = "drop (sys_down s) (sent (conn_coder c))"
  have l1: "written start is (sys_calls s)" "receiving ?log ?rest (sys_calls s)" "results ?log (sys_calls s)"
    "sys_up s \<le> length (sent (cl_coder (sys_client s)))" "sys_down s \<le> length (sent (conn_coder c))"
    "conn_inv srv (map (request_of (sys_client s)) is) (drop (sys_up s) (sent (cl_coder (sys_client s)))) (sys_lost s) c"
    using l by (simp_all add: linked_def)
  have "\<forall>i < length (heap (sys_client s)). marshal (call_Inputs (heap (sys_client s) ! i)) \<noteq> None"
    using ok by (auto simp: call_ok_def asks_def)
  from written_step[OF st inv l1(1) this] obtain js where js: "written start (is @ js) cs" "length js \<le> 1" by blast
  have old: "map (request_of (cc_client cs)) is = map (request_of (sys_client s)) is"
    using l1(1) request_of_same[OF st inv] by (auto simp: written_def)
  let ?ms = "map (request_of (cc_client cs)) js"
  have "sent (cl_coder (cc_client cs)) = sent (cl_coder (sys_client s)) @ frames ?ms"
    using js l1(1) by (simp add: written_def old del: map_eq_conv)
  then have d: "drop (sys_up s) (sent (cl_coder (cc_client cs))) = drop (sys_up s) (sent (cl_coder (sys_client s))) @ frames ?ms"
    "sys_up s \<le> length (sent (cl_coder (cc_client cs)))"
    using l1(4) by simp_all
  have "fresh_output (heap (cc_client cs) ! i)"
    if "length (heap (sys_client s)) \<le> i" "i < length (heap (cc_client cs))" for i
    using w that good_call_ok unfolding well_asked_def by blast
  from results_step[OF st inv m l1(3,2) this] have "results ?log cs" .
  moreover have "receiving ?log ?rest cs"
  proof (rule receiving_step[OF st l1(2)], rule ballI)
    fix m assume "m \<in> set ?log"
    then obtain i where "i \<in> set is" "SequenceNumber (fst m) = seqno (sys_client s) i"
      using l1(6) by (auto simp: conn_inv_def numbered_def request_of_def)
    moreover from this have "i \<in> registered (sys_client s)" using l1(1) by (simp add: written_def)
    moreover have "\<forall>i \<in> registered (sys_client s). seqno (sys_client s) i < sequenceNumber (sys_client s)"
      using inv by (simp add: calls_inv_def table_inv_def)
    ultimately show "SequenceNumber (fst m) \<noteq> sequenceNumber (sys_client s)" by fastforce
  qed
  ultimately have "linked srv start (is @ js) c (s\<lparr>sys_calls := cs\<rparr>)"
    using js(1) conn_inv_more[OF l1(6), of ?ms] d l1(5) old by (simp add: linked_def del: map_eq_conv)
  then show ?thesis using js(2) by blast
qed

subsection \<open>Server steps\<close>

lemma serve_step_log: "serve_step limit c c' \<Longrightarrow> \<exists>ms. sh_log (sv_shared c') = sh_log (sv_shared c) @ ms"
proof (induction rule: serve_step.induct)
  case (turn s)
  show ?case by (cases rule: loop_turn_cases[of s]) simp_all
next
  case (handler i s h' sh')
  then show ?case using handler_step_log[OF handler(2)] by auto
qed (simp add: close_coder_def)

lemma conn_inv_encodable: "conn_inv srv msgs rest lost c \<Longrightarrow> encodable (sh_log (sv_shared c))"
  by (auto simp: conn_inv_def encodable_def list_all_iff answered_def)

lemma conn_inv_with_server [simp]: "conn_inv srv msgs rest lost (with_server srv' c) = conn_inv srv msgs rest lost c"
  by (simp add: conn_inv_def with_server_def logged_def)

lemma wired_with_server [simp]: "wired limit start (with_server srv c) = wired limit start c"
  by (simp add: wired_def wire_inv_def open_inv_def) (simp add: with_server_def)

lemma with_server_coder [simp]: "conn_coder (with_server srv c) = conn_coder c"
  by (simp add: with_server_def)

text \<open>A step of the connection; a turn only when the loop can read.\<close>

lemma conn_inv_step:
  assumes st: "serve_step limit c c'" and inv: "conn_inv srv msgs rest lost c" and good: "list_all (good_request srv) msgs"
    and k: "keeps srv (sh_server (sv_shared c))" and w: "wired limit start c"
    and ready: "sv_pc c = Reading \<and> (sv_pc c' \<noteq> Reading \<or> incoming (conn_coder c') \<noteq> incoming (conn_coder c)) \<Longrightarrow>
      Suc 0 < length (incoming (conn_coder c)) \<or> lost"
  shows "conn_inv srv msgs rest lost c'"
  using st
proof cases
  case turn
  show ?thesis
  proof (cases "sv_pc c' \<noteq> Reading \<or> incoming (conn_coder c') \<noteq> incoming (conn_coder c)")
    case True
    have "conn_open (connection (conn_coder c))" using w turn(3) by (simp add: wired_def open_inv_def)
    then show ?thesis
      using conn_inv_turn[OF inv good k _ turn(3,2)] ready turn(1,3) True by simp
  next
    case False
    then have "sh_panic (sv_shared c') \<noteq> None" using rank_turn[OF turn(3)] turn(1) 
      by (cases rule: loop_turn_cases[of c]) (auto dest: serve_turn_shrinks)
    moreover have "sv_handlers c' = sv_handlers c \<and> sh_log (sv_shared c') = sh_log (sv_shared c)"
      using calculation turn by (cases rule: loop_turn_cases[of c]) auto
    ultimately show ?thesis using False by (intro conn_inv_same[OF inv]) simp_all
  qed
next
  case (handler i h' sh')
  then show ?thesis using conn_inv_handler[OF inv k] by simp
next
  case close
  then have "lost" using inv by (simp add: conn_inv_def)
  then show ?thesis using close by (intro conn_inv_same[OF inv]) (simp_all add: close_coder_def)
qed

text \<open>What a step of the process does to one connection.\<close>

lemma process_step_at:
  assumes st: "process_step p p'" and k: "k < length (pr_conns p)" "pr_conns p ! k = (limit, c)" and inv: "process_inv p"
  shows "\<exists>c'. k < length (pr_conns p') \<and> pr_conns p' ! k = (limit, c') \<and> keeps (pr_server p) (pr_server p') \<and>
    (c' = c \<or> serve_step limit (with_server (pr_server p) c) c')"
  using st
proof cases
  case (pr_accept cn jc info)
  then show ?thesis using k keeps_refl by (simp add: nth_append)
next
  case (pr_conn j l d t)
  have "names_ok (pr_server p)" using inv pr_conn(2) by (simp add: process_inv_def)
  then have "keeps (pr_server p) (pr_server p')" using serve_step_keeps[OF pr_conn(5)] pr_conn(1) by simp
  then show ?thesis using pr_conn k by (cases "j = k") auto
next
  case (pr_register sv r srv)
  then show ?thesis using k register_keeps by simp
qed

lemma linked_server:
  assumes l: "linked srv start is c s" and w: "wired limit start' c" and k: "keeps srv srv'"
    and st: "serve_step limit (with_server srv' c) c'"
    and ok: "\<forall>i < length (heap (sys_client s)). call_ok srv (heap (sys_client s) ! i)"
    and ready: "sv_pc c = Reading \<and> (sv_pc c' \<noteq> Reading \<or> incoming (conn_coder c') \<noteq> incoming (conn_coder c)) \<Longrightarrow>
      Suc 0 < length (incoming (conn_coder c)) \<or> sys_lost s"
  shows "linked srv start is c' (s\<lparr>sys_process := p\<rparr>) \<and> wired limit start' c'"
proof -
  let ?msgs = "map (request_of (sys_client s)) is" and ?rest = "drop (sys_up s) (sent (cl_coder (sys_client s)))"
  let ?log = "sh_log (sv_shared c)" and ?down = "drop (sys_down s) (sent (conn_coder c))"
  have l1: "written start is (sys_calls s)" "receiving ?log ?down (sys_calls s)" "results ?log (sys_calls s)"
    "sys_down s \<le> length (sent (conn_coder c))" and ci: "conn_inv srv ?msgs ?rest (sys_lost s) c"
    using l by (simp_all add: linked_def)
  have w': "wired limit start' c'" using wire.invar_step[OF _ st] w by simp
  have "call_ok srv (heap (sys_client s) ! i)" if "i \<in> set is" for i
    using that l1(1) ok by (auto simp: written_def registered_def)
  then have good: "list_all (good_request srv) ?msgs"
    using call_ok_request by (auto simp: list_all_iff)
  have ci': "conn_inv srv ?msgs ?rest (sys_lost s) c'"
    by (rule conn_inv_step[OF st _ good, where start = start']) (use ci k w ready in simp_all)
  obtain ms where ms: "sh_log (sv_shared c') = ?log @ ms"
    using serve_step_log[OF st] by (auto simp: with_server_def)
  have "sent (conn_coder c') = start' @ frames (sh_log (sv_shared c'))" "sent (conn_coder c) = start' @ frames ?log"
    using w w' conn_inv_encodable[OF ci] conn_inv_encodable[OF ci'] by (simp_all add: wired_def wire_inv_def)
  then have "sent (conn_coder c') = sent (conn_coder c) @ frames ms" using ms by simp
  then have "drop (sys_down s) (sent (conn_coder c')) = ?down @ frames ms" "sys_down s \<le> length (sent (conn_coder c'))"
    using l1(4) by simp_all
  then show ?thesis
    using l ci' w' ms receiving_more[OF l1(2), of ms] results_more[OF l1(3), of ms] by (simp add: linked_def)
qed

subsection \<open>The network\<close>

lemma with_coder_simps [simp]:
  "serve_inv limit (c\<lparr>sv_shared := (sv_shared c)\<lparr>sh_coder := jc\<rparr>\<rparr>) = serve_inv limit c"
  "all_answerable srv (c\<lparr>sv_shared := (sv_shared c)\<lparr>sh_coder := jc\<rparr>\<rparr>) = all_answerable srv c"
  "ran_in s n (c\<lparr>sv_shared := (sv_shared c)\<lparr>sh_coder := jc\<rparr>\<rparr>) = ran_in s n c"
  by (simp_all add: serve_inv_def all_answerable_def ran_in_def)

lemma process_inv_deliver:
  assumes inv: "process_inv p" and k: "k < length (pr_conns p)" "pr_conns p ! k = (limit, c)"
  shows "process_inv (p\<lparr>pr_conns := (pr_conns p)[k := (limit, c\<lparr>sv_shared := (sv_shared c)\<lparr>sh_coder := jc\<rparr>\<rparr>)]\<rparr>)"
    (is "process_inv (p\<lparr>pr_conns := ?cs\<rparr>)")
proof -
  have m: "(limit, c) \<in> set (pr_conns p)" using k nth_mem by metis
  have set: "set ?cs \<subseteq> insert (limit, c\<lparr>sv_shared := (sv_shared c)\<lparr>sh_coder := jc\<rparr>\<rparr>) (set (pr_conns p))"
    by (rule set_update_subset_insert)
  have e: "executed (p\<lparr>pr_conns := ?cs\<rparr>) s n = executed p s n" for s n
    using executed_update[OF k, where srv = "pr_server p" and t = "c\<lparr>sv_shared := (sv_shared c)\<lparr>sh_coder := jc\<rparr>\<rparr>" and s = s and n = n]
    by simp
  have al: "pr_alive (p\<lparr>pr_conns := ?cs\<rparr>) \<Longrightarrow> pr_alive p"
  proof -
    assume a: "pr_alive (p\<lparr>pr_conns := ?cs\<rparr>)"
    have "sh_panic (sv_shared d) = None" if "j < length (pr_conns p)" "pr_conns p ! j = (l, d)" for j l d
    proof -
      have "?cs ! j \<in> set ?cs" using that(1) by (intro nth_mem) simp
      then show ?thesis using a that k by (cases "j = k") (auto simp: pr_alive_def)
    qed
    then show "pr_alive p" by (fastforce simp: pr_alive_def in_set_conv_nth)
  qed
  have all: "\<forall>(l, d) \<in> set ?cs. P l d"
    if P: "P limit (c\<lparr>sv_shared := (sv_shared c)\<lparr>sh_coder := jc\<rparr>\<rparr>) = P limit c" "\<forall>(l, d) \<in> set (pr_conns p). P l d" for P
  proof clarify
    fix l d assume "(l, d) \<in> set ?cs"
    then have "(l, d) = (limit, c\<lparr>sv_shared := (sv_shared c)\<lparr>sh_coder := jc\<rparr>\<rparr>) \<or> (l, d) \<in> set (pr_conns p)"
      using set by blast
    then show "P l d" using P m by auto
  qed
  show ?thesis
    using inv e al all[of serve_inv] all[of "\<lambda>l. all_answerable (pr_server p)"] by (simp add: process_inv_def)
qed

lemma conn_inv_deliver:
  "conn_inv srv msgs (js @ rest) False c \<Longrightarrow>
   conn_inv srv msgs rest False (c\<lparr>sv_shared := (sv_shared c)\<lparr>sh_coder := deliver js (conn_coder c)\<rparr>\<rparr>)"
  unfolding conn_inv_def logged_def by fastforce

lemma wired_deliver [simp]:
  "wired limit start (c\<lparr>sv_shared := (sv_shared c)\<lparr>sh_coder := deliver js (conn_coder c)\<rparr>\<rparr>) = wired limit start c"
  by (simp add: wired_def wire_inv_def open_inv_def)

lemma calls_deliver:
  "calls_inv cs \<Longrightarrow> calls_inv (deliver_response js cs)" "matched cs \<Longrightarrow> matched (deliver_response js cs)"
  "written start is cs \<Longrightarrow> written start is (deliver_response js cs)"
  "results log cs \<Longrightarrow> results log (deliver_response js cs)"
  "receiving log (js @ rest) cs \<Longrightarrow> receiving log rest (deliver_response js cs)"
proof -
  let ?c = "(cc_client cs)\<lparr>cl_coder := deliver js (cl_coder (cc_client cs))\<rparr>"
  have r: "registered ?c = registered (cc_client cs)" "request_of ?c = request_of (cc_client cs)"
    "pending ?c = pending (cc_client cs)" "taken_out ms ?c = taken_out ms (cc_client cs)" for ms
    by (simp_all add: registered_def request_of_def pending_def taken_out_def fun_eq_iff)
  show "calls_inv cs \<Longrightarrow> calls_inv (deliver_response js cs)"
    unfolding deliver_response_def by (rule calls_inv_frame) simp_all
  show "matched cs \<Longrightarrow> matched (deliver_response js cs)" by (simp add: matched_def deliver_response_def r)
  show "written start is cs \<Longrightarrow> written start is (deliver_response js cs)"
    by (simp add: written_def deliver_response_def r)
  show "results log cs \<Longrightarrow> results log (deliver_response js cs)"
    unfolding deliver_response_def by (rule results_frame) (simp_all add: owed_client)
  show "receiving log (js @ rest) cs \<Longrightarrow> receiving log rest (deliver_response js cs)"
    by (simp add: receiving_def deliver_response_def Let_def r(4) cong: receiver_pc.case_cong)
qed

lemma take_drop_more:
  assumes "n \<le> length xs" and "js = take m (drop n xs)"
  shows "drop n xs = js @ drop (n + length js) xs \<and> n + length js \<le> length xs"
proof -
  have "drop n xs = js @ drop (length js) (drop n xs)"
    using assms(2) by (metis append_eq_conv_conj append_take_drop_id)
  moreover have "length js \<le> length xs - n" using assms(2) by simp
  then have "n + length js \<le> length xs" using assms(1) by linarith
  ultimately show ?thesis by (simp add: add.commute)
qed

lemma linked_up:
  assumes "linked srv start is c s" and "\<not> sys_lost s" and "js = take n (drop (sys_up s) (sent (cl_coder (sys_client s))))"
  shows "linked srv start is (c\<lparr>sv_shared := (sv_shared c)\<lparr>sh_coder := deliver js (conn_coder c)\<rparr>\<rparr>)
    (s\<lparr>sys_process := p, sys_up := sys_up s + length js\<rparr>)"
  using assms take_drop_more[OF _ assms(3)] by (auto simp: linked_def intro: conn_inv_deliver)

lemma linked_down:
  assumes "linked srv start is c s" and "js = take n (drop (sys_down s) (sent (conn_coder c)))"
  shows "linked srv start is c (s\<lparr>sys_calls := deliver_response js (sys_calls s), sys_down := sys_down s + length js\<rparr>)"
proof -
  have "request_of (cc_client (deliver_response js (sys_calls s))) = request_of (sys_client s)"
    by (simp add: request_of_def deliver_response_def fun_eq_iff)
  moreover have "sent (cl_coder (cc_client (deliver_response js (sys_calls s)))) = sent (cl_coder (sys_client s))"
    by (simp add: deliver_response_def)
  ultimately show ?thesis
    using assms take_drop_more[OF _ assms(2)] by (auto simp: linked_def calls_deliver)
qed

lemma linked_lost: "linked srv start is c s \<Longrightarrow> linked srv start is c (s\<lparr>sys_lost := True\<rparr>)"
  by (auto simp: linked_def conn_inv_def)

subsection \<open>Every step keeps the invariant\<close>

lemma system_inv_started:
  assumes "system_started k srv s"
  shows "system_inv k srv s"
proof -
  obtain cj info addr limit jc where
    s: "sys_calls s = calls_start (new_Client cj info addr)" "healthy cj" "incoming cj = []" "sys_up s = length (sent cj)"
      "process_reach (sys_process s)" "pr_server (sys_process s) = srv" "k < length (pr_conns (sys_process s))"
      "pr_conns (sys_process s) ! k = (limit, serve_start srv jc)" "healthy jc" "incoming jc = []" "sys_down s = length (sent jc)"
    using assms unfolding system_started_def by blast
  have cs: "calls_started (sys_calls s)" using s(1) by (auto simp: calls_started_def)
  have "written (sent cj) [] (sys_calls s)"
    using s(1,2) by (simp add: written_def calls_start_def new_Client_def pending_def)
  moreover have "conn_inv srv [] [] (sys_lost s) (serve_start srv jc)"
    by (rule conn_invI[of _ "[]" "[]"]) (simp_all add: serve_start_def s(10) logged_def)
  moreover have "receiving [] [] (sys_calls s)" "results [] (sys_calls s)"
    using s(1,3) by (simp_all add: receiving_def results_def calls_start_def new_Client_def)
  ultimately have "linked srv (sent cj) [] (serve_start srv jc) s"
    using s(1,4,11) by (simp add: linked_def serve_start_def calls_start_def new_Client_def)
  moreover have "matched (sys_calls s)" using s(1) by (simp add: matched_def calls_start_def)
  moreover have "heap (sys_client s) = []" using s(1) by (simp add: calls_start_def new_Client_def)
  ultimately show ?thesis
    unfolding system_inv_def
    using s(5-8) calls_inv_started[OF cs] pr.reach_invar[OF s(5)] keeps_refl[of srv] served_wired[OF served_start s(9)] by force
qed

lemma system_inv_step:
  assumes st: "system_step k srv s t" and inv: "system_inv k srv s" and few: "few_calls (sys_calls s)"
  shows "system_inv k srv t"
proof -
  have i: "calls_inv (sys_calls s)" "matched (sys_calls s)" "\<forall>i < length (heap (sys_client s)). call_ok srv (heap (sys_client s) ! i)"
    "process_inv (sys_process s)" "keeps srv (pr_server (sys_process s))" "k < length (pr_conns (sys_process s))"
    using inv by (simp_all add: system_inv_def)
  obtain limit c start start' "is" where c: "pr_conns (sys_process s) ! k = (limit, c)" "wired limit start' c" "linked srv start is c s"
    using inv unfolding system_inv_def by blast
  from st show ?thesis
  proof cases
    case (client_moves cs)
    obtain js where "linked srv start (is @ js) c t"
      using linked_client[OF c(3) client_moves(2) i(1,2) client_moves(3) i(3)] client_moves(1) by blast
    then show ?thesis
      unfolding system_inv_def
      using client_moves i(4-6) c(1,2) calls_inv_step[OF client_moves(2) i(1) few] matched_step[OF client_moves(2) i(1,2)]
        calls_ok_step[OF client_moves(2,3) i(3)] by fastforce
  next
    case (server_moves p)
    obtain c' where c': "k < length (pr_conns p)" "pr_conns p ! k = (limit, c')" "keeps (pr_server (sys_process s)) (pr_server p)"
      "c' = c \<or> serve_step limit (with_server (pr_server (sys_process s)) c) c'"
      using process_step_at[OF server_moves(2) i(6) c(1) i(4)] by blast
    have "linked srv start is c' t \<and> wired limit start' c'"
    proof (cases "c' = c")
      case True
      then show ?thesis using c server_moves(1) by (simp add: linked_def)
    next
      case False
      then show ?thesis
        using linked_server[OF c(3,2) i(5) _ i(3)] c'(2,4) server_moves c(1) by (simp add: reads_request_def)
    qed
    moreover have "process_inv p" using pr.invar_step[OF i(4) server_moves(2)] .
    moreover have "keeps srv (pr_server p)" using keeps_trans[OF i(5) c'(3)] .
    ultimately show ?thesis unfolding system_inv_def using server_moves(1) i(1-3) c'(1,2) by auto
  next
    case (to_server js n)
    have "linked srv start is (c\<lparr>sv_shared := (sv_shared c)\<lparr>sh_coder := deliver js (conn_coder c)\<rparr>\<rparr>) t"
      using linked_up[OF c(3) to_server(2,3)] to_server(1) by simp
    moreover have "process_inv (sys_process t)"
      using process_inv_deliver[OF i(4,6) c(1)] to_server(1) c(1) by (simp add: deliver_request_def)
    moreover have "pr_conns (sys_process t) ! k = (limit, c\<lparr>sv_shared := (sv_shared c)\<lparr>sh_coder := deliver js (conn_coder c)\<rparr>\<rparr>)"
      "k < length (pr_conns (sys_process t))" "pr_server (sys_process t) = pr_server (sys_process s)"
      using to_server(1) c(1) i(6) by (simp_all add: deliver_request_def)
    moreover have "sys_calls t = sys_calls s" using to_server(1) by simp
    moreover have "wired limit start' (c\<lparr>sv_shared := (sv_shared c)\<lparr>sh_coder := deliver js (conn_coder c)\<rparr>\<rparr>)"
      using c(2) by simp
    ultimately show ?thesis unfolding system_inv_def using i(1-3,5) by metis
  next
    case (to_client js n)
    have "linked srv start is c t" using linked_down[OF c(3), of js n] to_client(1,3) c(1) by simp
    then show ?thesis
      unfolding system_inv_def
      using to_client(1) i c(1,2) calls_deliver(1,2)[where js = js] by (auto simp: deliver_response_def)
  next
    case connection_lost
    then show ?thesis unfolding system_inv_def using i c linked_lost[OF c(3)] by auto
  qed
qed

lemma system_step_few: "system_step k srv s t \<Longrightarrow> few_calls (sys_calls t) \<Longrightarrow> few_calls (sys_calls s)"
  by (induction rule: system_step.induct)
    (auto simp: few_calls_def deliver_response_def dest: calls_step_length)

interpretation sy: step_system "system_started k srv" "system_step k srv"
    "\<lambda>s. few_calls (sys_calls s) \<longrightarrow> system_inv k srv s" for k srv
  by unfold_locales (use system_inv_started system_inv_step system_step_few in blast)+

subsection \<open>A run of the system\<close>

text \<open>Steps of the client that start no call, and steps of the only connection of a server.\<close>

lemma system_client:
  assumes "system_reach k srv s" and "calls_step (sys_calls s) cs"
    and "length (heap (cc_client cs)) = length (heap (sys_client s))"
    and "cc_receiver cs = cc_receiver (sys_calls s) \<or> (\<exists>h. cc_receiver (sys_calls s) = RMatch h) \<or>
      incoming (cl_coder (sys_client s)) \<noteq> []"
  shows "system_reach k srv (s\<lparr>sys_calls := cs\<rparr>)"
proof -
  have "system_step k srv s (s\<lparr>sys_calls := cs\<rparr>)"
    using assms(2-4) by (intro client_moves) (auto simp: well_asked_def reads_response_def)
  with assms(1) show ?thesis by (rule reach_step)
qed

lemma system_serves:
  assumes "system_reach 0 srv s" and p: "sys_process s = \<lparr>pr_server = sh_server (sv_shared c), pr_conns = [(limit, c)]\<rparr>"
    and st: "serve_step limit c c'"
    and ready: "sv_pc c' = sv_pc c \<and> incoming (conn_coder c') = incoming (conn_coder c) \<or> Suc 0 < length (incoming (conn_coder c))"
  shows "system_reach 0 srv (s\<lparr>sys_process := \<lparr>pr_server = sh_server (sv_shared c'), pr_conns = [(limit, c')]\<rparr>\<rparr>)"
proof -
  have "serve_step limit (with_server (pr_server (sys_process s)) c) c'" using st p by (simp add: with_server_def)
  from pr_conn[OF _ _ _ this, of 0]
  have "process_step (sys_process s) \<lparr>pr_server = sh_server (sv_shared c'), pr_conns = [(limit, c')]\<rparr>"
    using p serve_step_alive[OF st] by (simp add: pr_alive_def)
  then have "system_step 0 srv s (s\<lparr>sys_process := \<lparr>pr_server = sh_server (sv_shared c'), pr_conns = [(limit, c')]\<rparr>\<rparr>)"
    by (rule server_moves) (use ready p in \<open>auto simp: reads_request_def\<close>)
  with assms(1) show ?thesis by (rule reach_step)
qed

text \<open>The steps in which a response reaches its call, and the caller takes it.\<close>

lemma receive_steps:
  assumes pc: "cc_receiver s = RHeader" "i < length (cc_callers s)" "cc_callers s ! i = CWaiting"
    and op: "conn_open (connection (cl_coder (cc_client s)))"
    and inc: "incoming (cl_coder (cc_client s)) = header_json h # j # w" and h: "Error h = []" "header_ok h"
    and i: "map_of (pendingCalls (cc_client s)) (SequenceNumber h) = Some i" "i < length (heap (cc_client s))"
    and call: "call_Output (heap (cc_client s) ! i) = Some (reflect_New u)" "call_Finish (heap (cc_client s) ! i) = (1, [])"
      "call_Error (heap (cc_client s) ! i) = None"
    and j: "unmarshal u j (zero_value u) = (v, False)"
  shows "\<exists>s1 s2 s3 t. calls_step s s1 \<and> calls_step s1 s2 \<and> calls_step s2 s3 \<and> calls_step s3 t \<and>
    cc_receiver s1 = RMatch h \<and> cc_receiver t = cc_receiver s3 \<and> incoming (cl_coder (cc_client s2)) \<noteq> [] \<and>
    length (heap (cc_client s1)) = length (heap (cc_client s)) \<and> length (heap (cc_client s2)) = length (heap (cc_client s)) \<and>
    length (heap (cc_client s3)) = length (heap (cc_client s)) \<and> length (heap (cc_client t)) = length (heap (cc_client s)) \<and>
    cc_callers t = (cc_callers s)[i := CReturned None] \<and> cc_receiver t = RHeader \<and>
    incoming (cl_coder (cc_client t)) = w \<and> conn_open (connection (cl_coder (cc_client t))) \<and>
    sent (cl_coder (cc_client t)) = sent (cl_coder (cc_client s))"
proof -
  let ?c = "cc_client s"
  obtain jc1 where jc1: "jc_DecodeMessageHeader (cl_coder ?c) empty_header = ((None, h), jc1)" "incoming jc1 = j # w"
    "conn_open (connection jc1)" "sent jc1 = sent (cl_coder ?c)"
    using decode_header_next[OF op inc] h(2) by auto
  obtain jc2 where jc2: "jc_DecodeMessageBody jc1 (Some (reflect_New u)) = ((None, Some \<lparr>rv_Type = TPtr u, rv_Val = VPtr v\<rparr>), jc2)"
    "incoming jc2 = w" "conn_open (connection jc2)" "sent jc2 = sent jc1"
    using decode_body_next[OF jc1(3,2) j] by (auto simp: reflect_New_def)
  let ?c1 = "?c\<lparr>cl_coder := jc1\<rparr>"
  let ?c2 = "?c1\<lparr>pendingCalls := AList.delete (SequenceNumber h) (pendingCalls ?c)\<rparr>"
  let ?x = "(heap ?c ! i)\<lparr>call_Output := Some \<lparr>rv_Type = TPtr u, rv_Val = VPtr v\<rparr>, call_Finish := (1, [i])\<rparr>"
  let ?c3 = "?c2\<lparr>cl_coder := jc2, heap := (heap ?c)[i := ?x]\<rparr>"
  let ?c4 = "?c3\<lparr>heap := (heap ?c)[i := ?x\<lparr>call_Finish := (1, [])\<rparr>]\<rparr>"
  let ?s1 = "s\<lparr>cc_client := ?c1, cc_receiver := RMatch h\<rparr>"
  let ?s2 = "?s1\<lparr>cc_client := ?c2, cc_receiver := RBody h (Some i)\<rparr>"
  let ?s3 = "?s2\<lparr>cc_client := ?c3, cc_receiver := RHeader\<rparr>"
  let ?t = "?s3\<lparr>cc_client := ?c4, cc_callers := (cc_callers ?s3)[i := CReturned None]\<rparr>"
  have 1: "calls_step s ?s1" by (rule header) (simp_all add: pc(1) receive_header_def jc1(1))
  have 2: "calls_step ?s1 ?s2" by (rule match_) (simp_all add: deleteCall_def i(1))
  have "receive_body h (Some i) ?c2 = Some (None, ?c3)"
    by (simp add: receive_body_def h jc2(1) call i(2) finishCall_def update_call_def)
  then have 3: "calls_step ?s2 ?s3" using body[of ?s2 h "Some i" ?c3] by simp
  have "call_finished i ?c3 = Some (None, ?c4)"
    by (simp add: call_finished_def i(2) call(3) update_call_def)
  then have 4: "calls_step ?s3 ?t" using finish[of i ?s3 None ?c4] pc(2,3) by simp
  show ?thesis
    by (rule exI[of _ ?s1], rule exI[of _ ?s2], rule exI[of _ ?s3], rule exI[of _ ?t], intro conjI, rule 1, rule 2, rule 3, rule 4)
      (simp_all add: jc1(2,4) jc2(2-4))
qed

text \<open>The call of the unit tests: a client, and the server with the arithmetic service.\<close>

definition sample_system :: System where
  "sample_system = \<lparr>sys_calls = calls_start (new_Client idle_coder DefaultConnectionInfo ''tcp@127.0.0.1:7''),
     sys_process = \<lparr>pr_server = sample_server, pr_conns = [(0, serve_start sample_server idle_coder)]\<rparr>,
     sys_up = 0, sys_down = 0, sys_lost = False\<rparr>"

lemma sample_system_started: "system_started 0 sample_server sample_system"
proof -
  have "process_reach (sys_process sample_system)"
    using sample_process[of 0 "[]"] by (simp add: sample_system_def idle_coder_def int_ok_def)
  moreover have e: "sent idle_coder = []" by (simp add: idle_coder_def NewJsonCoder_def sample_connection_def sent_def)
  have "\<exists>jc info addr. sys_calls sample_system = calls_start (new_Client jc info addr) \<and> healthy jc \<and> incoming jc = [] \<and>
      sys_up sample_system = length (sent jc)"
    by (rule exI[of _ idle_coder], rule exI[of _ DefaultConnectionInfo], rule exI[of _ "''tcp@127.0.0.1:7''"])
      (simp add: sample_system_def e)
  ultimately show ?thesis
    unfolding system_started_def by (simp add: sample_system_def) (rule exI[of _ idle_coder], simp add: e)
qed

lemma sample_asks:
  defines "m \<equiv> new_Method (arithmetic_methods ! 0)"
  shows "asks sample_server ''Arithmetic.Addition'' (VPtr (add_inputs 2 3)) m (add_inputs 2 3) output_type"
    and "expressible m (add_inputs 2 3) output_type"
proof -
  have s: "serves sample_server ''Arithmetic'' ''Addition'' arithmetic_service m"
    unfolding m_def by (rule sample_serves) simp
  have e: "input_elem m = input_type" "CreateOutput m = Ret (reflect_New output_type)" "input_of m v = VPtr v" for v
    unfolding m_def by (simp_all add: sample_method)
  have "search_service sample_server ''Arithmetic.Addition'' = (Some ''Arithmetic'', Some ''Addition'', None)"
    using s search_dot[of "''Addition''" sample_server "''Arithmetic''"] by (simp add: serves_def)
  moreover have "find_method sample_server (Some ''Arithmetic'') (Some ''Addition'') = Some m" "well_formed m"
    using s by (simp_all add: serves_def find_method_alt)
  moreover have "typed input_type (add_inputs 2 3)" "type_ok input_type" "sendable (add_inputs 2 3)"
    "marshal (add_inputs 2 3) \<noteq> None" "marshal (VPtr (add_inputs 2 3)) = marshal (add_inputs 2 3)" "type_ok output_type"
    by (simp_all add: add_inputs_def input_type_def output_type_def int_ok_def ast_IsExported_def is_upper_def)
  moreover have "utf8_valid ''Arithmetic.Addition''" by simp
  moreover have "type_Elem (OutputType m) = Ret output_type"
    by (simp add: m_def new_Method_def arithmetic_methods_def)
  ultimately show "asks sample_server ''Arithmetic.Addition'' (VPtr (add_inputs 2 3)) m (add_inputs 2 3) output_type"
    unfolding asks_def e(1) by blast
  have "runs m (add_inputs 2 3) None reply \<Longrightarrow> reply = VPtr (VStruct [(''C'', VInt 5)])" for reply
    unfolding runs_def e(2,3) by (auto simp: m_def new_Method_def arithmetic_methods_def add_inputs_def)
  then show "expressible m (add_inputs 2 3) output_type"
    unfolding expressible_def
    by (fastforce simp: output_type_def int_ok_def ast_IsExported_def is_upper_def)
qed

lemma sample_sent:
  "marshal (VPtr (add_inputs 2 3)) = Some (JObj [(''A'', JNum 2), (''B'', JNum 3)])"
  "sample_request_chunk = [header_json \<lparr>ServiceDotMethod = ''Arithmetic.Addition'', SequenceNumber = 1, Error = []\<rparr>,
     JObj [(''A'', JNum 2), (''B'', JNum 3)]]"
  by (simp_all add: add_inputs_def ast_IsExported_def is_upper_def sample_request_chunk_def)

text \<open>The call has been sent and delivered.\<close>

lemma sample_delivered:
  "\<exists>cs. system_reach 0 sample_server \<lparr>sys_calls = cs,
       sys_process = \<lparr>pr_server = sample_server, pr_conns = [(0, serve_start sample_server sample_coder)]\<rparr>,
       sys_up = 2, sys_down = 0, sys_lost = False\<rparr> \<and>
     cc_receiver cs = RHeader \<and> cc_callers cs = [CWaiting] \<and> healthy (cl_coder (cc_client cs)) \<and>
     length (sent (cl_coder (cc_client cs))) = 2 \<and>
     incoming (cl_coder (cc_client cs)) = [] \<and> pendingCalls (cc_client cs) = [(1, 0)] \<and>
     heap (cc_client cs) = [(new_call ''Arithmetic.Addition'' (VPtr (add_inputs 2 3)) (Some (reflect_New output_type)) 1)
       \<lparr>call_SequenceNumber := 1\<rparr>]"
proof -
  let ?cs = "sys_calls sample_system"
  let ?call = "new_call ''Arithmetic.Addition'' (VPtr (add_inputs 2 3)) (Some (reflect_New output_type)) 1"
  have c: "cc_callers ?cs = []" "heap (cc_client ?cs) = []" "cc_lock ?cs = None" "IsAvailable (cc_client ?cs)"
    "healthy (cl_coder (cc_client ?cs))" "sent (cl_coder (cc_client ?cs)) = []" "incoming (cl_coder (cc_client ?cs)) = []"
    "sequenceNumber (cc_client ?cs) = 1" "pendingCalls (cc_client ?cs) = []" "cc_receiver ?cs = RHeader"
    by (simp_all add: sample_system_def calls_start_def new_Client_def IsAvailable_def)
      (simp add: idle_coder_def NewJsonCoder_def sample_connection_def sent_def)
  obtain s1 s2 t where st: "calls_step ?cs s1" "calls_step s1 s2" "calls_step s2 t"
    and s1: "heap (cc_client s1) = [?call]" "cc_receiver s1 = RHeader" "cc_receiver s2 = RHeader"
      "length (heap (cc_client s2)) = 1"
    and t: "cc_receiver t = RHeader" "cc_callers t = [CWaiting]" "healthy (cl_coder (cc_client t))"
      "incoming (cl_coder (cc_client t)) = []" "sent (cl_coder (cc_client t)) = sample_request_chunk"
      "pendingCalls (cc_client t) = [(1, 0)]" "heap (cc_client t) = [?call\<lparr>call_SequenceNumber := 1\<rparr>]"
    using send_steps[of ?cs "VPtr (add_inputs 2 3)" _ "''Arithmetic.Addition''" "Some (reflect_New output_type)",
        OF _ c(3,4,5) sample_sent(1)] c
    by (auto simp: sample_sent(2))
  have "good_call sample_server ?call"
    unfolding good_call_def using sample_asks by (auto simp: new_call_def)
  then have "system_step 0 sample_server sample_system (sample_system\<lparr>sys_calls := s1\<rparr>)"
    using st(1) s1 c by (intro client_moves) (auto simp: well_asked_def reads_response_def)
  with reach_init[of "system_started 0 sample_server", OF sample_system_started]
  have 1: "system_reach 0 sample_server (sample_system\<lparr>sys_calls := s1\<rparr>)" by (rule reach_step)
  have 2: "system_reach 0 sample_server (sample_system\<lparr>sys_calls := s2\<rparr>)"
    using system_client[OF 1, of s2] st(2) s1 by simp
  have 3: "system_reach 0 sample_server (sample_system\<lparr>sys_calls := t\<rparr>)"
    using system_client[OF 2, of t] st(3) s1 t by simp
  have d: "deliver_request 0 sample_request_chunk (sys_process sample_system) =
      \<lparr>pr_server = sample_server, pr_conns = [(0, serve_start sample_server sample_coder)]\<rparr>"
    by (simp add: deliver_request_def sample_system_def serve_start_def deliver_def idle_coder_def sample_coder_def
        NewJsonCoder_def sample_connection_def)
  have "sample_request_chunk = take 2 (drop 0 (sent (cl_coder (cc_client t))))"
    using t(5) by (simp add: sample_sent(2))
  then have "system_step 0 sample_server (sample_system\<lparr>sys_calls := t\<rparr>)
      ((sample_system\<lparr>sys_calls := t\<rparr>)\<lparr>sys_process := deliver_request 0 sample_request_chunk (sys_process sample_system),
         sys_up := 0 + length sample_request_chunk\<rparr>)"
    using to_server[of "sample_system\<lparr>sys_calls := t\<rparr>" sample_request_chunk 2 0 sample_server] by (simp add: sample_system_def)
  with 3 have "system_reach 0 sample_server ((sample_system\<lparr>sys_calls := t\<rparr>)
      \<lparr>sys_process := deliver_request 0 sample_request_chunk (sys_process sample_system), sys_up := 0 + length sample_request_chunk\<rparr>)"
    by (rule reach_step)
  then have "system_reach 0 sample_server \<lparr>sys_calls = t,
       sys_process = \<lparr>pr_server = sample_server, pr_conns = [(0, serve_start sample_server sample_coder)]\<rparr>,
       sys_up = 2, sys_down = 0, sys_lost = False\<rparr>"
    unfolding d by (simp add: sample_system_def sample_sent(2) numeral_2_eq_2)
  moreover have "length (sent (cl_coder (cc_client t))) = 2" using t(5) by (simp add: sample_sent(2))
  ultimately show ?thesis using t by blast
qed

text \<open>The server has answered.\<close>

lemma system_handler:
  assumes "system_reach 0 srv (s\<lparr>sys_process := \<lparr>pr_server = sh_server (sv_shared c), pr_conns = [(limit, c)]\<rparr>\<rparr>)"
    and "sv_handlers c = [h]" and "handler_step limit (h, sv_shared c) (h', sh')"
  shows "system_reach 0 srv (s\<lparr>sys_process :=
    \<lparr>pr_server = sh_server sh', pr_conns = [(limit, c\<lparr>sv_handlers := [h'], sv_shared := sh'\<rparr>)]\<rparr>\<rparr>)"
proof -
  have "serve_step limit c (c\<lparr>sv_handlers := [h'], sv_shared := sh'\<rparr>)"
    using handler[of 0 c limit h' sh'] assms(2,3) by simp
  from system_serves[OF assms(1) _ this] show ?thesis
    using handler_step_incoming[OF assms(3)] by simp
qed

lemma sample_answered:
  assumes "system_reach 0 sample_server (s\<lparr>sys_process :=
    \<lparr>pr_server = sample_server, pr_conns = [(0, serve_start sample_server sample_coder)]\<rparr>\<rparr>)"
  shows "\<exists>c. system_reach 0 sample_server (s\<lparr>sys_process := \<lparr>pr_server = sh_server (sv_shared c), pr_conns = [(0, c)]\<rparr>\<rparr>) \<and>
    sent (conn_coder c) = [header_json \<lparr>ServiceDotMethod = ''Arithmetic.Addition'', SequenceNumber = 1, Error = []\<rparr>,
      JObj [(''C'', JNum 5)]] \<and>
    sv_pc c = Reading \<and> sh_panic (sv_shared c) = None \<and> incoming (conn_coder c) = [] \<and>
    (\<exists>h. sv_handlers c = [h] \<and> rh_main h = ReturnedEarly \<and> rh_worker h = WorkerEnded)"
proof -
  obtain c where c: "serve_step 0 (serve_start sample_server sample_coder) c" "sv_handlers c = [new_handler sample_request]"
    "sh_panic (sv_shared c) = None" "healthy (conn_coder c)" "sent (conn_coder c) = []" "sh_server (sv_shared c) = sample_server"
    "sv_pc c = Reading" "incoming (conn_coder c) = []"
    using sample_turn_step[of 0] by blast
  have "Suc 0 < length (incoming sample_coder)" by (simp add: sample_coder_def sample_sent(2) NewJsonCoder_def sample_connection_def incoming_def)
  then have 1: "system_reach 0 sample_server (s\<lparr>sys_process := \<lparr>pr_server = sh_server (sv_shared c), pr_conns = [(0, c)]\<rparr>\<rparr>)"
    using system_serves[OF assms _ c(1)] by (simp add: serve_start_def)
  obtain outp srv where r: "call_request sample_server sample_request = (Ret (None, outp), srv)"
    "rv_Val outp = VPtr (VStruct [(''C'', VInt 5)])"
    using sample_call by blast
  let ?h = "new_handler sample_request" and ?sh = "sv_shared c"
  let ?r = "sample_request\<lparr>req_output := Some outp\<rparr>"
  let ?h1 = "?h\<lparr>rh_worker := CallDone None, rh_request := ?r\<rparr>" and ?sh1 = "?sh\<lparr>sh_server := srv\<rparr>"
  let ?h2 = "?h1\<lparr>rh_main := AwaitCall\<rparr>"
  let ?h3 = "?h2\<lparr>rh_worker := Responding None, rh_main := AwaitResponse\<rparr>"
  let ?hdr = "\<lparr>ServiceDotMethod = ''Arithmetic.Addition'', SequenceNumber = 1, Error = []\<rparr>"
  let ?body = "VPtr (VStruct [(''C'', VInt 5)])"
  let ?h4 = "?h3\<lparr>rh_worker := ResponseDone, rh_sent := [(?hdr, ?body)]\<rparr>" and ?sh4 = "respond ?hdr ?body ?sh1"
  have "handler_step 0 (?h, ?sh) (?h1, ?sh1)" using call[of ?sh ?h None outp srv 0] c(3,6) r(1) by (simp add: new_handler_def)
  from system_handler[OF 1 c(2) this]
  have 2: "system_reach 0 sample_server (s\<lparr>sys_process := \<lparr>pr_server = srv, pr_conns = [(0, c\<lparr>sv_handlers := [?h1], sv_shared := ?sh1\<rparr>)]\<rparr>\<rparr>)"
    by simp
  have "handler_step 0 (?h1, ?sh1) (?h2, ?sh1)" using enter[of ?sh1 ?h1 0] c(3) by (simp add: new_handler_def)
  then have 3: "system_reach 0 sample_server (s\<lparr>sys_process := \<lparr>pr_server = srv, pr_conns = [(0, c\<lparr>sv_handlers := [?h2], sv_shared := ?sh1\<rparr>)]\<rparr>\<rparr>)"
    using system_handler[where s = s and c = "c\<lparr>sv_handlers := [?h1], sv_shared := ?sh1\<rparr>"
      and h = ?h1 and h' = ?h2 and sh' = ?sh1] 2 by simp
  have "handler_step 0 (?h2, ?sh1) (?h3, ?sh1)" using called[of ?sh1 ?h2 None 0] c(3) by simp
  then have 4: "system_reach 0 sample_server (s\<lparr>sys_process := \<lparr>pr_server = srv, pr_conns = [(0, c\<lparr>sv_handlers := [?h3], sv_shared := ?sh1\<rparr>)]\<rparr>\<rparr>)"
    using system_handler[where s = s and c = "c\<lparr>sv_handlers := [?h2], sv_shared := ?sh1\<rparr>"
      and h = ?h2 and h' = ?h3 and sh' = ?sh1] 3 by simp
  have e: "?hdr = call_header (rh_request ?h3) None" "?body = call_body (rh_request ?h3) None"
    "sh_panic ?sh1 = None" "rh_worker ?h3 = Responding None"
    using c(3) r(2) by (simp_all add: call_header_def call_body_def sample_request_def)
  have "?h4 = ?h3\<lparr>rh_worker := ResponseDone, rh_sent := rh_sent ?h3 @ [(?hdr, ?body)]\<rparr>" by (simp add: new_handler_def)
  with send[OF e(3,4,1,2), of 0] have "handler_step 0 (?h3, ?sh1) (?h4, ?sh4)" by (simp only:)
  then have 5: "system_reach 0 sample_server (s\<lparr>sys_process := \<lparr>pr_server = sh_server ?sh4, pr_conns = [(0, c\<lparr>sv_handlers := [?h4], sv_shared := ?sh4\<rparr>)]\<rparr>\<rparr>)"
    using system_handler[where s = s and c = "c\<lparr>sv_handlers := [?h3], sv_shared := ?sh1\<rparr>"
      and h = ?h3 and h' = ?h4 and sh' = ?sh4] 4 by simp
  let ?h5 = "?h4\<lparr>rh_worker := WorkerEnded, rh_main := ReturnedEarly\<rparr>"
  have p: "sh_panic ?sh4 = None" using c(3) by (simp add: respond_def)
  have "handler_step 0 (?h4, ?sh4) (?h5, ?sh4)" by (rule responded[OF p]) simp_all
  then have 6: "system_reach 0 sample_server (s\<lparr>sys_process := \<lparr>pr_server = sh_server ?sh4, pr_conns = [(0, c\<lparr>sv_handlers := [?h5], sv_shared := ?sh4\<rparr>)]\<rparr>\<rparr>)"
    using system_handler[where s = s and c = "c\<lparr>sv_handlers := [?h4], sv_shared := ?sh4\<rparr>"
      and h = ?h4 and h' = ?h5 and sh' = ?sh4] 5 by simp
  have "marshal ?body = Some (JObj [(''C'', JNum 5)])" by (simp add: ast_IsExported_def is_upper_def)
  from send_response_ok[OF c(4) this, of ?hdr] c(5,8)
  have "sent (sh_coder ?sh4) = [header_json ?hdr, JObj [(''C'', JNum 5)]]" "incoming (sh_coder ?sh4) = []"
    by (simp_all add: respond_def)
  with 6 p c(7) show ?thesis by (intro exI[of _ "c\<lparr>sv_handlers := [?h5], sv_shared := ?sh4\<rparr>"]) simp
qed

text \<open>The response has been delivered, and the call has returned.\<close>

lemma sample_returned:
  "\<exists>s. system_reach 0 sample_server s \<and> few_calls (sys_calls s) \<and> cc_callers (sys_calls s) = [CReturned None] \<and>
     cc_receiver (sys_calls s) = RHeader \<and> incoming (cl_coder (sys_client s)) = [] \<and>
     conn_open (connection (cl_coder (sys_client s))) \<and> \<not> sys_lost s \<and>
     sys_up s = length (sent (cl_coder (sys_client s))) \<and>
     (\<exists>c h. sys_process s = \<lparr>pr_server = sh_server (sv_shared c), pr_conns = [(0, c)]\<rparr> \<and> sys_down s = length (sent (conn_coder c)) \<and>
        sv_pc c = Reading \<and> sh_panic (sv_shared c) = None \<and> incoming (conn_coder c) = [] \<and>
        sv_handlers c = [h] \<and> rh_main h = ReturnedEarly \<and> rh_worker h = WorkerEnded)"
proof -
  let ?h = "\<lparr>ServiceDotMethod = ''Arithmetic.Addition'', SequenceNumber = 1, Error = []\<rparr>"
  let ?js = "[header_json ?h, JObj [(''C'', JNum 5)]]"
  obtain cs where d: "system_reach 0 sample_server \<lparr>sys_calls = cs,
       sys_process = \<lparr>pr_server = sample_server, pr_conns = [(0, serve_start sample_server sample_coder)]\<rparr>,
       sys_up = 2, sys_down = 0, sys_lost = False\<rparr>"
    and cs: "cc_receiver cs = RHeader" "cc_callers cs = [CWaiting]" "healthy (cl_coder (cc_client cs))"
      "incoming (cl_coder (cc_client cs)) = []" "pendingCalls (cc_client cs) = [(1, 0)]"
      "heap (cc_client cs) = [(new_call ''Arithmetic.Addition'' (VPtr (add_inputs 2 3)) (Some (reflect_New output_type)) 1)
         \<lparr>call_SequenceNumber := 1\<rparr>]"
      "length (sent (cl_coder (cc_client cs))) = 2"
    using sample_delivered by blast
  let ?s = "\<lparr>sys_calls = cs, sys_process = \<lparr>pr_server = sample_server, pr_conns = [(0, serve_start sample_server sample_coder)]\<rparr>,
       sys_up = 2, sys_down = 0, sys_lost = False\<rparr>"
  obtain c h where "system_reach 0 sample_server (?s\<lparr>sys_process := \<lparr>pr_server = sh_server (sv_shared c), pr_conns = [(0, c)]\<rparr>\<rparr>)"
    and sent: "sent (conn_coder c) = ?js"
    and server: "sv_pc c = Reading" "sh_panic (sv_shared c) = None" "incoming (conn_coder c) = []"
      "sv_handlers c = [h]" "rh_main h = ReturnedEarly" "rh_worker h = WorkerEnded"
    using sample_answered[of ?s] d by auto
  then have 1: "system_reach 0 sample_server (?s\<lparr>sys_process := \<lparr>pr_server = sh_server (sv_shared c), pr_conns = [(0, c)]\<rparr>\<rparr>)"
    (is "system_reach 0 sample_server ?a") by simp
  have "system_step 0 sample_server ?a (?a\<lparr>sys_calls := deliver_response ?js cs, sys_down := 0 + length ?js\<rparr>)"
    using to_client[of ?a ?js 2 0 sample_server] sent by simp
  with 1 have 2: "system_reach 0 sample_server (?a\<lparr>sys_calls := deliver_response ?js cs, sys_down := 0 + length ?js\<rparr>)"
    (is "system_reach 0 sample_server ?b") by (rule reach_step)
  let ?d = "deliver_response ?js cs"
  have "unmarshal output_type (JObj [(''C'', JNum 5)]) (zero_value output_type) = (VStruct [(''C'', VInt 5)], False)"
    by (simp add: output_type_def find_field_def ast_IsExported_def is_upper_def int_ok_def)
  from receive_steps[of ?d 0 ?h "JObj [(''C'', JNum 5)]" "[]", OF _ _ _ _ _ _ _ _ _ _ _ _ this]
  obtain s1 s2 s3 t where st: "calls_step ?d s1" "calls_step s1 s2" "calls_step s2 s3" "calls_step s3 t"
    and r: "cc_receiver s1 = RMatch ?h" "cc_receiver t = cc_receiver s3" "incoming (cl_coder (cc_client s2)) \<noteq> []"
    and len: "length (heap (cc_client s1)) = length (heap (cc_client ?d))" "length (heap (cc_client s2)) = length (heap (cc_client ?d))"
      "length (heap (cc_client s3)) = length (heap (cc_client ?d))" "length (heap (cc_client t)) = length (heap (cc_client ?d))"
    and ret: "cc_callers t = (cc_callers ?d)[0 := CReturned None]"
    and client: "cc_receiver t = RHeader" "incoming (cl_coder (cc_client t)) = []" "conn_open (connection (cl_coder (cc_client t)))"
      "length (sent (cl_coder (cc_client t))) = 2"
    using cs by (auto simp: deliver_response_def new_call_def healthy_def)
  have inc: "incoming (cl_coder (cc_client ?d)) \<noteq> []" using cs(3,4) by (simp add: deliver_response_def)
  have 3: "system_reach 0 sample_server (?b\<lparr>sys_calls := s1\<rparr>)" using system_client[OF 2, of s1] st(1) len inc by simp
  have 4: "system_reach 0 sample_server (?b\<lparr>sys_calls := s2\<rparr>)" using system_client[OF 3, of s2] st(2) len r(1) by simp
  have 5: "system_reach 0 sample_server (?b\<lparr>sys_calls := s3\<rparr>)" using system_client[OF 4, of s3] st(3) len r(3) by simp
  have 6: "system_reach 0 sample_server (?b\<lparr>sys_calls := t\<rparr>)" using system_client[OF 5, of t] st(4) len r(2) by simp
  have "few_calls t" using len(4) cs(6) by (simp add: few_calls_def deliver_response_def)
  moreover have "cc_callers t = [CReturned None]" using ret cs(2) by (simp add: deliver_response_def)
  ultimately show ?thesis
    using 6 client server sent by (intro exI[of _ "?b\<lparr>sys_calls := t\<rparr>"]) simp
qed

subsection \<open>Properties\<close>

text \<open>The handler that answers a call, and its response.\<close>

lemma returned_answered:
  assumes "system_reach k srv s" and "few_calls (sys_calls s)"
    and "i < length (cc_callers (sys_calls s))" and "cc_callers (sys_calls s) ! i = CReturned None"
  obtains p b u w where "p < length (sv_handlers (conn_at k (sys_process s)))"
    "good_response srv (sv_handlers (conn_at k (sys_process s)) ! p) (request_of (sys_client s) i)
       (\<lparr>ServiceDotMethod = f, SequenceNumber = seqno (sys_client s) i, Error = []\<rparr>, b)"
    "req_header (rh_request (sv_handlers (conn_at k (sys_process s)) ! p)) = fst (request_of (sys_client s) i)"
    "unmarshal u (the (marshal b)) (zero_value u) = (w, False)"
    "call_Output (heap (sys_client s) ! i) = Some \<lparr>rv_Type = TPtr u, rv_Val = VPtr w\<rparr>"
proof -
  let ?cl = "sys_client s" and ?cs = "sys_calls s"
  have inv: "system_inv k srv s" using sy.reach_invar[OF assms(1)] assms(2) by blast
  then obtain limit c start "is" where c: "pr_conns (sys_process s) ! k = (limit, c)" "linked srv start is c s"
    and ci: "calls_inv ?cs" unfolding system_inv_def by blast
  have i: "i < length (heap ?cl)" using assms(3) ci by (simp add: calls_inv_def)
  then have "resolved (sh_log (sv_shared c)) (heap ?cl ! i)"
    using c(2) assms(4) by (auto simp: linked_def results_def result_inv_def Let_def)
  then obtain h b u w where r: "(h, b) \<in> set (sh_log (sv_shared c))" "Error h = []" "SequenceNumber h = seqno ?cl i"
    "seqno ?cl i \<noteq> 0" "unmarshal u (the (marshal b)) (zero_value u) = (w, False)"
    "call_Output (heap ?cl ! i) = Some \<lparr>rv_Type = TPtr u, rv_Val = VPtr w\<rparr>"
    unfolding resolved_def by blast
  obtain begun todo where o: "map (request_of ?cl) is = begun @ todo" "list_all2 (serving srv) (sv_handlers c) begun"
    "list_all (answered srv (sv_handlers c) begun) (sh_log (sv_shared c))"
    using c(2) unfolding linked_def conn_inv_def by blast
  then obtain p where p: "p < length begun" "good_response srv (sv_handlers c ! p) (begun ! p) (h, b)"
    using r(1,2) by (fastforce simp: list_all_iff answered_def)
  have len: "length begun = length (sv_handlers c)" "length begun \<le> length is"
    using list_all2_lengthD[OF o(2)] arg_cong[OF o(1), of length] by simp_all
  have b: "begun ! p = request_of ?cl (is ! p)"
    using arg_cong[OF o(1), of "\<lambda>xs. xs ! p"] p(1) len(2) by (simp add: nth_append)
  have "is ! p \<in> registered ?cl"
    using c(2) p(1) len(2) by (auto simp: linked_def written_def)
  moreover have "i \<in> registered ?cl" using i r(4) by (simp add: registered_def)
  moreover have "seqno ?cl (is ! p) = seqno ?cl i" using p(2) b r(2,3) by (simp add: good_response_def request_of_def)
  moreover have "inj_on (seqno ?cl) (registered ?cl)" using ci by (simp add: calls_inv_def table_inv_def)
  ultimately have e: "is ! p = i" by (meson inj_onD)
  have "serving srv (sv_handlers c ! p) (begun ! p)" using list_all2_nthD2[OF o(2) p(1)] .
  then have "req_header (rh_request (sv_handlers c ! p)) = fst (request_of ?cl i)" using b e by (auto simp: serving_def)
  moreover have "good_response srv (sv_handlers c ! p) (request_of ?cl i)
       (\<lparr>ServiceDotMethod = f, SequenceNumber = seqno ?cl i, Error = []\<rparr>, b)"
    using p(2) b e r(2,3) by (simp add: good_response_def)
  ultimately show ?thesis using that[of p b u w] c(1) p(1) len(1) r(5,6) by simp
qed

text \<open>
  C1. A remote call is a call: when a caller's \<^verbatim>\<open>Call\<close> returns without an error, its output is the
  reply that the method it named has computed from the value that it passed (run on the receiver as
  it then was), decoded without loss; the one other possibility is that the method returned an error
  whose text is empty. This holds for any number of concurrent callers and connections, any
  interleaving, any chunks, timeouts, cancellations, and loss of the connection. The users of the
  client are those that \<open>well_asked\<close> admits: each names a method that was registered at the start,
  passes a value of its input type that JSON can express (its strings in UTF-8) and a new output, and
  the replies of the method can be expressed; and there are fewer than 2^64 - 1 calls.
\<close>

theorem remote_call_is_a_call:
  assumes "system_reach k srv s" and "few_calls (sys_calls s)"
    and "i < length (cc_callers (sys_calls s))" and "cc_callers (sys_calls s) ! i = CReturned None"
  shows "\<exists>m v u. asks srv (call_ServiceDotMethod (heap (sys_client s) ! i)) (call_Inputs (heap (sys_client s) ! i)) m v u \<and>
    ((\<exists>w. runs m v None (VPtr w) \<and> call_Output (heap (sys_client s) ! i) = Some \<lparr>rv_Type = TPtr u, rv_Val = VPtr w\<rparr>) \<or>
     (\<exists>reply. runs m v (Some []) reply))"
proof -
  let ?call = "heap (sys_client s) ! i"
  have inv: "system_inv k srv s" using sy.reach_invar[OF assms(1)] assms(2) by blast
  then have "i < length (heap (sys_client s))" using assms(3) by (simp add: system_inv_def calls_inv_def)
  then have ok: "call_ok srv ?call" using inv by (simp add: system_inv_def)
  obtain p b u w where g: "good_response srv (sv_handlers (conn_at k (sys_process s)) ! p) (request_of (sys_client s) i)
       (\<lparr>ServiceDotMethod = [], SequenceNumber = seqno (sys_client s) i, Error = []\<rparr>, b)"
    and w: "unmarshal u (the (marshal b)) (zero_value u) = (w, False)"
    and out: "call_Output ?call = Some \<lparr>rv_Type = TPtr u, rv_Val = VPtr w\<rparr>"
    using returned_answered[OF assms] by metis
  obtain m v u' where m: "asks srv (call_ServiceDotMethod ?call) (call_Inputs ?call) m v u'" "expressible m v u'"
    "runs m v None b \<or> b = invalidRequest \<and> (\<exists>reply. runs m v (Some []) reply)"
    using g by (auto simp: good_response_def computed_def request_of_def)
  have "u' = u" using ok m(1) out asks_unique by (fastforce simp: call_ok_def)
  show ?thesis
  proof (cases "runs m v None b")
    case True
    then obtain w' where w': "b = VPtr w'" "typed u w'" "sendable w'" "marshal w' \<noteq> None"
      using m(2) \<open>u' = u\<close> unfolding expressible_def by blast
    have "type_ok u" using m(1) \<open>u' = u\<close> by (simp add: asks_def)
    then have "w = w'" using w w' unmarshal_marshal[of u w'] by auto
    then show ?thesis using True w'(1) m(1) out \<open>u' = u\<close> by blast
  qed (use m in blast)
qed

theorem remote_call_is_a_call_witness:
  "\<exists>s m v u. system_reach 0 sample_server s \<and> cc_callers (sys_calls s) = [CReturned None] \<and>
    asks sample_server (call_ServiceDotMethod (heap (sys_client s) ! 0)) (call_Inputs (heap (sys_client s) ! 0)) m v u"
proof -
  obtain s where s: "system_reach 0 sample_server s" "few_calls (sys_calls s)" "cc_callers (sys_calls s) = [CReturned None]"
    using sample_returned by blast
  with remote_call_is_a_call[OF s(1,2), of 0] show ?thesis by auto
qed

text \<open>The handlers of the client's connection are those of its first calls, in the order in which they were written.\<close>

lemma handlers_are_calls:
  assumes "linked srv start is c s"
  obtains ids where "map (\<lambda>h. req_header (rh_request h)) (sv_handlers c) = map (fst \<circ> request_of (sys_client s)) ids"
    "distinct ids" "set ids \<subseteq> registered (sys_client s)"
proof -
  let ?cl = "sys_client s"
  obtain begun todo where o: "map (request_of ?cl) is = begun @ todo" "list_all2 (serving srv) (sv_handlers c) begun"
    using assms unfolding linked_def conn_inv_def by blast
  have "map (\<lambda>h. req_header (rh_request h)) (sv_handlers c) = map fst begun"
    using o(2) by (induction rule: list_all2_induct) (auto simp: serving_def)
  moreover have "begun = map (request_of ?cl) (take (length begun) is)"
    using o(1) by (metis append_eq_conv_conj take_map)
  ultimately have "map (\<lambda>h. req_header (rh_request h)) (sv_handlers c) = map (fst \<circ> request_of ?cl) (take (length begun) is)"
    by (metis map_map)
  moreover have "distinct is" "set is \<subseteq> registered ?cl" using assms by (auto simp: linked_def written_def)
  moreover from this have "set (take (length begun) is) \<subseteq> registered ?cl" by (meson in_set_takeD subset_eq)
  ultimately show ?thesis using that[of "take (length begun) is"] by simp
qed

text \<open>
  C3. A call runs at most once: the handlers of the client's connection have different sequence
  numbers, each the number of a call, and a call that has returned without an error has one whose
  method has been called. (For the users and the number of calls of the first property.)
\<close>

theorem calls_run_at_most_once:
  assumes "system_reach k srv s" and "few_calls (sys_calls s)"
  shows "distinct (map (\<lambda>h. SequenceNumber (req_header (rh_request h))) (sv_handlers (conn_at k (sys_process s)))) \<and>
    (\<forall>h \<in> set (sv_handlers (conn_at k (sys_process s))).
       \<exists>i < length (heap (sys_client s)). req_header (rh_request h) = fst (request_of (sys_client s) i)) \<and>
    (\<forall>i < length (cc_callers (sys_calls s)). cc_callers (sys_calls s) ! i = CReturned None \<longrightarrow>
       (\<exists>h \<in> set (sv_handlers (conn_at k (sys_process s))).
          SequenceNumber (req_header (rh_request h)) = seqno (sys_client s) i \<and> rh_worker h \<noteq> Calling))"
proof -
  let ?cl = "sys_client s"
  have inv: "system_inv k srv s" using sy.reach_invar[OF assms(1)] assms(2) by blast
  then obtain limit c start "is" where c: "pr_conns (sys_process s) ! k = (limit, c)" "linked srv start is c s"
    and ci: "calls_inv (sys_calls s)" unfolding system_inv_def by blast
  obtain ids where ids: "map (\<lambda>h. req_header (rh_request h)) (sv_handlers c) = map (fst \<circ> request_of ?cl) ids"
    "distinct ids" "set ids \<subseteq> registered ?cl"
    by (rule handlers_are_calls[OF c(2)])
  have "inj_on (seqno ?cl) (registered ?cl)" using ci by (simp add: calls_inv_def table_inv_def)
  then have "distinct (map (seqno ?cl) ids)" using ids(2,3) by (simp add: distinct_map inj_on_subset)
  moreover have "map (\<lambda>h. SequenceNumber (req_header (rh_request h))) (sv_handlers c) = map (seqno ?cl) ids"
    using arg_cong[OF ids(1), of "map SequenceNumber"] by (simp add: request_of_def comp_def)
  moreover have "\<exists>i < length (heap ?cl). req_header (rh_request h) = fst (request_of ?cl i)" if "h \<in> set (sv_handlers c)" for h
  proof -
    have "req_header (rh_request h) \<in> set (map (fst \<circ> request_of ?cl) ids)" using that unfolding ids(1)[symmetric] by simp
    then show ?thesis using ids(3) registered_less by fastforce
  qed
  moreover have "\<exists>h \<in> set (sv_handlers c). SequenceNumber (req_header (rh_request h)) = seqno ?cl i \<and> rh_worker h \<noteq> Calling"
    if i: "i < length (cc_callers (sys_calls s))" "cc_callers (sys_calls s) ! i = CReturned None" for i
  proof -
    obtain p b where "p < length (sv_handlers (conn_at k (sys_process s)))"
      "good_response srv (sv_handlers (conn_at k (sys_process s)) ! p) (request_of ?cl i)
         (\<lparr>ServiceDotMethod = [], SequenceNumber = seqno ?cl i, Error = []\<rparr>, b)"
      "req_header (rh_request (sv_handlers (conn_at k (sys_process s)) ! p)) = fst (request_of ?cl i)"
      using returned_answered[OF assms i] by metis
    then show ?thesis using c(1) by (force simp: good_response_def request_of_def)
  qed
  ultimately show ?thesis using c(1) by simp
qed

theorem calls_run_at_most_once_witness:
  "\<exists>s. system_reach 0 sample_server s \<and> cc_callers (sys_calls s) = [CReturned None] \<and>
    sv_handlers (conn_at 0 (sys_process s)) \<noteq> [] \<and>
    distinct (map (\<lambda>h. SequenceNumber (req_header (rh_request h))) (sv_handlers (conn_at 0 (sys_process s))))"
proof -
  obtain s where s: "system_reach 0 sample_server s" "few_calls (sys_calls s)" "cc_callers (sys_calls s) = [CReturned None]"
    using sample_returned by blast
  with calls_run_at_most_once[OF s(1,2)] show ?thesis by force
qed

end
