(* ===== verification/Progress.thy ===== *)
theory Progress
  imports System
begin

text \<open>
  No call hangs: as long as a caller waits, a goroutine of the client or of its connection can move or
  something can be delivered, and there are only so many such steps.
\<close>

subsection \<open>Steps that nobody has to ask for\<close>

text \<open>
  What a client does only when its user asks for it: a new call, closing, cancelling a call.
\<close>

definition outside :: "Calls \<Rightarrow> Calls \<Rightarrow> bool" where
  "outside cs cs' \<longleftrightarrow>
     length (cc_callers cs) < length (cc_callers cs') \<or>
     cs' = cs\<lparr>cc_client := snd (client_Close (cc_client cs))\<rparr> \<or>
     (\<exists>i e. i < length (cc_callers cs) \<and> cc_callers cs ! i = CWaiting \<and>
        cs' = cs\<lparr>cc_client := snd (call_canceled e i (cc_client cs)),
                 cc_callers := (cc_callers cs)[i := CReturned (Some (ContextError e))]\<rparr>)"

text \<open>The other steps of the client, those of its connection, and what the network delivers.\<close>

inductive works :: "nat \<Rightarrow> System \<Rightarrow> System \<Rightarrow> bool" for k where
  client_works: "calls_step (sys_calls s) cs \<Longrightarrow> \<not> outside (sys_calls s) cs \<Longrightarrow>
    (reads_response (sys_calls s) cs \<longrightarrow>
       incoming (cl_coder (sys_client s)) \<noteq> [] \<or> sys_lost s \<or> \<not> conn_open (connection (cl_coder (sys_client s)))) \<Longrightarrow>
    works k s (s\<lparr>sys_calls := cs\<rparr>)"
| server_works: "pr_alive (sys_process s) \<Longrightarrow> k < length (pr_conns (sys_process s)) \<Longrightarrow>
    pr_conns (sys_process s) ! k = (limit, c) \<Longrightarrow>
    serve_step limit (with_server (pr_server (sys_process s)) c) c' \<Longrightarrow>
    (sv_pc c = Reading \<and> (sv_pc c' \<noteq> Reading \<or> incoming (conn_coder c') \<noteq> incoming (conn_coder c)) \<longrightarrow>
       Suc 0 < length (incoming (conn_coder c)) \<or> sys_lost s) \<Longrightarrow>
    works k s (s\<lparr>sys_process := (sys_process s)\<lparr>pr_server := sh_server (sv_shared c'),
      pr_conns := (pr_conns (sys_process s))[k := (limit, c')]\<rparr>\<rparr>)"
| up_works: "\<not> sys_lost s \<Longrightarrow> js = take n (drop (sys_up s) (sent (cl_coder (sys_client s)))) \<Longrightarrow> js \<noteq> [] \<Longrightarrow>
    works k s (s\<lparr>sys_process := deliver_request k js (sys_process s), sys_up := sys_up s + length js\<rparr>)"
| down_works: "\<not> sys_lost s \<Longrightarrow> js = take n (drop (sys_down s) (sent (conn_coder (conn_at k (sys_process s))))) \<Longrightarrow>
    js \<noteq> [] \<Longrightarrow>
    works k s (s\<lparr>sys_calls := deliver_response js (sys_calls s), sys_down := sys_down s + length js\<rparr>)"

lemma inside_length:
  assumes "calls_step cs cs'" and "\<not> outside cs cs'"
  shows "length (heap (cc_client cs')) = length (heap (cc_client cs))" and "length (cc_callers cs') = length (cc_callers cs)"
  using assms by (cases; force simp: outside_def dest!: heap_lengths frame_ops)+

text \<open>They are steps of the system.\<close>

lemma works_step: "works k s t \<Longrightarrow> system_step k srv s t"
proof (induction rule: works.induct)
  case (client_works s cs)
  then show ?case using inside_length[OF client_works(1,2)] by (intro client_moves) (auto simp: well_asked_def)
next
  case (server_works s limit c c')
  then show ?case
    by (intro server_moves pr_conn[where limit = limit]) (auto simp: reads_request_def)
next
  case (up_works s js n)
  then show ?case by (intro to_server)
next
  case (down_works s js n)
  then show ?case by (intro to_client)
qed

lemma works_few: "works k s t \<Longrightarrow> few_calls (sys_calls t) = few_calls (sys_calls s)"
  by (induction rule: works.induct) (auto simp: few_calls_def deliver_response_def inside_length(1))

lemma works_lost: "works k s t \<Longrightarrow> sys_lost t = sys_lost s"
  by (induction rule: works.induct) auto

subsection \<open>The client can move\<close>

lemma inside_caller:
  assumes "cc_callers cs' = (cc_callers cs)[i := p]" and "i < length (cc_callers cs)" and "p \<noteq> cc_callers cs ! i"
    and "(\<forall>r. p \<noteq> CReturned r) \<or> heap (cc_client cs') \<noteq> heap (cc_client cs)"
  shows "\<not> outside cs cs'"
proof -
  have ne: "cc_callers cs' \<noteq> cc_callers cs" using assms(1-3) by (metis nth_list_update_eq)
  have "False" if j: "j < length (cc_callers cs)" "cc_callers cs ! j = CWaiting"
      "cs' = cs\<lparr>cc_client := snd (call_canceled e j (cc_client cs)),
         cc_callers := (cc_callers cs)[j := CReturned (Some (ContextError e))]\<rparr>" for j e
  proof -
    have u: "(cc_callers cs)[j := CReturned (Some (ContextError e))] = (cc_callers cs)[i := p]" using j(3) assms(1) by simp
    from arg_cong[OF this, of "\<lambda>xs. xs ! j"] j(1,2) have "p = CReturned (Some (ContextError e))"
      by (cases "i = j") auto
    moreover have "heap (cc_client cs') = heap (cc_client cs)" by (simp add: j(3) call_canceled_def deleteCall_def)
    ultimately show False using assms(4) by auto
  qed
  moreover have "cs' \<noteq> cs\<lparr>cc_client := snd (client_Close (cc_client cs))\<rparr>" using ne by auto
  moreover have "length (cc_callers cs') = length (cc_callers cs)" using assms(1) by simp
  ultimately show ?thesis unfolding outside_def by auto
qed

lemma inside_receiver:
  assumes "cc_callers cs' = cc_callers cs" and "cc_receiver cs' \<noteq> cc_receiver cs"
  shows "\<not> outside cs cs'"
  using assms unfolding outside_def by auto

text \<open>The holder of the lock can move, and so can whoever waits for the lock when it is free.\<close>

lemma holder_moves:
  assumes inv: "calls_inv cs" and l: "cc_lock cs = Some j"
  shows "\<exists>cs'. calls_step cs cs' \<and> \<not> outside cs cs' \<and> cc_receiver cs' = cc_receiver cs"
proof -
  have j: "j < length (cc_callers cs)" "holds_lock (cc_callers cs ! j) = Some (seqno (cc_client cs) j)"
    using inv l by (auto simp: calls_inv_def lock_inv_def)
  show ?thesis
  proof (cases "cc_callers cs ! j")
    case (CEncoding k)
    obtain r c' where e: "send_encode j k (cc_client cs) = (r, c')" by fastforce
    show ?thesis
    proof (cases r)
      case None
      show ?thesis
        by (rule exI, intro conjI, rule encoded[OF j(1) CEncoding e[unfolded None]])
          (simp_all add: inside_caller[where i = j] j(1) CEncoding)
    next
      case (Some x)
      show ?thesis
        by (rule exI, intro conjI, rule not_encoded[OF j(1) CEncoding e[unfolded Some]])
          (simp_all add: inside_caller[where i = j] j(1) CEncoding)
    qed
  next
    case (CUndoing k x)
    then obtain c' where u: "send_undo x k (cc_client cs) = Some c'"
      using calls_inv_never_blocks[OF inv] j(1) unfolding never_blocks_def by (cases "send_undo x k (cc_client cs)") blast+
    show ?thesis
      by (rule exI, intro conjI, rule undo[OF j(1) CUndoing u])
        (simp_all add: inside_caller[where i = j] j(1) CUndoing)
  qed (use j(2) in auto)
qed

lemma sender_moves:
  assumes inv: "calls_inv cs" and i: "i < length (cc_callers cs)" and pc: "\<forall>r. cc_callers cs ! i \<noteq> CReturned r"
    and w: "cc_callers cs ! i \<noteq> CWaiting"
  shows "\<exists>cs'. calls_step cs cs' \<and> \<not> outside cs cs' \<and> cc_receiver cs' = cc_receiver cs"
proof (cases "cc_lock cs")
  case None
  then have "holds_lock (cc_callers cs ! i) = None" using inv i by (auto simp: calls_inv_def lock_inv_def)
  then have s: "cc_callers cs ! i = CSending" using pc w by (cases "cc_callers cs ! i") auto
  show ?thesis
  proof (cases "send_add i (cc_client cs)")
    case (Inl r)
    then obtain c' where "r = Some c'" using calls_inv_never_blocks[OF inv] i s by (cases r) (auto simp: never_blocks_def)
    note r = refuse[OF i s None Inl[unfolded this]]
    show ?thesis
      by (rule exI, intro conjI, rule r) (simp_all add: inside_caller[where i = i] i s)
  next
    case (Inr x)
    obtain q c' where "x = (q, c')" by fastforce
    note r = add[OF i s None Inr[unfolded this]]
    show ?thesis
      by (rule exI, intro conjI, rule r) (simp_all add: inside_caller[where i = i] i s)
  qed
qed (rule holder_moves[OF inv])

text \<open>A caller whose result is in its channel can take it.\<close>

lemma taker_moves:
  assumes inv: "calls_inv cs" and i: "i < length (cc_callers cs)" and pc: "cc_callers cs ! i = CWaiting"
    and r: "call_finished i (cc_client cs) = Some (r, c')"
  shows "\<exists>cs'. calls_step cs cs' \<and> \<not> outside cs cs' \<and> cc_receiver cs' = cc_receiver cs"
proof -
  have l: "i < length (heap (cc_client cs))" using caller_fields(1)[OF inv i] .
  have "call_Finish (heap c' ! i) \<noteq> call_Finish (heap (cc_client cs) ! i)"
    using r l by (auto simp: call_finished_def update_call_def split: prod.splits list.splits)
  then have "heap c' \<noteq> heap (cc_client cs)" by auto
  then have "\<not> outside cs (cs\<lparr>cc_client := c', cc_callers := (cc_callers cs)[i := CReturned r]\<rparr>)"
    by (intro inside_caller[where i = i]) (auto simp: i pc)
  with finish[OF i pc r] show ?thesis
    by (intro exI[of _ "cs\<lparr>cc_client := c', cc_callers := (cc_callers cs)[i := CReturned r]\<rparr>"]) simp
qed

text \<open>The receiver can move, when nobody holds the lock.\<close>

lemma receiver_moves:
  assumes inv: "calls_inv cs" and nd: "cc_receiver cs \<noteq> RDone" and l: "cc_lock cs = None"
  shows "\<exists>cs'. calls_step cs cs' \<and> \<not> outside cs cs'"
proof -
  have *: ?thesis if "calls_step cs (cs\<lparr>cc_client := c', cc_receiver := r\<rparr>)" "r \<noteq> cc_receiver cs" for c' r
    by (rule exI, rule conjI, rule that(1)) (rule inside_receiver; simp add: that(2))
  show ?thesis
  proof (cases "cc_receiver cs")
    case RHeader
    obtain x c' where x: "receive_header (cc_client cs) = (x, c')" by fastforce
    show ?thesis
    proof (cases x)
      case (Inl e)
      show ?thesis by (rule *[OF no_header[OF RHeader x[unfolded Inl]]]) (simp add: RHeader)
    next
      case (Inr h)
      show ?thesis by (rule *[OF header[OF RHeader x[unfolded Inr]]]) (simp add: RHeader)
    qed
  next
    case (RMatch h)
    obtain call c' where x: "deleteCall (SequenceNumber h) (cc_client cs) = (call, c')" by fastforce
    show ?thesis by (rule *[OF match_[OF RMatch x]]) (simp add: RMatch)
  next
    case (RBody h call)
    then obtain e c' where x: "receive_body h call (cc_client cs) = Some (e, c')"
      using calls_inv_never_blocks[OF inv] unfolding never_blocks_def by fastforce
    show ?thesis
    proof (cases e)
      case None
      show ?thesis by (rule *[OF body[OF RBody x[unfolded None]]]) (simp add: RBody)
    next
      case (Some y)
      show ?thesis by (rule *[OF bad_body[OF RBody x[unfolded Some]]]) (simp add: RBody)
    qed
  next
    case (RTerminate e)
    then obtain c' where x: "terminateCalls (LibError e) (cc_client cs) = Some c'"
      using calls_inv_never_blocks[OF inv] unfolding never_blocks_def by fastforce
    show ?thesis by (rule *[OF terminate[OF RTerminate l x]]) (simp add: RTerminate)
  qed (use nd in simp)
qed

subsection \<open>Where nothing can move\<close>

definition stuck :: "nat \<Rightarrow> System \<Rightarrow> bool" where
  "stuck k s \<longleftrightarrow> (\<forall>t. \<not> works k s t)"

lemma stuck_network:
  assumes "stuck k s" and "\<not> sys_lost s"
  shows "drop (sys_up s) (sent (cl_coder (sys_client s))) = []"
    and "drop (sys_down s) (sent (conn_coder (conn_at k (sys_process s)))) = []"
  using assms up_works[OF assms(2), of _ "length (sent (cl_coder (sys_client s)))" k, OF refl]
    down_works[OF assms(2), of _ "length (sent (conn_coder (conn_at k (sys_process s))))" k, OF refl]
  by (auto simp: stuck_def)

text \<open>
  The client: callers have returned, or they wait for a response that has not arrived, and the
  connection is there.
\<close>

lemma stuck_client:
  assumes q: "stuck k s" and inv: "calls_inv (sys_calls s)"
    and i: "i < length (cc_callers (sys_calls s))" and pc: "\<forall>r. cc_callers (sys_calls s) ! i \<noteq> CReturned r"
  shows "cc_callers (sys_calls s) ! i = CWaiting" and "owed (sys_calls s) i"
    and "cc_receiver (sys_calls s) = RHeader \<or> (\<exists>h call. cc_receiver (sys_calls s) = RBody h call)"
    and "incoming (cl_coder (sys_client s)) = []" and "\<not> sys_lost s" and "conn_open (connection (cl_coder (sys_client s)))"
proof -
  let ?cs = "sys_calls s"
  have no: False if "\<exists>cs'. calls_step ?cs cs' \<and> \<not> outside ?cs cs' \<and> cc_receiver cs' = cc_receiver ?cs"
    using that q client_works[of s] by (auto simp: stuck_def reads_response_def)
  show w: "cc_callers ?cs ! i = CWaiting" using sender_moves[OF inv i pc] no by blast
  have l: "cc_lock ?cs = None" using holder_moves[OF inv] no by (cases "cc_lock ?cs") blast+
  show o: "owed ?cs i" using waiting_owed[OF inv i w] taker_moves[OF inv i w] no by blast
  then have "cc_receiver ?cs \<noteq> RDone" by (simp add: owed_def)
  from receiver_moves[OF inv this l] obtain cs' where cs': "calls_step ?cs cs'" "\<not> outside ?cs cs'" by blast
  then have "\<not> (reads_response ?cs cs' \<longrightarrow> incoming (cl_coder (sys_client s)) \<noteq> [] \<or> sys_lost s \<or>
      \<not> conn_open (connection (cl_coder (sys_client s))))"
    using q client_works[OF cs'] by (auto simp: stuck_def)
  then show "cc_receiver ?cs = RHeader \<or> (\<exists>h call. cc_receiver ?cs = RBody h call)"
    "incoming (cl_coder (sys_client s)) = []" "\<not> sys_lost s" "conn_open (connection (cl_coder (sys_client s)))"
    by (auto simp: reads_response_def)
qed

text \<open>The connection: its handlers have sent their responses, and less than a request is in its stream.\<close>

lemma stuck_server:
  assumes q: "stuck k s" and al: "pr_alive (sys_process s)" and k: "k < length (pr_conns (sys_process s))"
    and c: "pr_conns (sys_process s) ! k = (limit, c)" and inv: "serve_inv limit c"
  shows "sv_pc c = Reading \<Longrightarrow> \<not> Suc 0 < length (incoming (conn_coder c))"
    and "h \<in> set (sv_handlers c) \<Longrightarrow> \<exists>r \<in> set (rh_sent h). SequenceNumber (fst r) = SequenceNumber (req_header (rh_request h))"
proof -
  let ?d = "with_server (pr_server (sys_process s)) c"
  have "(limit, c) \<in> set (pr_conns (sys_process s))" using k c by (metis nth_mem)
  then have p: "sh_panic (sv_shared ?d) = None" using al by (auto simp: pr_alive_def with_server_def)
  note no = server_works[OF al k c]
  show "\<not> Suc 0 < length (incoming (conn_coder c))" if "sv_pc c = Reading"
    using no[OF turn[OF p]] that q by (auto simp: stuck_def with_server_def)
  assume "h \<in> set (sv_handlers c)"
  then obtain j where j: "j < length (sv_handlers ?d)" "sv_handlers ?d ! j = h" by (auto simp: in_set_conv_nth with_server_def)
  then have h: "handler_inv limit h" using inv by (auto simp: serve_inv_def list_all_iff with_server_def)
  have "\<not> handler_step limit (h, sv_shared ?d) (h', sh')" for h' sh'
  proof
    assume st: "handler_step limit (h, sv_shared ?d) (h', sh')"
    have "incoming (sh_coder sh') = incoming (conn_coder c)" using handler_step_incoming[OF st] by (simp add: with_server_def)
    then show False
      using no[OF handler[OF j(1), of limit h' sh']] st j(2) q by (auto simp: stuck_def with_server_def)
  qed
  then have "rh_main h \<in> {Finished, ReturnedEarly}" using handler_progress[OF h p] by blast
  then have "length (rh_sent h) = 1" "list_all (answers (rh_request h)) (rh_sent h)" using h by (auto simp: handler_inv_def)
  then show "\<exists>r \<in> set (rh_sent h). SequenceNumber (fst r) = SequenceNumber (req_header (rh_request h))"
    by (auto simp: length_Suc_conv answers_def)
qed

subsection \<open>How much work there is\<close>

text \<open>
  Every step uses up something: a value that is still to be delivered costs more than one that has
  been, a request more than its response, a call that has not been sent more than its request.
\<close>

fun caller_rank :: "caller_pc \<Rightarrow> nat" where
  "caller_rank CSending = 187"
| "caller_rank (CEncoding k) = 186"
| "caller_rank (CUndoing k e) = 2"
| "caller_rank CWaiting = 1"
| "caller_rank (CReturned r) = 0"

fun receiver_rank :: "receiver_pc \<Rightarrow> nat" where
  "receiver_rank (RMatch h) = 4"
| "receiver_rank (RBody h call) = 3"
| "receiver_rank RHeader = 2"
| "receiver_rank (RTerminate e) = 1"
| "receiver_rank RDone = 0"

definition client_rank :: "Calls \<Rightarrow> nat" where
  "client_rank cs = sum_list (map caller_rank (cc_callers cs)) + receiver_rank (cc_receiver cs) +
     3 * length (incoming (cl_coder (cc_client cs)))"

definition conn_rank :: "Serving \<Rightarrow> nat" where
  "conn_rank c = serve_rank c + (if sh_panic (sv_shared c) = None then 1 else 0)"

definition system_rank :: "nat \<Rightarrow> System \<Rightarrow> nat" where
  "system_rank k s = client_rank (sys_calls s) + 9 * conn_rank (conn_at k (sys_process s)) +
     91 * (length (sent (cl_coder (sys_client s))) - sys_up s) +
     4 * (length (sent (conn_coder (conn_at k (sys_process s)))) - sys_down s)"

lemma sum_list_replace:
  "i < length xs \<Longrightarrow> sum_list (map f (xs[i := y])) + (f (xs ! i) :: nat) = sum_list (map f xs) + f y"
proof (induction xs arbitrary: i)
  case (Cons x xs)
  then show ?case by (cases i) auto
qed simp

lemma receive_header_shrinks:
  "receive_header c = (x, c') \<Longrightarrow> length (incoming (cl_coder c')) \<le> length (incoming (cl_coder c))"
  "receive_header c = (Inr h, c') \<Longrightarrow> length (incoming (cl_coder c')) < length (incoming (cl_coder c))"
  using header_shrinks by (fastforce simp: receive_header_def split: prod.splits option.splits)+

lemma receive_body_shrinks:
  "receive_body h call c = Some (e, c') \<Longrightarrow> length (incoming (cl_coder c')) \<le> length (incoming (cl_coder c))"
  using receive_body_coder[of h call c e c'] by (auto dest: body_shrinks)

lemma client_rank_step:
  assumes st: "calls_step cs cs'" and "\<not> outside cs cs'"
  shows "client_rank cs' < client_rank cs \<and>
    (sent (cl_coder (cc_client cs')) = sent (cl_coder (cc_client cs)) \<or> client_rank cs' + 184 \<le> client_rank cs)"
proof -
  note r = client_rank_def
  from st show ?thesis
  proof cases
    case (start f x y)
    then show ?thesis using assms(2) by (simp add: outside_def)
  next
    case (close e c')
    then show ?thesis using assms(2) unfolding outside_def by (metis snd_conv)
  next
    case (cancel i x e c')
    then have "e = Some (ContextError x)" by (simp add: call_canceled_def)
    then show ?thesis using cancel assms(2) unfolding outside_def by (metis snd_conv)
  next
    case (refuse i c')
    then show ?thesis
      using sum_list_replace[OF refuse(2), of caller_rank CWaiting] other_coder(6)[OF refuse(5)] by (simp add: r)
  next
    case (add i k c')
    then show ?thesis
      using sum_list_replace[OF add(2), of caller_rank "CEncoding k"] other_coder(7)[OF add(5)] by (simp add: r)
  next
    case (encoded i k c')
    then show ?thesis
      using sum_list_replace[OF encoded(2), of caller_rank CWaiting] send_encode_incoming[OF encoded(4)] by (simp add: r)
  next
    case (not_encoded i k e c')
    then show ?thesis
      using sum_list_replace[OF not_encoded(2), of caller_rank "CUndoing k e"] send_encode_incoming[OF not_encoded(4)]
      by (simp add: r)
  next
    case (undo i k e c')
    then show ?thesis
      using sum_list_replace[OF undo(2), of caller_rank CWaiting] other_coder(1)[OF undo(4)] by (simp add: r)
  next
    case (finish i e c')
    then show ?thesis
      using sum_list_replace[OF finish(2), of caller_rank "CReturned e"] other_coder(3)[OF finish(4)] by (simp add: r)
  next
    case (header h c')
    then show ?thesis
      using receive_header_shrinks(2)[OF header(3)] header_quiet[OF header(3)] by (simp add: r quiet_coder_def)
  next
    case (no_header e c')
    then show ?thesis
      using receive_header_shrinks(1)[OF no_header(3)] header_quiet[OF no_header(3)] by (simp add: r quiet_coder_def)
  next
    case (match_ h call c')
    then show ?thesis using other_coder(4)[OF match_(3)] by (simp add: r)
  next
    case (body h call c')
    then show ?thesis
      using receive_body_next[OF body(3)] receive_body_quiet[OF body(3)] by (auto simp: r quiet_coder_def)
  next
    case (bad_body h call e c')
    then show ?thesis
      using receive_body_shrinks[OF bad_body(3)] receive_body_quiet[OF bad_body(3)] by (simp add: r quiet_coder_def)
  next
    case (terminate e c')
    then show ?thesis using other_coder(5)[OF terminate(4)] by (simp add: r)
  qed
qed

lemma conn_rank_step:
  assumes "serve_step limit c c'"
  shows "conn_rank c' < conn_rank c"
  using assms
proof cases
  case turn
  have "serve_rank (loop_turn c) \<le> serve_rank c"
    using turn(2,3) by (cases rule: loop_turn_cases[of c])
      (use rank_turn[OF turn(3)] in \<open>auto simp: serve_rank_def dest: serve_turn_incoming\<close>)
  then show ?thesis using rank_turn[OF turn(3)] turn by (auto simp: conn_rank_def)
next
  case (handler i h' sh')
  then show ?thesis
    using handler_rank_step[OF handler(3)] handler_step_incoming[OF handler(3)]
      sum_list_replace[OF handler(2), of handler_rank h']
    by (auto simp: conn_rank_def serve_rank_def)
next
  case close
  then show ?thesis
    by (simp add: conn_rank_def serve_rank_def close_coder_def jc_Close_def conn_Close_def incoming_def)
qed

lemma conn_rank_with_server [simp]: "conn_rank (with_server srv c) = conn_rank c"
  by (simp add: conn_rank_def serve_rank_def with_server_def)

lemma serve_step_log1:
  "serve_step limit c c' \<Longrightarrow> \<exists>ms. sh_log (sv_shared c') = sh_log (sv_shared c) @ ms \<and> length ms \<le> 1"
proof (induction rule: serve_step.induct)
  case (turn s)
  show ?case by (cases rule: loop_turn_cases[of s]) simp_all
next
  case (handler i s h' sh')
  then show ?case using handler_step_log[OF handler(2)] by auto
qed (simp add: close_coder_def)

lemma frames_length: "length (frames ms) = 2 * length ms"
  by (induction ms) simp_all

text \<open>A call whose request has reached a stuck connection has its response in the log.\<close>

lemma stuck_answers:
  assumes q: "stuck k s" and al: "pr_alive (sys_process s)" and k: "k < length (pr_conns (sys_process s))"
    and c: "pr_conns (sys_process s) ! k = (limit, c)" and inv: "serve_inv limit c"
    and ci: "conn_inv srv (map (request_of cl) is) [] False c" and i: "i \<in> set is"
  shows "\<exists>r \<in> set (sh_log (sv_shared c)). SequenceNumber (fst r) = seqno cl i"
proof -
  obtain begun todo where o: "map (request_of cl) is = begun @ todo" "list_all2 (serving srv) (sv_handlers c) begun"
    and pcs: "sv_pc c = Reading" and lg: "logged c"
    and inc: "sh_panic (sv_shared c) = None \<longrightarrow> incoming (conn_coder c) = frames todo"
    using ci unfolding conn_inv_def by auto
  have "(limit, c) \<in> set (pr_conns (sys_process s))" using k c by (metis nth_mem)
  then have "incoming (conn_coder c) = frames todo" using inc al by (auto simp: pr_alive_def)
  then have "todo = []" using stuck_server(1)[OF q al k c inv pcs] by (cases todo) auto
  then have "request_of cl i \<in> set begun" using o(1) i by (metis append_Nil2 image_eqI list.set_map)
  then obtain j where j: "j < length begun" "begun ! j = request_of cl i" by (auto simp: in_set_conv_nth)
  let ?h = "sv_handlers c ! j"
  have m: "?h \<in> set (sv_handlers c)" using j(1) list_all2_lengthD[OF o(2)] by simp
  have "req_header (rh_request ?h) = fst (request_of cl i)"
    using list_all2_nthD2[OF o(2) j(1)] j(2) by (auto simp: serving_def)
  moreover obtain r where "r \<in> set (rh_sent ?h)" "SequenceNumber (fst r) = SequenceNumber (req_header (rh_request ?h))"
    using stuck_server(2)[OF q al k c inv m] by blast
  moreover have "set (rh_sent ?h) \<subseteq> set (sh_log (sv_shared c))" using lg m by (simp add: logged_def)
  ultimately show ?thesis by (intro bexI[of _ r]) (auto simp: request_of_def)
qed

lemma deliver_request_at:
  "k < length (pr_conns p) \<Longrightarrow> conn_at k (deliver_request k js p) =
     (conn_at k p)\<lparr>sv_shared := (sv_shared (conn_at k p))\<lparr>sh_coder := deliver js (conn_coder (conn_at k p))\<rparr>\<rparr>"
  by (simp add: deliver_request_def split: prod.split)

lemma works_rank:
  assumes "works k s t" and "system_inv k srv s"
  shows "system_rank k t < system_rank k s"
proof -
  obtain limit c start start' "is" where
    inv: "calls_inv (sys_calls s)" "matched (sys_calls s)" and ok: "\<forall>i < length (heap (sys_client s)). call_ok srv (heap (sys_client s) ! i)"
    and keeps: "keeps srv (pr_server (sys_process s))"
    and k: "k < length (pr_conns (sys_process s))" and c: "pr_conns (sys_process s) ! k = (limit, c)"
    and w: "wired limit start' c" and l: "linked srv start is c s"
    using assms(2) unfolding system_inv_def by blast
  from assms(1) show ?thesis
  proof cases
    case (client_works cs)
    have "well_asked srv (sys_calls s) cs" using inside_length(1)[OF client_works(2,3)] by (auto simp: well_asked_def)
    from linked_client[OF l client_works(2) inv this ok] obtain js where js: "length js \<le> 1"
      "linked srv start (is @ js) c (s\<lparr>sys_calls := cs\<rparr>)" by blast
    have "length (sent (cl_coder (sys_client s))) = length start + 2 * length is"
      "length (sent (cl_coder (cc_client cs))) = length start + 2 * length (is @ js)"
      using l js(2) by (simp_all add: linked_def written_def frames_length)
    then have "length (sent (cl_coder (cc_client cs))) \<le> length (sent (cl_coder (sys_client s))) + 2" using js(1) by simp
    then show ?thesis
      using client_rank_step[OF client_works(2,3)] client_works(1) by (auto simp: system_rank_def)
  next
    case (server_works limit' d c')
    then have d: "d = c" "limit' = limit" using c by auto
    let ?d = "with_server (pr_server (sys_process s)) c"
    have st: "serve_step limit ?d c'" using server_works(5) d by simp
    have "wired limit start' ?d" "encodable (sh_log (sv_shared c))" using w l conn_inv_encodable by (auto simp: linked_def)
    moreover obtain ms where ms: "sh_log (sv_shared c') = sh_log (sv_shared c) @ ms" "length ms \<le> 1"
      using serve_step_log1[OF st] by (auto simp: with_server_def)
    moreover have "linked srv start is c' (s\<lparr>sys_process := sys_process t\<rparr>) \<and> wired limit start' c'"
      by (rule linked_server[OF l w keeps st ok]) (use server_works(6) d in auto)
    then have "wired limit start' c'" "encodable (sh_log (sv_shared c'))" using conn_inv_encodable by (auto simp: linked_def)
    ultimately have "length (sent (conn_coder c')) \<le> length (sent (conn_coder c)) + 2"
      using w by (simp add: wired_def wire_inv_def frames_length)
    moreover have "conn_rank c' < conn_rank c" using conn_rank_step[OF st] by simp
    ultimately show ?thesis using server_works(1) c k by (simp add: system_rank_def)
  next
    case (up_works js n)
    have "sys_up s + length js \<le> length (sent (cl_coder (sys_client s)))" and js: "0 < length js"
      using take_drop_more[OF _ up_works(3)] l up_works(4) by (simp_all add: linked_def)
    then obtain d where "length (sent (cl_coder (sys_client s))) = sys_up s + length js + d" using le_Suc_ex by blast
    moreover have "conn_rank (conn_at k (deliver_request k js (sys_process s))) = conn_rank c + 10 * length js"
      using k c by (simp add: deliver_request_at conn_rank_def serve_rank_def)
    moreover have "sent (conn_coder (conn_at k (deliver_request k js (sys_process s)))) = sent (conn_coder c)"
      using k c by (simp add: deliver_request_at)
    ultimately show ?thesis using up_works(1) c js by (simp add: system_rank_def)
  next
    case (down_works js n)
    have "sys_down s + length js \<le> length (sent (conn_coder c))" "0 < length js"
      using take_drop_more[OF _ down_works(3)] l down_works(4) c by (simp_all add: linked_def)
    moreover from this obtain d where "length (sent (conn_coder c)) = sys_down s + length js + d" using le_Suc_ex by blast
    ultimately show ?thesis using down_works(1) c by (simp add: system_rank_def client_rank_def deliver_response_def)
  qed
qed

lemma reached_inv: "system_reach k srv s \<Longrightarrow> few_calls (sys_calls s) \<Longrightarrow> system_inv k srv s"
  using sy.reach_invar by blast

text \<open>The end of the run of the unit tests' call is such a state.\<close>

lemma idle_stuck:
  assumes cs: "cc_callers (sys_calls s) = [CReturned None]" "cc_receiver (sys_calls s) = RHeader"
      "incoming (cl_coder (sys_client s)) = []" "conn_open (connection (cl_coder (sys_client s)))" "\<not> sys_lost s"
    and net: "sys_up s = length (sent (cl_coder (sys_client s)))" "sys_down s = length (sent (conn_coder c))"
    and p: "sys_process s = \<lparr>pr_server = srv, pr_conns = [(limit, c)]\<rparr>" "sv_pc c = Reading" "incoming (conn_coder c) = []"
    and h: "sv_handlers c = [h]" "rh_main h = ReturnedEarly" "rh_worker h = WorkerEnded"
  shows "stuck 0 s"
  unfolding stuck_def
proof (intro allI notI)
  fix t assume "works 0 s t"
  then show False
  proof cases
    case (client_works cs')
    from client_works(2) show False
    proof cases
      case (start f x y)
      then show False using client_works(3) by (simp add: outside_def)
    next
      case (close e c')
      then show False using client_works(3) unfolding outside_def by (metis snd_conv)
    next
      case (header x c')
      then show False using client_works(4) cs by (simp add: reads_response_def)
    next
      case (no_header x c')
      then show False using client_works(4) cs by (simp add: reads_response_def)
    qed (use cs in auto)
  next
    case (server_works limit' d c')
    then have d: "d = c" "limit' = limit" using p(1) by auto
    from server_works(5) show False
    proof cases
      case turn
      obtain e jc where "serve_turn srv (conn_coder c) = (Stopped e, jc)" using turn_empty[OF p(3)] by blast
      then have "sv_pc c' = Waiting" using turn(1) d p(1) by (simp add: loop_turn_def with_server_def)
      then show False using server_works(6) p cs(5) d by simp
    next
      case (handler i h' sh')
      then show False using stuck_worker[of h] h d by (simp add: with_server_def)
    next
      case close
      then show False using p(2) d by (simp add: with_server_def)
    qed
  qed (use net p(1) in simp_all)
qed

subsection \<open>Properties\<close>

text \<open>
  C2. No call hangs: where nothing more can move, every call has returned. So while a caller waits there
  is a goroutine of the client or of its connection that can move, or something that the network can
  deliver, as long as the server has not crashed or the connection has been lost. (With any number of
  callers, other connections, limits, chunks; reads wait for what has not arrived.) The users of the
  client are those that \<open>well_asked\<close> admits, as in the first property: with an input or a reply that JSON
  cannot express a call can hang, since its header stays in the buffer and nothing is answered. And a
  method that has been called returns or panics, because it is a function: a method that never ends is
  a worker that could still move, so the theorem says nothing about a caller that waits for it.
\<close>

theorem every_call_returns:
  assumes "system_reach k srv s" and "few_calls (sys_calls s)" and "pr_alive (sys_process s) \<or> sys_lost s"
    and "stuck k s" and "i < length (cc_callers (sys_calls s))"
  shows "\<exists>r. cc_callers (sys_calls s) ! i = CReturned r"
proof (rule ccontr)
  assume "\<nexists>r. cc_callers (sys_calls s) ! i = CReturned r"
  then have pc: "\<forall>r. cc_callers (sys_calls s) ! i \<noteq> CReturned r" by blast
  let ?cs = "sys_calls s" and ?cl = "sys_client s"
  have "system_inv k srv s" by (rule reached_inv[OF assms(1,2)])
  then obtain limit c start start' "is" where
    inv: "calls_inv ?cs" and k: "k < length (pr_conns (sys_process s))" and c: "pr_conns (sys_process s) ! k = (limit, c)"
    and w: "serve_inv limit c" and l: "linked srv start is c s"
    unfolding system_inv_def wired_def by blast
  note sc = stuck_client[OF assms(4) inv assms(5) pc]
  have al: "pr_alive (sys_process s)" using assms(3) sc(5) by blast
  note net = stuck_network[OF assms(4) sc(5)]
  have rc: "receiving (sh_log (sv_shared c)) [] ?cs" using l net(2) c by (simp add: linked_def)
  then have h: "cc_receiver ?cs = RHeader" using sc(3,4) by (auto simp: receiving_def)
  then have out: "taken_out (sh_log (sv_shared c)) ?cl"
  proof -
    obtain pre post where "sh_log (sv_shared c) = pre @ post" "frames post = []" "taken_out pre ?cl"
      using rc sc(4) h by (auto simp: receiving_def)
    then show ?thesis by (cases post) auto
  qed
  have p: "pending ?cl i" using sc(2) h by (simp add: owed_def held_def)
  then have "i \<in> set is" using l sc(1,6) by (simp add: linked_def written_def)
  moreover have "conn_inv srv (map (request_of ?cl) is) [] False c" using l net(1) sc(5) by (simp add: linked_def)
  ultimately obtain r where "r \<in> set (sh_log (sv_shared c))" "SequenceNumber (fst r) = seqno ?cl i"
    using stuck_answers[OF assms(4) al k c w] by blast
  then have "map_of (pendingCalls ?cl) (seqno ?cl i) = None" using out by (metis taken_out_def)
  moreover have "table_inv ?cl" using inv by (simp add: calls_inv_def)
  ultimately show False using p pending_iff[of ?cl i] by simp
qed

theorem every_call_returns_witness:
  "\<exists>s r. system_reach 0 sample_server s \<and> pr_alive (sys_process s) \<and> stuck 0 s \<and>
     length (cc_callers (sys_calls s)) = 1 \<and> cc_callers (sys_calls s) ! 0 = CReturned r"
proof -
  obtain s c h where s: "system_reach 0 sample_server s" "few_calls (sys_calls s)" "cc_callers (sys_calls s) = [CReturned None]"
    "cc_receiver (sys_calls s) = RHeader" "incoming (cl_coder (sys_client s)) = []"
    "conn_open (connection (cl_coder (sys_client s)))" "\<not> sys_lost s"
    "sys_up s = length (sent (cl_coder (sys_client s)))" "sys_down s = length (sent (conn_coder c))"
    "sys_process s = \<lparr>pr_server = sh_server (sv_shared c), pr_conns = [(0, c)]\<rparr>" "sv_pc c = Reading"
    "sh_panic (sv_shared c) = None" "incoming (conn_coder c) = []"
    "sv_handlers c = [h]" "rh_main h = ReturnedEarly" "rh_worker h = WorkerEnded"
    using sample_returned by blast
  have st: "stuck 0 s" by (rule idle_stuck) (use s in simp_all)
  have al: "pr_alive (sys_process s)" using s(10,12) by (simp add: pr_alive_def)
  have "\<exists>r. cc_callers (sys_calls s) ! 0 = CReturned r"
    using every_call_returns[OF s(1,2) _ st, of 0] al s(3) by simp
  then show ?thesis using s(1,3) al st by (metis One_nat_def length_Cons list.size(3))
qed

text \<open>
  C4. The work of a system ends: from a reachable state the goroutines of the client and of its
  connection and the network can make at most \<^verbatim>\<open>system_rank\<close> steps, in whatever order, until the
  user of the client asks for something. (With the previous theorem: then every call has returned.) The
  users of the client are those that \<open>well_asked\<close> admits, and a method that is called returns.
\<close>

theorem work_is_bounded:
  assumes "system_reach k srv s" and "few_calls (sys_calls s)" and "(works k ^^ n) s t"
  shows "n \<le> system_rank k s"
proof -
  have "(works k ^^ n) s t \<Longrightarrow> system_inv k srv s \<Longrightarrow> few_calls (sys_calls s) \<Longrightarrow> n \<le> system_rank k s"
  proof (induction n arbitrary: s)
    case (Suc n)
    then obtain u where u: "works k s u" "(works k ^^ n) u t" by (meson relpowp_Suc_D2)
    have "system_inv k srv u" by (rule system_inv_step[OF works_step[OF u(1)] Suc.prems(2,3)])
    then have "n \<le> system_rank k u" using Suc.IH[OF u(2)] works_few[OF u(1)] Suc.prems(3) by blast
    then show ?case using works_rank[OF u(1) Suc.prems(2)] by simp
  qed simp
  then show ?thesis using assms reached_inv by blast
qed

theorem work_is_bounded_witness:
  "\<exists>s. system_reach 0 sample_server s \<and> \<not> stuck 0 s \<and> (\<forall>n t. (works 0 ^^ n) s t \<longrightarrow> n \<le> system_rank 0 s)"
proof -
  obtain cs where r: "system_reach 0 sample_server \<lparr>sys_calls = cs,
       sys_process = \<lparr>pr_server = sample_server, pr_conns = [(0, serve_start sample_server sample_coder)]\<rparr>,
       sys_up = 2, sys_down = 0, sys_lost = False\<rparr>" (is "system_reach 0 _ ?s")
    and h: "length (heap (cc_client cs)) = 1"
    using sample_delivered by fastforce
  have few: "few_calls (sys_calls ?s)" using h by (simp add: few_calls_def)
  let ?c = "serve_start sample_server sample_coder"
  have "serve_step 0 (with_server sample_server ?c) (loop_turn (with_server sample_server ?c))"
    by (rule turn) (simp_all add: serve_start_def with_server_def)
  moreover have "Suc 0 < length (incoming (conn_coder ?c))"
    by (simp add: serve_start_def sample_coder_def sample_sent(2) NewJsonCoder_def sample_connection_def incoming_def)
  ultimately have "\<not> stuck 0 ?s"
    using server_works[of ?s 0 0 ?c] unfolding stuck_def by (fastforce simp: pr_alive_def serve_start_def)
  then show ?thesis using work_is_bounded[OF r few] r by blast
qed

end
