(* ===== verification/Dial.thy ===== *)
theory Dial
  imports Client
begin

text \<open>
  Package client, the making of a client: the connection information, the dialing with its
  timeout, the HTTP handshake and \<^verbatim>\<open>CreateClient\<close>.
\<close>

subsection \<open>Connection information\<close>

text \<open>
  The argument list of pointers: \<open>None\<close> is nil. (In the last case the source stores the result
  through the caller's pointer as well.)
\<close>

definition ParseConnectionInfo :: "ConnectionInfo option list \<Rightarrow> go_error + ConnectionInfo" where
  "ParseConnectionInfo connectionInfos =
     (if connectionInfos = [] \<or> hd connectionInfos = None then Inr DefaultConnectionInfo
      else if length connectionInfos \<noteq> 1 then Inl ManyConnectionInfos
      else (let info = the (hd connectionInfos);
                info1 = info\<lparr>IDNumber := IDNumber DefaultConnectionInfo\<rparr>;
                info2 = (if CoderType info1 = [] then info1\<lparr>CoderType := CoderType DefaultConnectionInfo\<rparr> else info1)
            in Inr info2))"

subsection \<open>The response to CONNECT\<close>

text \<open>
  What \<^verbatim>\<open>http.ReadResponse\<close> makes of the bytes \<open>reply\<close>: the status of the first line, if that has
  a protocol version and a code of three digits, and if the header lines up to the first empty one
  have a colon. Lines end in a line feed, with an optional carriage return.
\<close>

definition strip_cr :: "string \<Rightarrow> string" where
  "strip_cr l = (if l \<noteq> [] \<and> last l = CHR 0x0D then butlast l else l)"

fun header_lines_ok :: "string list \<Rightarrow> bool" where
  "header_lines_ok [] = False"
| "header_lines_ok [l] = False"
| "header_lines_ok (l # m # ls) = (strip_cr l = [] \<or> CHR '':'' \<in> set l \<and> header_lines_ok (m # ls))"

definition http_version_ok :: "string \<Rightarrow> bool" where
  "http_version_ok p \<longleftrightarrow> length p = 8 \<and> take 5 p = ''HTTP/'' \<and> is_digit (p ! 5) \<and> p ! 6 = CHR ''.'' \<and> is_digit (p ! 7)"

definition http_ReadResponse :: "string \<Rightarrow> lib_error + string" where
  "http_ReadResponse reply =
     (case strings_Split CHR 0x0A reply of
        line # rest \<Rightarrow>
          (if rest = [] then Inl UnexpectedEOF
           else (let l = strip_cr line;
                     proto = takeWhile (\<lambda>c. c \<noteq> CHR '' '') l;
                     status = dropWhile (\<lambda>c. c = CHR '' '') (drop (length proto) l);
                     code = takeWhile (\<lambda>c. c \<noteq> CHR '' '') status
                 in if CHR '' '' \<notin> set l \<or> length code \<noteq> 3 \<or> \<not> list_all is_digit code \<or> \<not> http_version_ok proto
                    then Inl HttpMalformed
                    else if \<not> header_lines_ok rest then Inl HttpMalformed
                    else Inr status))
      | [] \<Rightarrow> Inl UnexpectedEOF)"

subsection \<open>Creating a client\<close>

text \<open>
  The information is encoded straight onto the connection, before the coder type is looked at. The
  receiver goroutine that is started belongs to the state machine of \<open>Client_Calls\<close>.
\<close>

definition write_info :: "connection \<Rightarrow> ConnectionInfo \<Rightarrow> lib_error option \<times> connection" where
  "write_info c info =
     (case marshal (info_value info) of
        None \<Rightarrow> (Some JsonUnsupported, c)
      | Some j \<Rightarrow>
          (if conn_open c then (None, c\<lparr>conn_sent := conn_sent c @ [j]\<rparr>) else (Some ConnClosed, c)))"

definition CreateClient :: "string \<Rightarrow> connection \<Rightarrow> ConnectionInfo \<Rightarrow> (go_error + Client) \<times> connection" where
  "CreateClient localAddr c info =
     (let coderFunction = map_of CoderInitializerMap (CoderType info);
          (err, c1) = write_info c info
      in case coderFunction of
           None \<Rightarrow> (Inl (InvalidCoderType (CoderType info)), c1)
         | Some f \<Rightarrow>
             (case err of
                Some e \<Rightarrow> (Inl (LibError e), snd (conn_Close c1))
              | None \<Rightarrow> (Inr (new_Client (f c1) info localAddr), c1)))"

text \<open>The HTTP handshake comes first; \<open>reply\<close> is what the peer answers to the CONNECT request.\<close>

definition connect_request :: string where
  "connect_request = ''CONNECT '' @ DefaultServerPath @ '' HTTP/1.0'' @ [CHR 0x0A, CHR 0x0A]"

definition CreateClientHTTP ::
  "(string \<Rightarrow> string) \<Rightarrow> string \<Rightarrow> connection \<Rightarrow> ConnectionInfo \<Rightarrow> (go_error + Client) \<times> connection" where
  "CreateClientHTTP reply localAddr c info =
     (case http_ReadResponse (reply connect_request) of
        Inr status \<Rightarrow>
          (if status = ConnectedToServerMessage then CreateClient localAddr c info
           else (Inl (UnexpectedStatus status), c))
      | Inl err \<Rightarrow> (Inl (LibError err), c))"

subsection \<open>Dialing\<close>

text \<open>
  What dialing meets outside: the outcome of \<^verbatim>\<open>net.DialTimeout\<close>, the local address of the
  connection, the answer to the HTTP request, and whether the timer fires before the client is
  created. The result has the connection, if there was one.
\<close>

record dial_env =
  de_dial :: "string \<Rightarrow> string \<Rightarrow> duration \<Rightarrow> lib_error + connection"
  de_local :: string
  de_reply :: "string \<Rightarrow> string"
  de_late :: bool

type_synonym dial_result = "(go_error + Client) \<times> connection option"

definition MakeDialWithTimeout ::
  "dial_env \<Rightarrow> (connection \<Rightarrow> ConnectionInfo \<Rightarrow> (go_error + Client) \<times> connection) \<Rightarrow> string \<Rightarrow> string \<Rightarrow>
     ConnectionInfo option list \<Rightarrow> dial_result" where
  "MakeDialWithTimeout env createClient protocol address connectionInfos =
     (case ParseConnectionInfo connectionInfos of
        Inl err \<Rightarrow> (Inl err, None)
      | Inr info \<Rightarrow>
          (case de_dial env protocol address (ConnectionTimeout info) of
             Inl err \<Rightarrow> (Inl (LibError err), None)
           | Inr c \<Rightarrow>
               (if ConnectionTimeout info \<noteq> 0 \<and> de_late env
                then (Inl ConnectTimeout, Some (snd (conn_Close c)))
                else case createClient c info of
                  (Inl err, c1) \<Rightarrow> (Inl err, Some (snd (conn_Close c1)))
                | (Inr client, c1) \<Rightarrow> (Inr client, Some c1))))"

definition MakeDialHTTP ::
  "dial_env \<Rightarrow> string \<Rightarrow> string \<Rightarrow> ConnectionInfo option list \<Rightarrow> dial_result" where
  "MakeDialHTTP env protocol address connectionInfos =
     MakeDialWithTimeout env (CreateClientHTTP (de_reply env) (de_local env)) protocol address connectionInfos"

definition MakeDial ::
  "dial_env \<Rightarrow> string \<Rightarrow> string \<Rightarrow> ConnectionInfo option list \<Rightarrow> dial_result" where
  "MakeDial env protocol address connectionInfos =
     MakeDialWithTimeout env (CreateClient (de_local env)) protocol address connectionInfos"

definition XMakeDial :: "dial_env \<Rightarrow> string \<Rightarrow> ConnectionInfo option list \<Rightarrow> dial_result" where
  "XMakeDial env protocolAtServerAddress connectionInfos =
     (case strings_Split CHR ''@'' protocolAtServerAddress of
        [protocol, serverAddress] \<Rightarrow>
          (if protocol = ''http'' then MakeDialHTTP env ''tcp'' serverAddress connectionInfos
           else MakeDial env protocol serverAddress connectionInfos)
      | _ \<Rightarrow> (Inl (WrongFormat protocolAtServerAddress), None))"

lemmas dial_defs [op_defs] = ParseConnectionInfo_def CreateClient_def CreateClientHTTP_def
  MakeDialWithTimeout_def MakeDialHTTP_def MakeDial_def XMakeDial_def

subsection \<open>Lemmas\<close>

lemma parsed_info:
  assumes "ParseConnectionInfo infos = Inr info"
  shows "IDNumber info = MagicNumber" and "CoderType info \<noteq> []"
  using assms
  by (auto simp: ParseConnectionInfo_def DefaultConnectionInfo_def Json_def Let_def split: if_splits)

lemma CreateClient_json:
  assumes "conn_open c" and "CoderType info = Json"
  shows "CreateClient addr c info =
    (let c1 = c\<lparr>conn_sent := conn_sent c @ [info_json info]\<rparr>
     in (Inr (new_Client (NewJsonCoder c1) info addr), c1))"
  using assms by (simp add: CreateClient_def write_info_def CoderInitializerMap_lookup Let_def)

lemma CreateClient_open:
  "CreateClient addr c info = (Inr client, c1) \<Longrightarrow> conn_open c1 \<and> connection (cl_coder client) = c1"
  by (auto simp: CreateClient_def write_info_def CoderInitializerMap_lookup NewJsonCoder_def new_Client_def
      Let_def split: if_splits)

lemma CreateClientHTTP_open:
  "CreateClientHTTP reply addr c info = (Inr client, c1) \<Longrightarrow> conn_open c1 \<and> connection (cl_coder client) = c1"
  by (auto simp: CreateClientHTTP_def dest: CreateClient_open split: sum.splits if_splits)

text \<open>A failed dial leaves no open connection; a client comes with an open one.\<close>

lemma dial_outcome:
  assumes "MakeDialWithTimeout env create p a infos = (r, oc)"
    and "\<And>c info client c1. create c info = (Inr client, c1) \<Longrightarrow> conn_open c1 \<and> connection (cl_coder client) = c1"
  shows "case r of
      Inl err \<Rightarrow> (\<forall>c. oc = Some c \<longrightarrow> \<not> conn_open c)
    | Inr client \<Rightarrow> oc = Some (connection (cl_coder client)) \<and> conn_open (connection (cl_coder client))"
  using assms
  by (auto simp: MakeDialWithTimeout_def conn_Close_def split: sum.splits if_splits prod.splits)

text \<open>The address that a server announces is dialed as its kind of server asks.\<close>

lemma XMakeDial_split:
  assumes "CHR ''@'' \<notin> set p" and "CHR ''@'' \<notin> set a"
  shows "XMakeDial env (p @ CHR ''@'' # a) infos =
    (if p = ''http'' then MakeDialHTTP env ''tcp'' a infos else MakeDial env p a infos)"
  using assms by (simp add: XMakeDial_def Split_append_sep Split_no_sep)

subsection \<open>Properties\<close>

text \<open>
  A dial that fails does not leak its connection: whatever fails after the connection is there
  (the handshake, the encoding of the information, the timeout), the connection is closed; and a
  client that is returned has an open one.
\<close>

theorem failed_dial_closes:
  assumes "XMakeDial env address infos = (r, Some c)"
  shows "conn_open c \<longleftrightarrow> (\<exists>client. r = Inr client \<and> connection (cl_coder client) = c)"
proof -
  obtain create p a where d: "MakeDialWithTimeout env create p a infos = (r, Some c)"
    and create: "create = CreateClient (de_local env) \<or> create = CreateClientHTTP (de_reply env) (de_local env)"
    using assms by (auto simp: XMakeDial_def MakeDial_def MakeDialHTTP_def split: list.splits if_splits)
  have "\<And>c info client c1. create c info = (Inr client, c1) \<Longrightarrow> conn_open c1 \<and> connection (cl_coder client) = c1"
    using create CreateClient_open CreateClientHTTP_open by blast
  from dial_outcome[OF d this] show ?thesis by (cases r) auto
qed

definition sample_dial :: dial_env where
  "sample_dial = \<lparr>de_dial = (\<lambda>_ _ _. Inr (sample_connection [])), de_local = ''tcp@127.0.0.1:7'',
     de_reply = (\<lambda>_. ''HTTP/1.0 404 Not Found'' @ [CHR 0x0A, CHR 0x0A]), de_late = False\<rparr>"

theorem failed_dial_closes_witness:
  "\<exists>c. XMakeDial sample_dial ''http@127.0.0.1:9'' [] = (Inl (UnexpectedStatus ''404 Not Found''), Some c) \<and> \<not> conn_open c"
proof -
  have "\<exists>c. XMakeDial sample_dial ''http@127.0.0.1:9'' [] = (Inl (UnexpectedStatus ''404 Not Found''), Some c)"
    by (simp add: XMakeDial_def MakeDialHTTP_def MakeDialWithTimeout_def ParseConnectionInfo_def CreateClientHTTP_def
        http_ReadResponse_def strip_cr_def http_version_ok_def is_digit_def sample_dial_def ConnectedToServerMessage_def Let_def)
  then obtain c where c: "XMakeDial sample_dial ''http@127.0.0.1:9'' [] = (Inl (UnexpectedStatus ''404 Not Found''), Some c)" by blast
  show ?thesis using failed_dial_closes[OF c] c by auto
qed

end
