(* ===== verification/Load_Balancer.thy ===== *)
theory Load_Balancer
  imports Go_Strings "HOL-Library.Multiset"
begin

text \<open>
  Package loadBalancer: the two load balancers behind the Go interface \<^verbatim>\<open>LoadBalancer\<close>. The
  client-side one selects from a list that its owner maintains; the registry-side one embeds it and
  refreshes the list from the registry when the list is older than a timeout. The interface is the
  locale \<open>load_balancer\<close>; both balancers interpret it.
\<close>

subsection \<open>Modes (load_balancer_interface.go)\<close>

type_synonym LoadBalancingMode = int

definition RandomSelectMode :: LoadBalancingMode where "RandomSelectMode = 0"
definition RoundRobinSelectMode :: LoadBalancingMode where "RoundRobinSelectMode = 1"
definition WeightRoundRobinSelectMode :: LoadBalancingMode where "WeightRoundRobinSelectMode = 2"
definition ConsistentHashSelectMode :: LoadBalancingMode where "ConsistentHashSelectMode = 3"

lemmas mode_defs = RandomSelectMode_def RoundRobinSelectMode_def WeightRoundRobinSelectMode_def
  ConsistentHashSelectMode_def

definition supported_mode :: "LoadBalancingMode \<Rightarrow> bool" where
  "supported_mode m \<longleftrightarrow> m = RandomSelectMode \<or> m = RoundRobinSelectMode"

subsection \<open>Client side (load_balancer_client_side.go)\<close>

text \<open>
  \<open>randomNumber\<close> is the stream of raw values of the \<^verbatim>\<open>rand.Rand\<close>; \<^verbatim>\<open>Intn(n)\<close> consumes one
  and is some value of \<open>{0..<n}\<close>. The index is a Go \<^verbatim>\<open>int\<close>.
\<close>

record rand_source =
  rand_value :: "nat \<Rightarrow> nat"
  rand_pos :: nat

definition rand_Intn :: "rand_source \<Rightarrow> nat \<Rightarrow> nat \<times> rand_source" where
  "rand_Intn r n = (rand_value r (rand_pos r) mod n, r\<lparr>rand_pos := Suc (rand_pos r)\<rparr>)"

record LoadBalancerClientSide =
  randomNumber :: rand_source
  serverList :: "string list"
  serverIndex :: nat

definition MaxInt32 :: nat where "MaxInt32 = 2 ^ 31 - 1"

definition CreateLoadBalancerClientSide ::
  "rand_source \<Rightarrow> string list \<Rightarrow> LoadBalancerClientSide" where
  "CreateLoadBalancerClientSide src servers =
     (let (i, src') = rand_Intn src (MaxInt32 - 1)
      in \<lparr>randomNumber = src', serverList = servers, serverIndex = i\<rparr>)"

definition cs_GetServer ::
  "LoadBalancerClientSide \<Rightarrow> LoadBalancingMode \<Rightarrow> (go_error + string) \<times> LoadBalancerClientSide" where
  "cs_GetServer lb mode =
     (let n = length (serverList lb)
      in if n = 0 then (Inl NoServers, lb)
         else if mode = RandomSelectMode then
           (let (i, src') = rand_Intn (randomNumber lb) n
            in (Inr (serverList lb ! i), lb\<lparr>randomNumber := src'\<rparr>))
         else if mode = RoundRobinSelectMode then
           (Inr (serverList lb ! (serverIndex lb mod n)),
            lb\<lparr>serverIndex := (serverIndex lb + 1) mod n\<rparr>)
         else (Inl UnknownMode, lb))"

definition cs_GetServerList ::
  "LoadBalancerClientSide \<Rightarrow> (go_error + string list) \<times> LoadBalancerClientSide" where
  "cs_GetServerList lb = (Inr (serverList lb), lb)"

definition cs_RefreshServerList ::
  "LoadBalancerClientSide \<Rightarrow> go_error option \<times> LoadBalancerClientSide" where
  "cs_RefreshServerList lb = (None, lb)"

definition cs_UpdateServerList ::
  "LoadBalancerClientSide \<Rightarrow> string list \<Rightarrow> go_error option \<times> LoadBalancerClientSide" where
  "cs_UpdateServerList lb servers = (None, lb\<lparr>serverList := servers\<rparr>)"

lemmas cs_defs [op_defs] = cs_GetServer_def cs_GetServerList_def cs_RefreshServerList_def
  cs_UpdateServerList_def rand_Intn_def

text \<open>The result of a selection, by mode.\<close>

lemma cs_GetServer_empty: "serverList lb = [] \<Longrightarrow> cs_GetServer lb mode = (Inl NoServers, lb)"
  by (simp add: cs_GetServer_def)

lemma cs_GetServer_unsupported:
  "serverList lb \<noteq> [] \<Longrightarrow> \<not> supported_mode mode \<Longrightarrow> cs_GetServer lb mode = (Inl UnknownMode, lb)"
  by (simp add: cs_GetServer_def supported_mode_def)

lemma cs_GetServer_round_robin:
  "serverList lb \<noteq> [] \<Longrightarrow>
   cs_GetServer lb RoundRobinSelectMode =
     (Inr (serverList lb ! (serverIndex lb mod length (serverList lb))),
      lb\<lparr>serverIndex := (serverIndex lb + 1) mod length (serverList lb)\<rparr>)"
  by (simp add: cs_GetServer_def mode_defs Let_def)

lemma cs_GetServer_serverList: "serverList (snd (cs_GetServer lb mode)) = serverList lb"
  by (auto simp: cs_defs Let_def split: prod.splits)

lemma cs_GetServer_member:
  "cs_GetServer lb mode = (Inr a, lb') \<Longrightarrow> a \<in> set (serverList lb)"
  by (auto simp: cs_defs Let_def split: if_splits prod.splits intro!: nth_mem)

lemma cs_GetServer_ok_iff:
  "(\<exists>a lb'. cs_GetServer lb mode = (Inr a, lb')) \<longleftrightarrow> serverList lb \<noteq> [] \<and> supported_mode mode"
  by (auto simp: cs_defs supported_mode_def Let_def)

subsection \<open>A run of selections\<close>

fun cs_GetServers ::
  "nat \<Rightarrow> LoadBalancerClientSide \<Rightarrow> LoadBalancingMode \<Rightarrow> (go_error + string) list \<times> LoadBalancerClientSide" where
  "cs_GetServers 0 lb mode = ([], lb)"
| "cs_GetServers (Suc k) lb mode =
     (let (r, lb') = cs_GetServer lb mode; (rs, lb'') = cs_GetServers k lb' mode in (r # rs, lb''))"

text \<open>The server that the \<open>j\<close>-th call of a round-robin run returns.\<close>

lemma rr_run:
  assumes "serverList lb \<noteq> []"
  shows "fst (cs_GetServers k lb RoundRobinSelectMode) =
           map (\<lambda>j. Inr (serverList lb ! ((serverIndex lb + j) mod length (serverList lb)))) [0..<k]"
  using assms
proof (induction k arbitrary: lb)
  case (Suc k)
  let ?n = "length (serverList lb)"
  let ?lb = "lb\<lparr>serverIndex := (serverIndex lb + 1) mod ?n\<rparr>"
  have "fst (cs_GetServers k ?lb RoundRobinSelectMode) =
          map (\<lambda>j. Inr (serverList lb ! (((serverIndex lb + 1) mod ?n + j) mod ?n))) [0..<k]"
    using Suc.IH[of ?lb] Suc.prems by simp
  also have "\<dots> = map (\<lambda>j. Inr (serverList lb ! ((serverIndex lb + j) mod ?n))) [1..<Suc k]"
    by (simp add: map_Suc_upt[symmetric] mod_add_left_eq comp_def del: upt_Suc)
  finally show ?case
    using Suc.prems
    by (simp add: cs_GetServer_round_robin Let_def split_def upt_conv_Cons del: upt_Suc)
qed simp

text \<open>A full turn of an index through a list is a rotation of the list.\<close>

lemma turn_rotate:
  "xs \<noteq> [] \<Longrightarrow> map (\<lambda>j. xs ! ((i + j) mod length xs)) [0..<length xs] = rotate i xs"
  by (rule nth_equalityI) (auto simp: nth_rotate add.commute)

lemma mset_rotate: "mset (rotate n xs) = mset xs"
  by (metis append_take_drop_id mset_append rotate_drop_take union_commute)

lemma rr_turn_mset:
  assumes "serverList lb \<noteq> []"
  shows "mset (fst (cs_GetServers (length (serverList lb)) lb RoundRobinSelectMode)) =
           mset (map Inr (serverList lb))"
proof -
  let ?xs = "serverList lb"
  have "fst (cs_GetServers (length ?xs) lb RoundRobinSelectMode) =
          map Inr (map (\<lambda>j. ?xs ! ((serverIndex lb + j) mod length ?xs)) [0..<length ?xs])"
    using assms by (simp add: rr_run)
  then have "fst (cs_GetServers (length ?xs) lb RoundRobinSelectMode) =
          map Inr (rotate (serverIndex lb) ?xs)"
    by (simp only: turn_rotate[OF assms])
  then show ?thesis by (simp add: mset_rotate)
qed

text \<open>
  The index stays below \<^verbatim>\<open>math.MaxInt32\<close> when the lists do, so that \<^verbatim>\<open>serverIndex + 1\<close> cannot
  overflow a Go \<^verbatim>\<open>int\<close> of either width and the natural numbers of the model are the machine's.
\<close>

definition index_ok :: "LoadBalancerClientSide \<Rightarrow> bool" where
  "index_ok lb \<longleftrightarrow> serverIndex lb < MaxInt32"

lemma index_ok_create: "index_ok (CreateLoadBalancerClientSide src servers)"
proof -
  have "rand_value src (rand_pos src) mod (MaxInt32 - 1) < MaxInt32 - 1"
    by (rule mod_less_divisor) (simp add: MaxInt32_def)
  then show ?thesis
    by (simp add: index_ok_def CreateLoadBalancerClientSide_def rand_Intn_def)
qed

lemma index_ok_GetServer:
  assumes "index_ok lb" and "length (serverList lb) \<le> MaxInt32"
  shows "index_ok (snd (cs_GetServer lb mode))"
proof -
  have "(serverIndex lb + 1) mod length (serverList lb) < MaxInt32" if "serverList lb \<noteq> []"
    using that assms(2) less_le_trans[OF mod_less_divisor[of "length (serverList lb)" "serverIndex lb + 1"]]
    by simp
  then show ?thesis
    using assms(1) by (auto simp: index_ok_def cs_GetServer_def rand_Intn_def Let_def)
qed

lemma index_ok_UpdateServerList: "index_ok lb \<Longrightarrow> index_ok (snd (cs_UpdateServerList lb servers))"
  by (simp add: index_ok_def cs_UpdateServerList_def)

subsection \<open>Registry side (load_balancer_registry_side.go)\<close>

record LoadBalancerRegistrySide =
  clientSide :: LoadBalancerClientSide
  registryURL :: string
  lbTimeout :: duration
  lastUpdate :: time

text \<open>
  What one call reads from outside: the clock when it decides whether to refresh, the answer of
  \<^verbatim>\<open>http.Get\<close> (an error, or a response with its header) and the clock after the answer.
\<close>

record refresh_env =
  env_now :: time
  env_get :: "string \<Rightarrow> go_error + http_header"
  env_later :: time

definition defaultUpdateTimeout :: duration where
  "defaultUpdateTimeout = time_Second * 10"

definition CreateLoadBalancerRegistrySide ::
  "rand_source \<Rightarrow> string \<Rightarrow> duration \<Rightarrow> LoadBalancerRegistrySide" where
  "CreateLoadBalancerRegistrySide src registerURL timeout =
     (let timeout' = (if timeout = 0 then defaultUpdateTimeout else timeout)
      in \<lparr>clientSide = CreateLoadBalancerClientSide src [], registryURL = registerURL,
          lbTimeout = timeout', lastUpdate = zero_time\<rparr>)"

definition rs_UpdateServerList ::
  "refresh_env \<Rightarrow> LoadBalancerRegistrySide \<Rightarrow> string list \<Rightarrow> go_error option \<times> LoadBalancerRegistrySide" where
  "rs_UpdateServerList env rs servers =
     (None, rs\<lparr>clientSide := (clientSide rs)\<lparr>serverList := servers\<rparr>, lastUpdate := env_now env\<rparr>)"

fun keep_servers :: "string list \<Rightarrow> string list" where
  "keep_servers [] = []"
| "keep_servers (s # ss) =
     (if strings_TrimSpace s \<noteq> [] then strings_TrimSpace s # keep_servers ss else keep_servers ss)"

definition rs_RefreshServerList ::
  "refresh_env \<Rightarrow> LoadBalancerRegistrySide \<Rightarrow> go_error option \<times> LoadBalancerRegistrySide" where
  "rs_RefreshServerList env rs =
     (if time_After (time_Add (lastUpdate rs) (lbTimeout rs)) (env_now env) then (None, rs)
      else case env_get env (registryURL rs) of
        Inl err \<Rightarrow> (Some err, rs)
      | Inr header \<Rightarrow>
          (let servers = strings_Split CHR '','' (header_Get header ''Get-SpartanRPC-AliveServers'')
           in (None, rs\<lparr>clientSide := (clientSide rs)\<lparr>serverList := keep_servers servers\<rparr>,
                       lastUpdate := env_later env\<rparr>)))"

definition rs_GetServer ::
  "refresh_env \<Rightarrow> LoadBalancerRegistrySide \<Rightarrow> LoadBalancingMode \<Rightarrow>
     (go_error + string) \<times> LoadBalancerRegistrySide" where
  "rs_GetServer env rs mode =
     (case rs_RefreshServerList env rs of
        (Some err, rs1) \<Rightarrow> (Inl err, rs1)
      | (None, rs1) \<Rightarrow>
          (let (r, lb) = cs_GetServer (clientSide rs1) mode in (r, rs1\<lparr>clientSide := lb\<rparr>)))"

definition rs_GetServerList ::
  "refresh_env \<Rightarrow> LoadBalancerRegistrySide \<Rightarrow> (go_error + string list) \<times> LoadBalancerRegistrySide" where
  "rs_GetServerList env rs =
     (case rs_RefreshServerList env rs of
        (Some err, rs1) \<Rightarrow> (Inl err, rs1)
      | (None, rs1) \<Rightarrow>
          (let (r, lb) = cs_GetServerList (clientSide rs1) in (r, rs1\<lparr>clientSide := lb\<rparr>)))"

lemmas rs_defs [op_defs] = rs_UpdateServerList_def rs_RefreshServerList_def rs_GetServer_def
  rs_GetServerList_def

abbreviation rs_servers :: "LoadBalancerRegistrySide \<Rightarrow> string list" where
  "rs_servers rs \<equiv> serverList (clientSide rs)"

lemma keep_servers_id: "\<forall>s \<in> set ss. trimmed s \<and> s \<noteq> [] \<Longrightarrow> keep_servers ss = ss"
  by (induction ss) (auto simp: TrimSpace_trimmed)

lemma keep_servers_eq: "keep_servers ss = filter (\<lambda>s. s \<noteq> []) (map strings_TrimSpace ss)"
  by (induction ss) auto

lemma rs_refresh_fresh:
  "env_now env < lastUpdate rs + lbTimeout rs \<Longrightarrow> rs_RefreshServerList env rs = (None, rs)"
  by (simp add: rs_RefreshServerList_def time_defs)

lemma rs_refresh_stale:
  "lastUpdate rs + lbTimeout rs \<le> env_now env \<Longrightarrow> env_get env (registryURL rs) = Inr header \<Longrightarrow>
   \<exists>rs1. rs_RefreshServerList env rs = (None, rs1) \<and> lastUpdate rs1 = env_later env \<and>
         rs_servers rs1 = keep_servers (strings_Split CHR '','' (header_Get header ''Get-SpartanRPC-AliveServers''))"
  by (simp add: rs_RefreshServerList_def time_defs Let_def)

lemma rs_refresh_error:
  "lastUpdate rs + lbTimeout rs \<le> env_now env \<Longrightarrow> env_get env (registryURL rs) = Inl err \<Longrightarrow>
   rs_RefreshServerList env rs = (Some err, rs)"
  by (simp add: rs_RefreshServerList_def time_defs)

subsection \<open>The interface\<close>

text \<open>
  What a caller of the Go interface \<^verbatim>\<open>LoadBalancer\<close> may rely on. \<open>'e\<close> is what one call reads from
  outside. Every selection is made from the list as a refresh in the same surroundings leaves it.
\<close>

locale load_balancer =
  fixes get_server :: "'e \<Rightarrow> 's \<Rightarrow> LoadBalancingMode \<Rightarrow> (go_error + string) \<times> 's"
    and get_list :: "'e \<Rightarrow> 's \<Rightarrow> (go_error + string list) \<times> 's"
    and refresh :: "'e \<Rightarrow> 's \<Rightarrow> go_error option \<times> 's"
    and update :: "'e \<Rightarrow> 's \<Rightarrow> string list \<Rightarrow> go_error option \<times> 's"
    and servers :: "'s \<Rightarrow> string list"
  assumes refresh_failed: "refresh e s = (Some err, s1) \<Longrightarrow>
      get_server e s m = (Inl err, s1) \<and> get_list e s = (Inl err, s1) \<and> servers s1 = servers s"
    and select_empty: "refresh e s = (None, s1) \<Longrightarrow> servers s1 = [] \<Longrightarrow>
      fst (get_server e s m) = Inl NoServers"
    and select_unknown: "refresh e s = (None, s1) \<Longrightarrow> servers s1 \<noteq> [] \<Longrightarrow> \<not> supported_mode m \<Longrightarrow>
      fst (get_server e s m) = Inl UnknownMode"
    and select_member: "refresh e s = (None, s1) \<Longrightarrow> servers s1 \<noteq> [] \<Longrightarrow> supported_mode m \<Longrightarrow>
      \<exists>a \<in> set (servers s1). fst (get_server e s m) = Inr a"
    and select_keeps: "refresh e s = (None, s1) \<Longrightarrow> servers (snd (get_server e s m)) = servers s1"
    and list_servers: "refresh e s = (None, s1) \<Longrightarrow> fst (get_list e s) = Inr (servers s1)"
    and list_keeps: "refresh e s = (None, s1) \<Longrightarrow> servers (snd (get_list e s)) = servers s1"
    and update_servers: "fst (update e s xs) = None \<and> servers (snd (update e s xs)) = xs"
begin

text \<open>A selected server is one that a listing in the same surroundings returns.\<close>

lemma selected_listed:
  assumes "get_server e s m = (Inr a, s')"
  shows "\<exists>xs. fst (get_list e s) = Inr xs \<and> a \<in> set xs \<and> servers s' = xs"
proof (cases "refresh e s")
  case (Pair r s1)
  with assms have r: "refresh e s = (None, s1)"
    using refresh_failed[of e s _ s1 m] by (cases r) auto
  have ne: "servers s1 \<noteq> []"
    using assms select_empty[OF r, of m] by auto
  moreover have "supported_mode m"
    using assms select_unknown[OF r ne, of m] by auto
  ultimately obtain b where "b \<in> set (servers s1)" "fst (get_server e s m) = Inr b"
    using select_member[OF r] by blast
  with assms show ?thesis
    using list_servers[OF r] select_keeps[OF r, of m] by auto
qed

text \<open>A selection fails only for one of the three documented reasons.\<close>

lemma selection_error:
  assumes "get_server e s m = (Inl err, s')"
  shows "(\<exists>s1. refresh e s = (Some err, s1)) \<or>
         (\<exists>s1. refresh e s = (None, s1) \<and> (servers s1 = [] \<and> err = NoServers \<or>
                 servers s1 \<noteq> [] \<and> \<not> supported_mode m \<and> err = UnknownMode))"
proof (cases "refresh e s")
  case (Pair r s1)
  show ?thesis
  proof (cases r)
    case None
    with Pair have r: "refresh e s = (None, s1)" by simp
    show ?thesis
      using assms r select_empty[OF r, of m] select_unknown[OF r, of m] select_member[OF r, of m]
      by (cases "servers s1 = []"; cases "supported_mode m") auto
  next
    case (Some x)
    with Pair assms refresh_failed[of e s x s1 m] show ?thesis by simp
  qed
qed

end

text \<open>A balancer that never refreshes serves the list it was given last.\<close>

locale static_load_balancer = load_balancer +
  assumes refresh_static: "refresh e s = (None, s)"
begin

lemma select_after_update:
  assumes "update e s xs = (r, s1)" and "get_server e' s1 m = (Inr a, s2)"
  shows "a \<in> set xs \<and> servers s2 = xs"
proof -
  have "servers s1 = xs" using update_servers[of e s xs] assms(1) by simp
  then show ?thesis
    using selected_listed[OF assms(2)] list_servers[OF refresh_static, of e' s1] by auto
qed

end

interpretation cs: static_load_balancer "\<lambda>_. cs_GetServer" "\<lambda>_. cs_GetServerList"
    "\<lambda>_. cs_RefreshServerList" "\<lambda>_. cs_UpdateServerList" serverList
  by unfold_locales (auto simp: cs_defs supported_mode_def mode_defs Let_def)

interpretation rs: load_balancer rs_GetServer rs_GetServerList rs_RefreshServerList
    rs_UpdateServerList rs_servers
proof unfold_locales
  fix e s s1 m
  assume r: "rs_RefreshServerList e s = (None, s1)"
  show "rs_servers s1 = [] \<Longrightarrow> fst (rs_GetServer e s m) = Inl NoServers"
    using r by (simp add: rs_GetServer_def cs_GetServer_def)
  show "rs_servers s1 \<noteq> [] \<Longrightarrow> \<not> supported_mode m \<Longrightarrow> fst (rs_GetServer e s m) = Inl UnknownMode"
    using r by (simp add: rs_GetServer_def cs_GetServer_unsupported)
  show "rs_servers s1 \<noteq> [] \<Longrightarrow> supported_mode m \<Longrightarrow>
          \<exists>a \<in> set (rs_servers s1). fst (rs_GetServer e s m) = Inr a"
    using r cs_GetServer_ok_iff[of "clientSide s1" m] cs_GetServer_member[of "clientSide s1" m]
    by (fastforce simp: rs_GetServer_def)
  show "rs_servers (snd (rs_GetServer e s m)) = rs_servers s1"
    using r cs_GetServer_serverList[of "clientSide s1" m]
    by (cases "cs_GetServer (clientSide s1) m") (simp add: rs_GetServer_def)
  show "fst (rs_GetServerList e s) = Inr (rs_servers s1)"
    using r by (simp add: rs_GetServerList_def cs_GetServerList_def)
  show "rs_servers (snd (rs_GetServerList e s)) = rs_servers s1"
    using r by (simp add: rs_GetServerList_def cs_GetServerList_def)
qed (auto simp: rs_defs Let_def split: if_splits sum.splits)

subsection \<open>Properties\<close>

text \<open>
  C36. Round robin is fair: in as many consecutive selections as there are servers, from whatever
  index, every entry of the list is selected exactly as often as it is listed.
\<close>

theorem round_robin_fair:
  assumes "serverList lb \<noteq> []"
  shows "mset (fst (cs_GetServers (length (serverList lb)) lb RoundRobinSelectMode)) = mset (map Inr (serverList lb))"
  using assms by (rule rr_turn_mset)

definition sample_source :: rand_source where
  "sample_source = \<lparr>rand_value = (\<lambda>_. 1), rand_pos = 0\<rparr>"

theorem round_robin_fair_witness:
  "mset (fst (cs_GetServers 3 (CreateLoadBalancerClientSide sample_source [''a'', ''b'', ''c'']) RoundRobinSelectMode)) =
   {#Inr ''a'', Inr ''b'', Inr ''c''#}"
proof -
  have "serverList (CreateLoadBalancerClientSide sample_source [''a'', ''b'', ''c'']) = [''a'', ''b'', ''c'']"
    by (simp add: CreateLoadBalancerClientSide_def split: prod.split)
  then show ?thesis
    using round_robin_fair[of "CreateLoadBalancerClientSide sample_source [''a'', ''b'', ''c'']"]
    by (simp add: numeral_3_eq_3 del: cs_GetServers.simps)
qed

text \<open>
  The \<open>j\<close>-th selection of a round-robin run is the entry \<open>j\<close> places after the index, modulo the
  length of the list; no selection of the run fails.
\<close>

lemma round_robin_order:
  assumes "serverList lb \<noteq> []" and "j < k"
  shows "fst (cs_GetServers k lb RoundRobinSelectMode) ! j =
    Inr (serverList lb ! ((serverIndex lb + j) mod length (serverList lb)))"
  using assms(2) by (simp add: rr_run[OF assms(1)])

text \<open>Any use of a client-side balancer.\<close>

datatype cs_op = OpGetServer LoadBalancingMode | OpGetServerList | OpRefresh | OpUpdate "string list"

definition cs_apply :: "LoadBalancerClientSide \<Rightarrow> cs_op \<Rightarrow> LoadBalancerClientSide" where
  "cs_apply lb op = (case op of
      OpGetServer m \<Rightarrow> snd (cs_GetServer lb m)
    | OpGetServerList \<Rightarrow> snd (cs_GetServerList lb)
    | OpRefresh \<Rightarrow> snd (cs_RefreshServerList lb)
    | OpUpdate xs \<Rightarrow> snd (cs_UpdateServerList lb xs))"

definition op_small :: "cs_op \<Rightarrow> bool" where
  "op_small op \<longleftrightarrow> (case op of OpUpdate xs \<Rightarrow> length xs \<le> MaxInt32 | _ \<Rightarrow> True)"

lemma index_ok_apply:
  assumes "index_ok lb" and "length (serverList lb) \<le> MaxInt32" and "op_small op"
  shows "index_ok (cs_apply lb op) \<and> length (serverList (cs_apply lb op)) \<le> MaxInt32"
proof (cases op)
  case (OpGetServer m)
  then show ?thesis
    using index_ok_GetServer[OF assms(1,2), of m] assms(2) by (simp add: cs_apply_def cs_GetServer_serverList)
qed (use assms in \<open>simp_all add: cs_apply_def cs_GetServerList_def cs_RefreshServerList_def
      cs_UpdateServerList_def index_ok_def op_small_def\<close>)

text \<open>
  C40. The index never overflows: after any sequence of operations on lists of at most 2^31 - 1
  servers the index is below \<^verbatim>\<open>math.MaxInt32\<close>, so \<^verbatim>\<open>serverIndex + 1\<close> fits a Go int of 32 bits.
\<close>

theorem index_never_overflows:
  assumes "length servers \<le> MaxInt32" and "\<forall>op \<in> set ops. op_small op"
  shows "serverIndex (foldl cs_apply (CreateLoadBalancerClientSide src servers) ops) + 1 < 2 ^ 31"
proof -
  have "index_ok lb \<Longrightarrow> length (serverList lb) \<le> MaxInt32 \<Longrightarrow> \<forall>op \<in> set ops. op_small op \<Longrightarrow>
      index_ok (foldl cs_apply lb ops)" for lb
    by (induction ops arbitrary: lb) (use index_ok_apply in auto)
  moreover have "serverList (CreateLoadBalancerClientSide src servers) = servers"
    by (simp add: CreateLoadBalancerClientSide_def split: prod.split)
  ultimately have "index_ok (foldl cs_apply (CreateLoadBalancerClientSide src servers) ops)"
    using index_ok_create[of src servers] assms by simp
  then show ?thesis by (simp add: index_ok_def MaxInt32_def)
qed

theorem index_never_overflows_witness:
  "serverIndex (foldl cs_apply (CreateLoadBalancerClientSide sample_source [''a'', ''b''])
     [OpGetServer RoundRobinSelectMode, OpUpdate [''c''], OpRefresh, OpGetServer RoundRobinSelectMode]) + 1 < 2 ^ 31"
  by (rule index_never_overflows) (simp_all add: op_small_def MaxInt32_def)

text \<open>
  A server selected by the registry-side balancer is one that a listing at the same moment
  returns, and the list it was selected from is the balancer's list afterwards.
\<close>

lemma registry_selection_is_listed:
  assumes "rs_GetServer env rs mode = (Inr a, rs1)"
  shows "\<exists>xs. fst (rs_GetServerList env rs) = Inr xs \<and> a \<in> set xs \<and> rs_servers rs1 = xs"
  by (rule rs.selected_listed[OF assms])

definition sample_env :: refresh_env where
  "sample_env = \<lparr>env_now = 50, env_get = (\<lambda>_. Inr (header_Set ''Get-SpartanRPC-AliveServers'' ''a, b'' [])), env_later = 60\<rparr>"

text \<open>
  A selection fails for one of three reasons only: the refresh failed (and its error is the
  result), the refreshed list is empty, or the mode is neither random nor round robin.
\<close>

theorem registry_selection_errors:
  assumes "rs_GetServer env rs mode = (Inl err, rs1)"
  shows "(\<exists>rs2. rs_RefreshServerList env rs = (Some err, rs2)) \<or>
    (\<exists>rs2. rs_RefreshServerList env rs = (None, rs2) \<and> (rs_servers rs2 = [] \<and> err = NoServers \<or>
       rs_servers rs2 \<noteq> [] \<and> \<not> supported_mode mode \<and> err = UnknownMode))"
  by (rule rs.selection_error[OF assms])

theorem registry_selection_errors_witness:
  "(\<exists>rs2. rs_RefreshServerList sample_env (CreateLoadBalancerRegistrySide sample_source ''u'' 100) = (Some NoServers, rs2)) \<or>
   (\<exists>rs2. rs_RefreshServerList sample_env (CreateLoadBalancerRegistrySide sample_source ''u'' 100) = (None, rs2) \<and>
      rs_servers rs2 = [])"
proof -
  let ?rs = "CreateLoadBalancerRegistrySide sample_source ''u'' 100"
  have "rs_RefreshServerList sample_env ?rs = (None, ?rs)"
    by (rule rs_refresh_fresh) (simp add: CreateLoadBalancerRegistrySide_def sample_env_def time_defs)
  then have "\<exists>rs1. rs_GetServer sample_env ?rs RandomSelectMode = (Inl NoServers, rs1)"
    by (simp add: rs_GetServer_def cs_GetServer_def CreateLoadBalancerRegistrySide_def CreateLoadBalancerClientSide_def
        sample_source_def rand_Intn_def)
  then obtain rs1 where "rs_GetServer sample_env ?rs RandomSelectMode = (Inl NoServers, rs1)" by blast
  from registry_selection_errors[OF this] show ?thesis by blast
qed

text \<open>
  The list is fetched exactly when it is older than the timeout: before that a refresh changes
  nothing and asks nobody; after it a failed fetch keeps the old list and a successful one replaces
  it by the trimmed non-empty entries of the header and restarts the timeout.
\<close>

lemma refresh_when_stale:
  "rs_RefreshServerList env rs =
     (if env_now env < lastUpdate rs + lbTimeout rs then (None, rs)
      else case env_get env (registryURL rs) of
        Inl err \<Rightarrow> (Some err, rs)
      | Inr header \<Rightarrow> (None, rs\<lparr>clientSide := (clientSide rs)\<lparr>serverList :=
            filter (\<lambda>s. s \<noteq> []) (map strings_TrimSpace
              (strings_Split CHR '','' (header_Get header ''Get-SpartanRPC-AliveServers'')))\<rparr>,
            lastUpdate := env_later env\<rparr>))"
  by (simp add: rs_RefreshServerList_def time_defs keep_servers_eq Let_def split: sum.split)

end
