(* ===== verification/Load_Balanced_Client.thy ===== *)
theory Load_Balanced_Client
  imports Dial Load_Balancer
begin

text \<open>
  Package client, the load-balanced client: one client per server address, dialed when it is first
  needed or when the old one is no longer available, and a call to one selected server. The
  broadcast to all servers is in \<open>Broadcast\<close>.
\<close>

subsection \<open>State\<close>

text \<open>
  Pointers to clients are positions in \<open>clients\<close>. \<open>'lb\<close> is the state of the load balancer; its
  operations are arguments, as in the locale \<open>load_balancer\<close>.
\<close>

record 'lb LoadBalancedClient =
  lbc_loadBalancer :: 'lb
  lbc_mode :: LoadBalancingMode
  lbc_connectionInfo :: "ConnectionInfo option"
  serverAddressToClientMap :: "(string, nat) dict"
  clients :: "Client list"

definition CreateLoadBalancedClient ::
  "'lb \<Rightarrow> LoadBalancingMode \<Rightarrow> ConnectionInfo option \<Rightarrow> 'lb LoadBalancedClient" where
  "CreateLoadBalancedClient lb mode info =
     \<lparr>lbc_loadBalancer = lb, lbc_mode = mode, lbc_connectionInfo = info,
      serverAddressToClientMap = [], clients = []\<rparr>"

subsection \<open>Closing\<close>

definition close_client :: "nat \<Rightarrow> 'lb LoadBalancedClient \<Rightarrow> 'lb LoadBalancedClient" where
  "close_client i l = l\<lparr>clients := (clients l)[i := snd (client_Close (clients l ! i))]\<rparr>"

fun close_entries :: "(string, nat) dict \<Rightarrow> 'lb LoadBalancedClient \<Rightarrow> 'lb LoadBalancedClient" where
  "close_entries [] l = l"
| "close_entries ((a, i) # es) l =
     (let l1 = close_client i l
      in close_entries es (l1\<lparr>serverAddressToClientMap := AList.delete a (serverAddressToClientMap l1)\<rparr>))"

definition lbc_Close :: "'lb LoadBalancedClient \<Rightarrow> go_error option \<times> 'lb LoadBalancedClient" where
  "lbc_Close l = (None, close_entries (serverAddressToClientMap l) l)"

subsection \<open>Dialing\<close>

definition lbc_dial ::
  "dial_env \<Rightarrow> string \<Rightarrow> 'lb LoadBalancedClient \<Rightarrow> (go_error + nat) \<times> 'lb LoadBalancedClient" where
  "lbc_dial env a l =
     (let (client, l1) =
        (case map_of (serverAddressToClientMap l) a of
           Some i \<Rightarrow>
             (if \<not> IsAvailable (clients l ! i)
              then (None, (close_client i l)\<lparr>serverAddressToClientMap := AList.delete a (serverAddressToClientMap l)\<rparr>)
              else (Some i, l))
         | None \<Rightarrow> (None, l))
      in case client of
           Some i \<Rightarrow> (Inr i, l1)
         | None \<Rightarrow>
             (case fst (XMakeDial env a [lbc_connectionInfo l1]) of
                Inl err \<Rightarrow> (Inl err, l1)
              | Inr c \<Rightarrow>
                  (let i = length (clients l1)
                   in (Inr i, l1\<lparr>clients := clients l1 @ [c],
                        serverAddressToClientMap := AList.update a i (serverAddressToClientMap l1)\<rparr>))))"

subsection \<open>Calls\<close>

text \<open>
  \<open>invoke i\<close> is the call on client \<open>i\<close> (\<open>Client.Call\<close>, whose runs are those of \<open>Client_Calls\<close>):
  its error and what it leaves in the output.
\<close>

type_synonym call_result = "go_error option \<times> reflect_value option"

definition lbc_call ::
  "dial_env \<Rightarrow> (nat \<Rightarrow> call_result) \<Rightarrow> string \<Rightarrow> reflect_value option \<Rightarrow> 'lb LoadBalancedClient \<Rightarrow>
     call_result \<times> 'lb LoadBalancedClient" where
  "lbc_call env invoke a output l =
     (case lbc_dial env a l of
        (Inl err, l1) \<Rightarrow> ((Some err, output), l1)
      | (Inr i, l1) \<Rightarrow> (invoke i, l1))"

definition lbc_Call ::
  "('lb \<Rightarrow> LoadBalancingMode \<Rightarrow> (go_error + string) \<times> 'lb) \<Rightarrow> dial_env \<Rightarrow> (nat \<Rightarrow> call_result) \<Rightarrow>
     reflect_value option \<Rightarrow> 'lb LoadBalancedClient \<Rightarrow> call_result \<times> 'lb LoadBalancedClient" where
  "lbc_Call get_server env invoke output l =
     (case get_server (lbc_loadBalancer l) (lbc_mode l) of
        (Inl err, lb) \<Rightarrow> ((Some err, output), l\<lparr>lbc_loadBalancer := lb\<rparr>)
      | (Inr a, lb) \<Rightarrow> lbc_call env invoke a output (l\<lparr>lbc_loadBalancer := lb\<rparr>))"

lemmas lbc_defs [op_defs] = lbc_Close_def lbc_dial_def lbc_call_def lbc_Call_def

subsection \<open>The map of clients\<close>

definition lbc_inv :: "'lb LoadBalancedClient \<Rightarrow> bool" where
  "lbc_inv l \<longleftrightarrow> dict_ok (serverAddressToClientMap l) \<and>
     (\<forall>(a, i) \<in> set (serverAddressToClientMap l). i < length (clients l))"

lemma client_Close_unavailable: "\<not> IsAvailable (snd (client_Close c))"
  by (auto simp: client_Close_def IsAvailable_def Let_def split: prod.splits)

lemma close_client_fields [simp]:
  "serverAddressToClientMap (close_client i l) = serverAddressToClientMap l"
  "lbc_connectionInfo (close_client i l) = lbc_connectionInfo l"
  "length (clients (close_client i l)) = length (clients l)"
  by (simp_all add: close_client_def)

lemma close_client_closed:
  "i < length (clients l) \<Longrightarrow> \<not> IsAvailable (clients (close_client i l) ! i)"
  "\<not> IsAvailable (clients l ! j) \<Longrightarrow> j < length (clients l) \<Longrightarrow> \<not> IsAvailable (clients (close_client i l) ! j)"
  using client_Close_unavailable
  by (simp add: close_client_def) (cases "i = j"; simp add: close_client_def client_Close_unavailable)

lemma close_entries_closed:
  "\<forall>(a, i) \<in> set es. i < length (clients l) \<Longrightarrow>
   length (clients (close_entries es l)) = length (clients l) \<and>
   (\<forall>j < length (clients l). \<not> IsAvailable (clients l ! j) \<or> j \<in> snd ` set es \<longrightarrow>
      \<not> IsAvailable (clients (close_entries es l) ! j)) \<and>
   map_of (serverAddressToClientMap (close_entries es l)) =
     (\<lambda>a. if a \<in> keys es then None else map_of (serverAddressToClientMap l) a)"
proof (induction es l rule: close_entries.induct)
  case (2 a i es l)
  let ?l1 = "close_client i l"
  let ?l2 = "?l1\<lparr>serverAddressToClientMap := AList.delete a (serverAddressToClientMap ?l1)\<rparr>"
  have IH: "length (clients (close_entries es ?l2)) = length (clients ?l2) \<and>
   (\<forall>j < length (clients ?l2). \<not> IsAvailable (clients ?l2 ! j) \<or> j \<in> snd ` set es \<longrightarrow>
      \<not> IsAvailable (clients (close_entries es ?l2) ! j)) \<and>
   map_of (serverAddressToClientMap (close_entries es ?l2)) =
     (\<lambda>b. if b \<in> keys es then None else map_of (serverAddressToClientMap ?l2) b)"
    using "2.IH"[OF refl] "2.prems" by auto
  moreover have "\<not> IsAvailable (clients ?l2 ! j)"
    if "j < length (clients l)" "\<not> IsAvailable (clients l ! j) \<or> j = i" for j
    using that close_client_closed[where l = l] by auto
  ultimately show ?case
    by (auto simp: Let_def delete_conv' fun_eq_iff)
qed simp

text \<open>After a dial the address has an available client, or the dial failed and it has none.\<close>

lemma XMakeDial_available:
  assumes "fst (XMakeDial env a infos) = Inr c"
  shows "IsAvailable c \<and> conn_open (connection (cl_coder c))"
proof -
  have "IsAvailable client" if "CreateClient addr c' info = (Inr client, c1)" for client addr c' info c1
    using that by (auto simp: CreateClient_def new_Client_def IsAvailable_def Let_def
        split: option.splits prod.splits)
  moreover have "conn_open (connection (cl_coder client))"
    if "CreateClient addr c' info = (Inr client, c1)" for client addr c' info c1
    using CreateClient_open[OF that] by auto
  ultimately show ?thesis
    using assms
    by (auto simp: XMakeDial_def MakeDial_def MakeDialHTTP_def MakeDialWithTimeout_def CreateClientHTTP_def
        split: list.splits if_splits sum.splits prod.splits)
qed

lemma lbc_dial_result:
  assumes "lbc_dial env a l = (r, l')"
  shows "case r of
      Inl err \<Rightarrow> map_of (serverAddressToClientMap l') a = None
    | Inr i \<Rightarrow> map_of (serverAddressToClientMap l') a = Some i \<and> IsAvailable (clients l' ! i)"
  using assms
  by (auto simp: lbc_dial_def Let_def delete_conv' update_conv' nth_append dest!: XMakeDial_available
      split: option.splits if_splits sum.splits)

lemma lbc_dial_other:
  assumes "lbc_dial env a l = (r, l')" and "b \<noteq> a"
  shows "map_of (serverAddressToClientMap l') b = map_of (serverAddressToClientMap l) b"
  using assms
  by (auto simp: lbc_dial_def Let_def delete_conv' update_conv'
      split: option.splits if_splits sum.splits)

lemma set_update_dict: "set (AList.update k v m) \<subseteq> insert (k, v) (set m)"
  by (induction m) auto

lemma set_delete_dict: "set (AList.delete k m) \<subseteq> set m"
  by (simp add: AList.delete_eq)

lemma lbc_inv_drop:
  "lbc_inv l \<Longrightarrow> lbc_inv ((close_client i l)\<lparr>serverAddressToClientMap := AList.delete a (serverAddressToClientMap l)\<rparr>)"
  using set_delete_dict[of a "serverAddressToClientMap l"] by (auto simp: lbc_inv_def dict_ok_delete)

lemma lbc_inv_put:
  "lbc_inv l \<Longrightarrow> lbc_inv (l\<lparr>clients := clients l @ [c],
     serverAddressToClientMap := AList.update a (length (clients l)) (serverAddressToClientMap l)\<rparr>)"
  using set_update_dict[of a "length (clients l)" "serverAddressToClientMap l"]
  by (fastforce simp: lbc_inv_def dict_ok_update intro: less_SucI)

lemma lbc_inv_dial:
  assumes inv: "lbc_inv l" and "lbc_dial env a l = (r, l')"
  shows "lbc_inv l'"
proof -
  define l1 where "l1 = (case map_of (serverAddressToClientMap l) a of
      Some i \<Rightarrow> (if \<not> IsAvailable (clients l ! i)
        then (close_client i l)\<lparr>serverAddressToClientMap := AList.delete a (serverAddressToClientMap l)\<rparr> else l)
    | None \<Rightarrow> l)"
  have l1: "lbc_inv l1" using inv lbc_inv_drop[OF inv] by (simp add: l1_def split: option.split)
  have "l' = l1 \<or> (\<exists>c. l' = l1\<lparr>clients := clients l1 @ [c],
      serverAddressToClientMap := AList.update a (length (clients l1)) (serverAddressToClientMap l1)\<rparr>)"
    using assms(2) by (auto simp: lbc_dial_def l1_def Let_def split: option.splits if_splits sum.splits)
  with l1 lbc_inv_put[OF l1] show ?thesis by auto
qed

subsection \<open>A call goes to a listed server\<close>

context load_balancer
begin

lemma call_outside:
  assumes "lbc_loadBalancer l = s" and "lbc_Call (get_server e) env invoke output l = ((None, out), l')"
  shows "\<exists>a xs i. fst (get_list e s) = Inr xs \<and> a \<in> set xs \<and>
     map_of (serverAddressToClientMap l') a = Some i \<and> invoke i = (None, out)"
proof -
  obtain a lb where g: "get_server e s (lbc_mode l) = (Inr a, lb)"
    using assms by (auto simp: lbc_Call_def split: prod.splits sum.splits)
  then obtain i l1 where d: "lbc_dial env a (l\<lparr>lbc_loadBalancer := lb\<rparr>) = (Inr i, l1)" "invoke i = (None, out)" "l1 = l'"
    using assms by (auto simp: lbc_Call_def lbc_call_def split: prod.splits sum.splits)
  show ?thesis
    using selected_listed[OF g] lbc_dial_result[OF d(1)] d(2,3) by auto
qed

end

subsection \<open>Properties\<close>

text \<open>
  Dialing through the load-balanced client keeps one client per address: a successful dial leaves
  an available client under the address (the old one if it was available, otherwise a new one), a
  failed dial leaves none, and the clients of other addresses stay.
\<close>

theorem one_client_per_address:
  assumes "lbc_dial env a l = (r, l')"
  shows "(case r of
      Inl err \<Rightarrow> map_of (serverAddressToClientMap l') a = None
    | Inr i \<Rightarrow> map_of (serverAddressToClientMap l') a = Some i \<and> IsAvailable (clients l' ! i)) \<and>
    (\<forall>b. b \<noteq> a \<longrightarrow> map_of (serverAddressToClientMap l') b = map_of (serverAddressToClientMap l) b)"
  using lbc_dial_result[OF assms] lbc_dial_other[OF assms] by blast

definition sample_lbc :: "LoadBalancerClientSide LoadBalancedClient" where
  "sample_lbc = CreateLoadBalancedClient (CreateLoadBalancerClientSide sample_source [''tcp@a'', ''tcp@b'']) RoundRobinSelectMode None"

lemma sample_lbc_dial: "\<exists>l'. lbc_dial sample_dial ''tcp@b'' (sample_lbc\<lparr>lbc_loadBalancer := lb\<rparr>) = (Inr 0, l') \<and> lbc_loadBalancer l' = lb"
  by (simp add: lbc_dial_def sample_lbc_def CreateLoadBalancedClient_def XMakeDial_def MakeDial_def MakeDialWithTimeout_def
      ParseConnectionInfo_def sample_dial_def CreateClient_json DefaultConnectionInfo_def sample_connection_def Let_def)

theorem one_client_per_address_witness:
  "\<exists>l'. lbc_dial sample_dial ''tcp@b'' sample_lbc = (Inr 0, l') \<and> map_of (serverAddressToClientMap l') ''tcp@b'' = Some 0 \<and>
     IsAvailable (clients l' ! 0)"
proof -
  obtain l' where l: "lbc_dial sample_dial ''tcp@b'' sample_lbc = (Inr 0, l')"
    using sample_lbc_dial[of "lbc_loadBalancer sample_lbc"] by auto
  from one_client_per_address[OF l] l show ?thesis by auto
qed

text \<open>
  Closing the load-balanced client closes every client that it manages and forgets them all.
\<close>

theorem close_closes_all:
  assumes "lbc_inv l"
  shows "let l' = snd (lbc_Close l) in map_of (serverAddressToClientMap l') = Map.empty \<and>
    (\<forall>a i. map_of (serverAddressToClientMap l) a = Some i \<longrightarrow> \<not> IsAvailable (clients l' ! i))"
proof -
  let ?m = "serverAddressToClientMap l"
  have r: "\<forall>(a, i) \<in> set ?m. i < length (clients l)" using assms by (simp add: lbc_inv_def)
  note c = close_entries_closed[OF r]
  have "a \<notin> keys ?m \<Longrightarrow> map_of ?m a = None" for a by (simp add: map_of_eq_None_iff)
  then have "map_of (serverAddressToClientMap (close_entries ?m l)) = Map.empty"
    using c by (auto simp: fun_eq_iff)
  moreover have "\<not> IsAvailable (clients (close_entries ?m l) ! i)" if "map_of ?m a = Some i" for a i
    using c r map_of_SomeD[OF that] by (force simp: image_iff)
  ultimately show ?thesis by (auto simp: lbc_Close_def Let_def)
qed

theorem close_closes_all_witness:
  "\<exists>l. lbc_dial sample_dial ''tcp@b'' sample_lbc = (Inr 0, l) \<and> \<not> IsAvailable (clients (snd (lbc_Close l)) ! 0)"
proof -
  obtain l where l: "lbc_dial sample_dial ''tcp@b'' sample_lbc = (Inr 0, l)"
    using sample_lbc_dial[of "lbc_loadBalancer sample_lbc"] by auto
  have "lbc_inv sample_lbc" by (simp add: lbc_inv_def sample_lbc_def CreateLoadBalancedClient_def)
  then have "lbc_inv l" using l by (rule lbc_inv_dial)
  moreover have "map_of (serverAddressToClientMap l) ''tcp@b'' = Some 0" using lbc_dial_result[OF l] by simp
  ultimately show ?thesis using close_closes_all[of l] l by (auto simp: Let_def)
qed

text \<open>
  C33. A load-balanced call that succeeds was made by the client of a server that the balancer lists
  at that moment, over the connection dialed for that server's address.
\<close>

theorem balanced_call_goes_to_listed:
  assumes "lbc_Call (rs_GetServer e) env invoke output l = ((None, out), l')"
  shows "\<exists>a xs i. fst (rs_GetServerList e (lbc_loadBalancer l)) = Inr xs \<and> a \<in> set xs \<and>
    map_of (serverAddressToClientMap l') a = Some i \<and> invoke i = (None, out)"
  by (rule rs.call_outside[OF refl assms])

definition sample_balancer :: LoadBalancerRegistrySide where
  "sample_balancer = (CreateLoadBalancerRegistrySide sample_source ''u'' 100)
     \<lparr>clientSide := CreateLoadBalancerClientSide sample_source [''tcp@a'', ''tcp@b'']\<rparr>"

theorem balanced_call_goes_to_listed_witness:
  "\<exists>l' i. lbc_Call (rs_GetServer sample_env) sample_dial (\<lambda>_. (None, None)) None
       (CreateLoadBalancedClient sample_balancer RoundRobinSelectMode None) = ((None, None), l') \<and>
     (map_of (serverAddressToClientMap l') ''tcp@a'' = Some i \<or> map_of (serverAddressToClientMap l') ''tcp@b'' = Some i)"
proof -
  let ?l = "CreateLoadBalancedClient sample_balancer RoundRobinSelectMode None"
  have f: "rs_RefreshServerList sample_env sample_balancer = (None, sample_balancer)"
    by (rule rs_refresh_fresh) (simp add: sample_balancer_def CreateLoadBalancerRegistrySide_def sample_env_def time_defs)
  have lst: "rs_servers sample_balancer = [''tcp@a'', ''tcp@b'']"
    by (simp add: sample_balancer_def CreateLoadBalancerClientSide_def split: prod.split)
  have "serverIndex (clientSide sample_balancer) = 1"
    by (simp add: sample_balancer_def CreateLoadBalancerClientSide_def rand_Intn_def sample_source_def MaxInt32_def)
  then have "\<exists>rs1. rs_GetServer sample_env sample_balancer RoundRobinSelectMode = (Inr ''tcp@b'', rs1)"
    using lst by (simp add: rs_GetServer_def f cs_GetServer_round_robin)
  then have "\<exists>l'. lbc_Call (rs_GetServer sample_env) sample_dial (\<lambda>_. (None, None)) None ?l = ((None, None), l')"
    by (auto simp: lbc_Call_def lbc_call_def lbc_dial_def CreateLoadBalancedClient_def XMakeDial_def MakeDial_def
        MakeDialWithTimeout_def ParseConnectionInfo_def sample_dial_def CreateClient_json DefaultConnectionInfo_def
        sample_connection_def Let_def)
  then obtain l' where l: "lbc_Call (rs_GetServer sample_env) sample_dial (\<lambda>_. (None, None)) None ?l = ((None, None), l')" by blast
  have "fst (rs_GetServerList sample_env (lbc_loadBalancer ?l)) = Inr [''tcp@a'', ''tcp@b'']"
    using lst by (simp add: rs_GetServerList_def cs_GetServerList_def f CreateLoadBalancedClient_def)
  then show ?thesis using balanced_call_goes_to_listed[OF l] l by auto
qed

end
