(* ===== verification/Broadcast.thy ===== *)
theory Broadcast
  imports Load_Balanced_Client
begin

text \<open>
  Package client, the broadcast of the load-balanced client: one goroutine for each server of the
  list, which dials, calls and reports under a mutex. The goroutines are a step relation; the
  reference is the sequence of the reports alone, and every run of the goroutines agrees with it.
\<close>

subsection \<open>Reports\<close>

text \<open>
  The variables that the goroutines share under the mutex. A goroutine that completes reports its
  server address, the error of its call and what its cloned reply points to; \<open>known\<close> is the map of
  clients as it is when the goroutine reads it (without the lock of the map).
\<close>

record broadcast =
  broadcastError :: "go_error option"
  replyDone :: bool
  bc_output :: "reflect_value option"
  canceled :: bool

definition set_output :: "reflect_value option \<Rightarrow> go_value \<Rightarrow> reflect_value option" where
  "set_output output v = map_option (\<lambda>rv. rv\<lparr>rv_Val := VPtr v\<rparr>) output"

definition broadcast_start :: "reflect_value option \<Rightarrow> broadcast" where
  "broadcast_start output =
     \<lparr>broadcastError = None, replyDone = (output = None), bc_output = output, canceled = False\<rparr>"

definition broadcast_report ::
  "string set \<Rightarrow> string \<times> go_error option \<times> go_value \<Rightarrow> broadcast \<Rightarrow> broadcast go" where
  "broadcast_report known report b =
     (case report of (a, err, reply) \<Rightarrow>
        (let b1 = (if err \<noteq> None \<and> broadcastError b = None
                   then b\<lparr>broadcastError := err, canceled := True\<rparr> else b)
         in if err = None \<and> \<not> replyDone b1
            then (if a \<notin> known then Panic NilDereference
                  else Ret (b1\<lparr>bc_output := set_output (bc_output b1) reply, replyDone := True\<rparr>))
            else Ret b1))"

fun broadcast_run ::
  "(string set \<times> string \<times> go_error option \<times> go_value) list \<Rightarrow> broadcast \<Rightarrow> broadcast go" where
  "broadcast_run [] b = Ret b"
| "broadcast_run ((known, r) # rs) b = go_bind (broadcast_report known r b) (broadcast_run rs)"

text \<open>
  The reply of each goroutine is a new value of the type that the output points to; reflection
  panics when the output is neither nil nor a pointer to something.
\<close>

definition clonable :: "reflect_value option \<Rightarrow> bool" where
  "clonable output \<longleftrightarrow> output = None \<or> pointer_target output \<noteq> None"

text \<open>
  The reference: \<open>reports\<close> gives the reports of the goroutines, one for each server of the list, in
  the order in which they complete.
\<close>

definition lbc_BroadcastCall ::
  "('lb \<Rightarrow> (go_error + string list) \<times> 'lb) \<Rightarrow>
   (string list \<Rightarrow> (string set \<times> string \<times> go_error option \<times> go_value) list) \<Rightarrow>
   reflect_value option \<Rightarrow> 'lb LoadBalancedClient \<Rightarrow> call_result go \<times> 'lb LoadBalancedClient" where
  "lbc_BroadcastCall get_list reports output l =
     (case get_list (lbc_loadBalancer l) of
        (Inl err, lb) \<Rightarrow> (Ret (Some err, output), l\<lparr>lbc_loadBalancer := lb\<rparr>)
      | (Inr servers, lb) \<Rightarrow>
          (if servers \<noteq> [] \<and> \<not> clonable output then Panic ReflectPanic
           else go_bind (broadcast_run (reports servers) (broadcast_start output))
                  (\<lambda>b. Ret (broadcastError b, bc_output b)),
           l\<lparr>lbc_loadBalancer := lb\<rparr>))"

subsection \<open>Goroutines\<close>

text \<open>
  A goroutine dials (under the mutex of the map of clients), calls, and reports under the mutex of
  the broadcast. \<open>may c err reply\<close> says what a call on the client \<open>c\<close> can return; once the broadcast
  is canceled it can also return the error of its context. A client may change at any time (its
  own goroutines run, or others call it). \<open>br_log\<close> records the reports, with the goroutines' numbers.
\<close>

datatype broadcast_pc =
    BDial
  | BCalling nat
  | BReporting "go_error option" go_value
  | BDone

record 'lb Broadcasting =
  br_lbc :: "'lb LoadBalancedClient"
  br_shared :: broadcast
  br_servers :: "string list"
  br_pcs :: "broadcast_pc list"
  br_panic :: "go_panic option"
  br_log :: "(nat \<times> string set \<times> string \<times> go_error option \<times> go_value) list"

abbreviation br_keys :: "'lb Broadcasting \<Rightarrow> string set" where
  "br_keys s \<equiv> keys (serverAddressToClientMap (br_lbc s))"

definition bc_start :: "'lb LoadBalancedClient \<Rightarrow> string list \<Rightarrow> reflect_value option \<Rightarrow> 'lb Broadcasting" where
  "bc_start l servers output = \<lparr>br_lbc = l, br_shared = broadcast_start output, br_servers = servers,
     br_pcs = replicate (length servers) BDial, br_panic = None, br_log = []\<rparr>"

inductive broadcast_step ::
  "(Client \<Rightarrow> go_error option \<Rightarrow> go_value \<Rightarrow> bool) \<Rightarrow> 'lb Broadcasting \<Rightarrow> 'lb Broadcasting \<Rightarrow> bool" for may where
  bc_clone_panic: "br_panic s = None \<Longrightarrow> k < length (br_pcs s) \<Longrightarrow> br_pcs s ! k = BDial \<Longrightarrow>
    \<not> clonable (bc_output (br_shared s)) \<Longrightarrow>
    broadcast_step may s (s\<lparr>br_panic := Some ReflectPanic\<rparr>)"
| bc_dialed: "br_panic s = None \<Longrightarrow> k < length (br_pcs s) \<Longrightarrow> br_pcs s ! k = BDial \<Longrightarrow>
    clonable (bc_output (br_shared s)) \<Longrightarrow>
    lbc_dial env (br_servers s ! k) (br_lbc s) = (Inr i, l) \<Longrightarrow>
    broadcast_step may s (s\<lparr>br_lbc := l, br_pcs := (br_pcs s)[k := BCalling i]\<rparr>)"
| bc_not_dialed: "br_panic s = None \<Longrightarrow> k < length (br_pcs s) \<Longrightarrow> br_pcs s ! k = BDial \<Longrightarrow>
    clonable (bc_output (br_shared s)) \<Longrightarrow>
    lbc_dial env (br_servers s ! k) (br_lbc s) = (Inl err, l) \<Longrightarrow>
    broadcast_step may s (s\<lparr>br_lbc := l, br_pcs := (br_pcs s)[k := BReporting (Some err) reply]\<rparr>)"
| bc_returned: "br_panic s = None \<Longrightarrow> k < length (br_pcs s) \<Longrightarrow> br_pcs s ! k = BCalling i \<Longrightarrow>
    may (clients (br_lbc s) ! i) err reply \<or>
      canceled (br_shared s) \<and> err = Some (ContextError Canceled) \<Longrightarrow>
    broadcast_step may s (s\<lparr>br_pcs := (br_pcs s)[k := BReporting err reply]\<rparr>)"
| bc_report: "br_panic s = None \<Longrightarrow> k < length (br_pcs s) \<Longrightarrow> br_pcs s ! k = BReporting err reply \<Longrightarrow>
    broadcast_report (br_keys s) (br_servers s ! k, err, reply) (br_shared s) = Ret b \<Longrightarrow>
    broadcast_step may s (s\<lparr>br_shared := b, br_pcs := (br_pcs s)[k := BDone],
      br_log := br_log s @ [(k, br_keys s, br_servers s ! k, err, reply)]\<rparr>)"
| bc_report_panic: "br_panic s = None \<Longrightarrow> k < length (br_pcs s) \<Longrightarrow> br_pcs s ! k = BReporting err reply \<Longrightarrow>
    broadcast_report (br_keys s) (br_servers s ! k, err, reply) (br_shared s) = Panic p \<Longrightarrow>
    broadcast_step may s (s\<lparr>br_panic := Some p\<rparr>)"
| bc_change: "br_panic s = None \<Longrightarrow> i < length (clients (br_lbc s)) \<Longrightarrow>
    broadcast_step may s (s\<lparr>br_lbc := (br_lbc s)\<lparr>clients := (clients (br_lbc s))[i := c]\<rparr>\<rparr>)"

text \<open>\<^verbatim>\<open>waitGroup.Wait\<close> returns when every goroutine is done; the result is then read.\<close>

definition broadcast_finished :: "'lb Broadcasting \<Rightarrow> bool" where
  "broadcast_finished s \<longleftrightarrow> br_panic s = None \<and> (\<forall>k < length (br_pcs s). br_pcs s ! k = BDone)"

lemmas broadcast_defs [op_defs] = broadcast_report_def lbc_BroadcastCall_def

subsection \<open>The result of a broadcast\<close>

lemma broadcast_error_kept:
  "broadcast_run rs b = Ret b' \<Longrightarrow> broadcastError b = Some e \<Longrightarrow> broadcastError b' = Some e"
proof (induction rs arbitrary: b)
  case (Cons r rs)
  then show ?case
    by (cases r) (auto simp: go_simps broadcast_report_def Let_def split: prod.splits if_splits)
qed simp

text \<open>The error is the first one in the order of completion.\<close>

lemma broadcast_error:
  "broadcast_run rs b = Ret b' \<Longrightarrow> broadcastError b = None \<Longrightarrow>
   broadcastError b' = (case find (\<lambda>(known, a, err, v). err \<noteq> None) rs of
      None \<Rightarrow> None | Some (known, a, err, v) \<Rightarrow> err)"
proof (induction rs arbitrary: b)
  case (Cons r rs)
  obtain known a err v where r: "r = (known, a, err, v)" by (cases r) auto
  from Cons.prems(1) r obtain b1 where b1: "broadcast_report known (a, err, v) b = Ret b1"
    "broadcast_run rs b1 = Ret b'" by (auto simp: go_simps)
  show ?case
  proof (cases err)
    case None
    then have "broadcastError b1 = None"
      using b1(1) Cons.prems(2) by (auto simp: broadcast_report_def Let_def split: if_splits)
    then show ?thesis using Cons.IH[OF b1(2)] None r by simp
  next
    case (Some e)
    then have "broadcastError b1 = Some e"
      using b1(1) Cons.prems(2) by (auto simp: broadcast_report_def Let_def split: if_splits)
    then show ?thesis using broadcast_error_kept[OF b1(2)] Some r by simp
  qed
qed simp

lemma broadcast_output_kept:
  "broadcast_run rs b = Ret b' \<Longrightarrow> replyDone b \<Longrightarrow> bc_output b' = bc_output b"
proof (induction rs arbitrary: b)
  case (Cons r rs)
  obtain known a err v where r: "r = (known, a, err, v)" by (cases r) auto
  from Cons.prems(1) r obtain b1 where b1: "broadcast_report known (a, err, v) b = Ret b1"
    "broadcast_run rs b1 = Ret b'" by (auto simp: go_simps)
  then have "replyDone b1 \<and> bc_output b1 = bc_output b"
    using Cons.prems(2) by (auto simp: broadcast_report_def Let_def split: if_splits)
  with b1 Cons.IH[of b1] show ?case by simp
qed simp

text \<open>The output is the reply of the first call that succeeds in the order of completion.\<close>

lemma broadcast_output:
  "broadcast_run rs b = Ret b' \<Longrightarrow> \<not> replyDone b \<Longrightarrow>
   bc_output b' = (case find (\<lambda>(known, a, err, v). err = None) rs of
      None \<Rightarrow> bc_output b | Some (known, a, err, v) \<Rightarrow> set_output (bc_output b) v)"
proof (induction rs arbitrary: b)
  case (Cons r rs)
  obtain known a err v where r: "r = (known, a, err, v)" by (cases r) auto
  from Cons.prems(1) r obtain b1 where b1: "broadcast_report known (a, err, v) b = Ret b1"
    "broadcast_run rs b1 = Ret b'" by (auto simp: go_simps)
  show ?case
  proof (cases err)
    case None
    then have "replyDone b1 \<and> bc_output b1 = set_output (bc_output b) v"
      using b1(1) Cons.prems(2) by (auto simp: broadcast_report_def Let_def split: if_splits)
    then show ?thesis using broadcast_output_kept[OF b1(2)] None r by simp
  next
    case (Some e)
    then have "\<not> replyDone b1 \<and> bc_output b1 = bc_output b"
      using b1(1) Cons.prems(2) by (auto simp: broadcast_report_def Let_def split: if_splits)
    then show ?thesis using Cons.IH[OF b1(2)] Some r by (simp split: option.split)
  qed
qed simp

text \<open>The calls are canceled exactly when one has failed.\<close>

lemma broadcast_canceled:
  "broadcast_run rs b = Ret b' \<Longrightarrow> canceled b = (broadcastError b \<noteq> None) \<Longrightarrow> canceled b' = (broadcastError b' \<noteq> None)"
proof (induction rs arbitrary: b)
  case (Cons r rs)
  obtain known a err v where r: "r = (known, a, err, v)" by (cases r) auto
  from Cons.prems(1) r obtain b1 where b1: "broadcast_report known (a, err, v) b = Ret b1"
    "broadcast_run rs b1 = Ret b'" by (auto simp: go_simps)
  then have "canceled b1 = (broadcastError b1 \<noteq> None)"
    using Cons.prems(2) by (auto simp: broadcast_report_def Let_def split: if_splits)
  then show ?case using Cons.IH[OF b1(2)] by simp
qed simp

text \<open>What a sequence of reports makes of the shared variables of a new broadcast.\<close>

definition first_error :: "(string set \<times> string \<times> go_error option \<times> go_value) list \<Rightarrow> go_error option" where
  "first_error rs = (case find (\<lambda>(known, a, err, v). err \<noteq> None) rs of None \<Rightarrow> None | Some (known, a, err, v) \<Rightarrow> err)"

definition first_reply ::
  "(string set \<times> string \<times> go_error option \<times> go_value) list \<Rightarrow> reflect_value option \<Rightarrow> reflect_value option" where
  "first_reply rs output =
     (case find (\<lambda>(known, a, err, v). err = None) rs of None \<Rightarrow> output | Some (known, a, err, v) \<Rightarrow> set_output output v)"

lemma broadcast_run_start:
  assumes "broadcast_run rs (broadcast_start output) = Ret b"
  shows "broadcastError b = first_error rs \<and> bc_output b = first_reply rs output \<and> (canceled b \<longleftrightarrow> first_error rs \<noteq> None)"
proof -
  have e: "broadcastError b = first_error rs"
    using broadcast_error[OF assms] by (simp add: first_error_def broadcast_start_def)
  have "bc_output b = first_reply rs output"
  proof (cases "output")
    case None
    then show ?thesis
      using broadcast_output_kept[OF assms]
      by (simp add: broadcast_start_def first_reply_def set_output_def split: option.split)
  next
    case (Some rv)
    have s: "bc_output (broadcast_start output) = output" by (simp add: broadcast_start_def)
    show ?thesis
      using broadcast_output[OF assms, unfolded s] Some unfolding first_reply_def by (simp add: broadcast_start_def)
  qed
  then show ?thesis using e broadcast_canceled[OF assms] by (simp add: broadcast_start_def)
qed

lemma broadcast_returns:
  "\<forall>(known, a, err, v) \<in> set rs. a \<in> known \<Longrightarrow> \<exists>b'. broadcast_run rs b = Ret b'"
  by (induction rs arbitrary: b) (auto simp: broadcast_report_def Let_def)

subsection \<open>Every run agrees with its reports\<close>

text \<open>The reports so far, applied in their order, give the shared variables; each is of another goroutine.\<close>

definition bc_inv :: "string list \<Rightarrow> reflect_value option \<Rightarrow> 'lb Broadcasting \<Rightarrow> bool" where
  "bc_inv servers output s \<longleftrightarrow>
     br_servers s = servers \<and> length (br_pcs s) = length servers \<and>
     broadcast_run (map snd (br_log s)) (broadcast_start output) = Ret (br_shared s) \<and>
     distinct (map fst (br_log s)) \<and>
     set (map fst (br_log s)) = {k. k < length servers \<and> br_pcs s ! k = BDone} \<and>
     (\<forall>(k, known, a, r) \<in> set (br_log s). a = servers ! k) \<and>
     (clonable output \<or> br_shared s = broadcast_start output \<and> (\<forall>k < length servers. br_pcs s ! k = BDial))"

lemma broadcast_run_append:
  "broadcast_run (xs @ ys) b = go_bind (broadcast_run xs b) (broadcast_run ys)"
proof (induction xs arbitrary: b)
  case (Cons x xs)
  then show ?case by (cases x; cases "broadcast_report (fst x) (snd x) b") auto
qed simp

lemma bc_inv_start: "bc_inv servers output (bc_start l servers output)"
  by (auto simp: bc_inv_def bc_start_def)

lemma bc_inv_report:
  assumes "bc_inv servers output s" and "k < length (br_pcs s)" and "br_pcs s ! k \<noteq> BDone"
    and "broadcast_report known (br_servers s ! k, err, reply) (br_shared s) = Ret b"
    and p: "br_pcs s ! k \<noteq> BDial"
  shows "bc_inv servers output (s\<lparr>br_shared := b, br_pcs := (br_pcs s)[k := BDone],
      br_log := br_log s @ [(k, known, br_servers s ! k, err, reply)]\<rparr>)"
proof -
  have "{j. j < length servers \<and> (br_pcs s)[k := BDone] ! j = BDone} = insert k {j. j < length servers \<and> br_pcs s ! j = BDone}"
    using assms(1,2) by (auto simp: nth_list_update bc_inv_def)
  moreover have "k \<notin> set (map fst (br_log s))" using assms(1,3) by (simp add: bc_inv_def)
  moreover have "clonable output" using assms(1-3) p by (auto simp: bc_inv_def)
  ultimately show ?thesis
    using assms(1,4) by (auto simp: bc_inv_def broadcast_run_append)
qed

lemma bc_inv_pc:
  assumes "bc_inv servers output s" and "k < length (br_pcs s)" and "br_pcs s ! k \<noteq> BDone" and "pc \<noteq> BDone"
    and "br_pcs s ! k = BDial \<longrightarrow> clonable (bc_output (br_shared s))"
  shows "bc_inv servers output (s\<lparr>br_lbc := l, br_pcs := (br_pcs s)[k := pc]\<rparr>)"
proof -
  have "{j. j < length servers \<and> (br_pcs s)[k := pc] ! j = BDone} = {j. j < length servers \<and> br_pcs s ! j = BDone}"
    using assms(2-4) by (auto simp: nth_list_update)
  moreover have "clonable output"
    using assms(1,2,5) by (auto simp: bc_inv_def broadcast_start_def)
  ultimately show ?thesis using assms(1) by (simp add: bc_inv_def)
qed

lemma bc_inv_step:
  assumes "bc_inv servers output s" and "broadcast_step may s t"
  shows "bc_inv servers output t"
  using assms(2,1)
proof (cases rule: broadcast_step.cases)
  case (bc_report k err reply b)
  then show ?thesis using bc_inv_report[OF assms(1)] by simp
next
  case (bc_returned k i err reply)
  then show ?thesis using bc_inv_pc[OF assms(1), of k "BReporting err reply" "br_lbc s"] by simp
qed (use assms(1) in \<open>auto intro: bc_inv_pc simp: bc_inv_def[of _ _ "s\<lparr>br_panic := x\<rparr>" for x] bc_inv_def[of _ _ "s\<lparr>br_lbc := x\<rparr>" for x] bc_inv_def[of _ _ s]\<close>)

interpretation bc: step_system "\<lambda>s. s = bc_start l servers out" "broadcast_step may" "bc_inv servers out"
  for l servers out may
  by unfold_locales (auto simp: bc_inv_start intro: bc_inv_step)

abbreviation broadcasting ::
  "(Client \<Rightarrow> go_error option \<Rightarrow> go_value \<Rightarrow> bool) \<Rightarrow> 'lb LoadBalancedClient \<Rightarrow> string list \<Rightarrow>
     reflect_value option \<Rightarrow> 'lb Broadcasting \<Rightarrow> bool" where
  "broadcasting may l servers output \<equiv> reach (\<lambda>s. s = bc_start l servers output) (broadcast_step may)"

lemmas broadcasting_step = reach_step[of _ "broadcast_step may" for may]

subsection \<open>Distinct servers\<close>

text \<open>
  When the servers are distinct, nobody else touches the entry of a server, so it is still there
  when the goroutine that dialed it reports.
\<close>

definition keyed :: "string list \<Rightarrow> 'lb Broadcasting \<Rightarrow> bool" where
  "keyed servers s \<longleftrightarrow>
     br_panic s = None \<and> br_servers s = servers \<and> length (br_pcs s) = length servers \<and>
     distinct servers \<and> clonable (bc_output (br_shared s)) \<and>
     (\<forall>k < length servers. (\<exists>i. br_pcs s ! k = BCalling i) \<or> (\<exists>reply. br_pcs s ! k = BReporting None reply) \<longrightarrow>
        servers ! k \<in> br_keys s)"

lemma clonable_set_output [intro]: "clonable output \<Longrightarrow> clonable (set_output output v)"
  by (cases "output") (auto simp: clonable_def set_output_def pointer_target_def split: go_type.splits go_value.splits)

lemma report_returns:
  "err \<noteq> None \<or> a \<in> known \<Longrightarrow> \<exists>b'. broadcast_report known (a, err, reply) b = Ret b'"
  by (auto simp: broadcast_report_def Let_def)

lemma report_clonable:
  "broadcast_report known r b = Ret b' \<Longrightarrow> clonable (bc_output b) \<Longrightarrow> clonable (bc_output b')"
  by (auto simp: broadcast_report_def Let_def split: prod.splits if_splits)

lemma keyed_start: "distinct servers \<Longrightarrow> clonable output \<Longrightarrow> keyed servers (bc_start l servers output)"
  by (simp add: keyed_def bc_start_def broadcast_start_def)

lemma keyed_dial:
  assumes "keyed servers s" and "k < length (br_pcs s)"
    and "lbc_dial env (br_servers s ! k) (br_lbc s) = (r, l)"
    and "pc = (case r of Inr i \<Rightarrow> BCalling i | Inl err \<Rightarrow> BReporting (Some err) reply)"
  shows "keyed servers (s\<lparr>br_lbc := l, br_pcs := (br_pcs s)[k := pc]\<rparr>)"
proof -
  have o: "servers ! j \<in> keys (serverAddressToClientMap l) \<longleftrightarrow> servers ! j \<in> br_keys s"
    if "j < length servers" "j \<noteq> k" for j
  proof -
    have "servers ! j \<noteq> servers ! k" using that assms(1,2) by (simp add: nth_eq_iff_index_eq keyed_def)
    then show ?thesis using lbc_dial_other[OF assms(3)] assms(1) by (simp add: keys_iff_map_of keyed_def)
  qed
  have own: "\<exists>i. r = Inr i \<Longrightarrow> servers ! k \<in> keys (serverAddressToClientMap l)"
    using lbc_dial_result[OF assms(3)] assms(1) by (auto simp: keys_iff_map_of keyed_def)
  show ?thesis
    using assms(1,2,4) o own by (auto simp: keyed_def nth_list_update split: sum.splits)
qed

lemma keyed_step:
  assumes "keyed servers s" and "broadcast_step may s t"
  shows "keyed servers t"
  using assms(2,1)
proof (cases rule: broadcast_step.cases)
  case (bc_dialed k env i l)
  then show ?thesis using keyed_dial[OF assms(1), of k env "Inr i" l] by simp
next
  case (bc_not_dialed k env err l reply)
  then show ?thesis using keyed_dial[OF assms(1), of k env "Inl err" l _ reply] by simp
next
  case (bc_report k err reply b)
  then show ?thesis
    using assms(1) report_clonable[OF bc_report(5)] by (auto simp: keyed_def nth_list_update)
next
  case (bc_report_panic k err reply p)
  then have "err \<noteq> None \<or> br_servers s ! k \<in> br_keys s" using assms(1) by (auto simp: keyed_def)
  then show ?thesis using report_returns bc_report_panic(5) by (metis go.distinct(1))
qed (auto simp: keyed_def nth_list_update)

interpretation bck: step_system "\<lambda>s. s = bc_start l servers out \<and> distinct servers \<and> clonable out"
  "broadcast_step may" "keyed servers" for l servers out may
  by unfold_locales (auto simp: keyed_start intro: keyed_step)

subsection \<open>Properties\<close>

text \<open>
  The result of a broadcast: the error of the first call that fails and the reply of the first
  call that succeeds, in the order in which the calls complete; the output is left as it was when no
  call succeeds, and in particular when the server list is empty (which is not an error).
\<close>

theorem broadcast_result:
  assumes "get_list (lbc_loadBalancer l) = (Inr servers, lb)" and "clonable output"
    and "\<forall>(known, a, err, v) \<in> set (reports servers). a \<in> known"
  shows "fst (lbc_BroadcastCall get_list reports output l) = Ret
    (first_error (reports servers), first_reply (reports servers) output)"
proof -
  obtain b where b: "broadcast_run (reports servers) (broadcast_start output) = Ret b"
    using broadcast_returns[OF assms(3)] by blast
  show ?thesis using broadcast_run_start[OF b] by (simp add: lbc_BroadcastCall_def assms(1,2) b)
qed

theorem broadcast_result_witness:
  "fst (lbc_BroadcastCall cs_GetServerList
      (\<lambda>_. [({''tcp@b''}, ''tcp@b'', Some ClientClosed, VInt 0), ({''tcp@a'', ''tcp@b''}, ''tcp@a'', None, VInt 5)])
      (Some (reflect_New TInt)) sample_lbc) =
   Ret (Some ClientClosed, Some \<lparr>rv_Type = TPtr TInt, rv_Val = VPtr (VInt 5)\<rparr>)"
proof -
  let ?rs = "\<lambda>_. [({''tcp@b''}, ''tcp@b'', Some ClientClosed, VInt 0), ({''tcp@a'', ''tcp@b''}, ''tcp@a'', None, VInt 5)]"
  have "cs_GetServerList (lbc_loadBalancer sample_lbc) = (Inr [''tcp@a'', ''tcp@b''], lbc_loadBalancer sample_lbc)"
    by (simp add: cs_GetServerList_def sample_lbc_def CreateLoadBalancedClient_def CreateLoadBalancerClientSide_def
        split: prod.split)
  from broadcast_result[where get_list = cs_GetServerList and l = sample_lbc, OF this, of "Some (reflect_New TInt)" ?rs] show ?thesis
    by (simp add: first_error_def first_reply_def set_output_def reflect_New_def clonable_def pointer_target_def)
qed

text \<open>
  C29. A broadcast of goroutines has the result of its reports: when all goroutines are done, each
  server of the list has been reported exactly once, in some order; the error of the broadcast is that
  of the first report with an error in this order, and its output the reply of the first report without
  one (the output as it was when there is none, or when it is nil). The other calls have been
  canceled exactly when one has failed. And this is the result of the broadcast that takes the reports
  one after the other.
\<close>

theorem broadcast_is_its_reports:
  assumes "broadcasting may l servers output s" and "broadcast_finished s"
    and "get_list (lbc_loadBalancer l) = (Inr servers, lb)"
  shows "(\<exists>order. distinct order \<and> set order = {..<length servers} \<and>
      map (\<lambda>(k, known, a, r). a) (br_log s) = map ((!) servers) order) \<and>
    broadcastError (br_shared s) = first_error (map snd (br_log s)) \<and>
    bc_output (br_shared s) = first_reply (map snd (br_log s)) output \<and>
    (canceled (br_shared s) \<longleftrightarrow> first_error (map snd (br_log s)) \<noteq> None) \<and>
    fst (lbc_BroadcastCall get_list (\<lambda>_. map snd (br_log s)) output l) =
      Ret (broadcastError (br_shared s), bc_output (br_shared s))"
proof -
  have inv: "bc_inv servers output s" using assms(1) by (rule bc.reach_invar)
  have "br_pcs s ! k = BDone" if "k < length servers" for k
    using inv assms(2) that by (auto simp: bc_inv_def broadcast_finished_def)
  then have "set (map fst (br_log s)) = {..<length servers}" using inv by (auto simp: bc_inv_def)
  moreover have "map (\<lambda>(k, known, a, r). a) (br_log s) = map ((!) servers) (map fst (br_log s))"
    using inv by (auto simp: bc_inv_def)
  moreover have "distinct (map fst (br_log s))" using inv by (simp add: bc_inv_def)
  moreover have "servers = [] \<or> clonable output"
    using inv assms(2) by (cases servers) (auto simp: bc_inv_def broadcast_finished_def)
  moreover have "broadcast_run (map snd (br_log s)) (broadcast_start output) = Ret (br_shared s)"
    using inv by (simp add: bc_inv_def)
  ultimately show ?thesis
    using broadcast_run_start[of "map snd (br_log s)" "output" "br_shared s"]
    by (auto simp: lbc_BroadcastCall_def assms(3))
qed

lemma dial_keeps_info: "lbc_dial env a l = (r, l') \<Longrightarrow> lbc_connectionInfo l' = lbc_connectionInfo l"
  by (auto simp: lbc_dial_def Let_def close_client_def split: option.splits if_splits sum.splits)

text \<open>A run to one server: it is dialed, called, and reports.\<close>

lemma sample_broadcast:
  "\<exists>s. broadcasting (\<lambda>_ _ _. True) sample_lbc [''tcp@b''] (Some (reflect_New TInt)) s \<and> broadcast_finished s \<and>
     bc_output (br_shared s) = Some \<lparr>rv_Type = TPtr TInt, rv_Val = VPtr (VInt 5)\<rparr> \<and> broadcastError (br_shared s) = None"
proof -
  let ?o = "Some (reflect_New TInt)"
  obtain l1 where l1: "lbc_dial sample_dial ''tcp@b'' sample_lbc = (Inr 0, l1)"
    using sample_lbc_dial[of "lbc_loadBalancer sample_lbc"] by auto
  have key: "''tcp@b'' \<in> keys (serverAddressToClientMap l1)"
    using lbc_dial_result[OF l1] by (simp add: keys_iff_map_of)
  let ?s0 = "bc_start sample_lbc [''tcp@b''] ?o"
  let ?s1 = "?s0\<lparr>br_lbc := l1, br_pcs := [BCalling 0]\<rparr>"
  let ?s2 = "?s1\<lparr>br_pcs := [BReporting None (VInt 5)]\<rparr>"
  let ?b = "(broadcast_start ?o)\<lparr>bc_output := set_output ?o (VInt 5), replyDone := True\<rparr>"
  let ?s3 = "?s2\<lparr>br_shared := ?b, br_pcs := [BDone], br_log := [(0, keys (serverAddressToClientMap l1), ''tcp@b'', None, VInt 5)]\<rparr>"
  have r0: "broadcasting (\<lambda>_ _ _. True) sample_lbc [''tcp@b''] ?o ?s0" by (rule reach_init) simp
  have s1: "broadcast_step (\<lambda>_ _ _. True) ?s0 ?s1"
    using bc_dialed[of ?s0 0 sample_dial 0 l1] l1
    by (simp add: bc_start_def broadcast_start_def clonable_def pointer_target_def reflect_New_def)
  have s2: "broadcast_step (\<lambda>_ _ _. True) ?s1 ?s2"
    using bc_returned[of ?s1 0 0 "\<lambda>_ _ _. True" None "VInt 5"] by (simp add: bc_start_def)
  have s3: "broadcast_step (\<lambda>_ _ _. True) ?s2 ?s3"
    using bc_report[of ?s2 0 None "VInt 5" ?b] key by (simp add: bc_start_def broadcast_report_def broadcast_start_def)
  note broadcasting_step[OF broadcasting_step[OF broadcasting_step[OF r0 s1] s2] s3]
  moreover have "broadcast_finished ?s3" by (simp add: broadcast_finished_def bc_start_def)
  ultimately show ?thesis
    by (intro exI[of _ ?s3]) (simp add: set_output_def reflect_New_def broadcast_start_def)
qed

text \<open>A run to two servers: the first cannot be dialed and reports its error, then the second one replies.\<close>

lemma sample_two:
  "\<exists>s. broadcasting (\<lambda>_ _ _. True) sample_lbc [''tcp@a'', ''tcp@b''] (Some (reflect_New TInt)) s \<and> broadcast_finished s \<and>
     (\<exists>A B. map snd (br_log s) = [(A, ''tcp@a'', Some (LibError DialFailed), VNil), (B, ''tcp@b'', None, VInt 5)])"
proof -
  let ?o = "Some (reflect_New TInt)" and ?servers = "[''tcp@a'', ''tcp@b'']" and ?may = "\<lambda>_ _ _. True"
  let ?down = "sample_dial\<lparr>de_dial := (\<lambda>_ _ _. Inl DialFailed)\<rparr>" and ?E = "LibError DialFailed"
  obtain l1 where l1: "lbc_dial sample_dial ''tcp@b'' sample_lbc = (Inr 0, l1)"
    using sample_lbc_dial[of "lbc_loadBalancer sample_lbc"] by auto
  have key: "map_of (serverAddressToClientMap l1) ''tcp@b'' = Some 0" using lbc_dial_result[OF l1] by simp
  have "map_of (serverAddressToClientMap l1) ''tcp@a'' = None"
    using lbc_dial_other[OF l1, of "''tcp@a''"] by (simp add: sample_lbc_def CreateLoadBalancedClient_def)
  moreover have "lbc_connectionInfo l1 = None"
    using dial_keeps_info[OF l1] by (simp add: sample_lbc_def CreateLoadBalancedClient_def)
  moreover have "fst (XMakeDial ?down ''tcp@a'' [None]) = Inl ?E"
    by (simp add: XMakeDial_def MakeDial_def MakeDialWithTimeout_def ParseConnectionInfo_def sample_dial_def)
  ultimately have l2: "lbc_dial ?down ''tcp@a'' l1 = (Inl ?E, l1)" by (simp add: lbc_dial_def)
  have k: "''tcp@b'' \<in> keys (serverAddressToClientMap l1)" using key by (simp add: keys_iff_map_of)
  have cl: "clonable (bc_output (broadcast_start ?o))"
    by (simp add: broadcast_start_def clonable_def pointer_target_def reflect_New_def)
  let ?s0 = "bc_start sample_lbc ?servers ?o"
  let ?s1 = "?s0\<lparr>br_lbc := l1, br_pcs := [BDial, BCalling 0]\<rparr>"
  let ?s2 = "?s1\<lparr>br_pcs := [BDial, BReporting None (VInt 5)]\<rparr>"
  let ?s3 = "?s2\<lparr>br_pcs := [BReporting (Some ?E) VNil, BReporting None (VInt 5)]\<rparr>"
  let ?b = "(broadcast_start ?o)\<lparr>broadcastError := Some ?E, canceled := True\<rparr>"
  let ?s4 = "?s3\<lparr>br_shared := ?b, br_pcs := [BDone, BReporting None (VInt 5)],
    br_log := [(0, keys (serverAddressToClientMap l1), ''tcp@a'', Some ?E, VNil)]\<rparr>"
  let ?c = "?b\<lparr>bc_output := set_output ?o (VInt 5), replyDone := True\<rparr>"
  let ?s5 = "?s4\<lparr>br_shared := ?c, br_pcs := [BDone, BDone],
    br_log := [(0, keys (serverAddressToClientMap l1), ''tcp@a'', Some ?E, VNil),
      (1, keys (serverAddressToClientMap l1), ''tcp@b'', None, VInt 5)]\<rparr>"
  have r0: "broadcasting ?may sample_lbc ?servers ?o ?s0" by (rule reach_init) simp
  have s1: "broadcast_step ?may ?s0 ?s1"
    using bc_dialed[of ?s0 1 sample_dial 0 l1] l1 cl by (simp add: bc_start_def)
  have s2: "broadcast_step ?may ?s1 ?s2"
    using bc_returned[of ?s1 1 0 ?may None "VInt 5"] by (simp add: bc_start_def)
  have s3: "broadcast_step ?may ?s2 ?s3"
    using bc_not_dialed[of ?s2 0 ?down ?E l1 ?may VNil] l2 cl by (simp add: bc_start_def)
  have s4: "broadcast_step ?may ?s3 ?s4"
    using bc_report[of ?s3 0 "Some ?E" VNil ?b] by (simp add: bc_start_def broadcast_report_def broadcast_start_def)
  have s5: "broadcast_step ?may ?s4 ?s5"
    using bc_report[of ?s4 1 None "VInt 5" ?c] k by (simp add: bc_start_def broadcast_report_def broadcast_start_def)
  from broadcasting_step[OF broadcasting_step[OF broadcasting_step[OF broadcasting_step[OF broadcasting_step[OF r0 s1] s2] s3] s4] s5]
  show ?thesis
    by (intro exI[of _ ?s5]) (simp add: broadcast_finished_def bc_start_def All_less_Suc)
qed

theorem broadcast_is_its_reports_witness:
  "\<exists>s. broadcasting (\<lambda>_ _ _. True) sample_lbc [''tcp@a'', ''tcp@b''] (Some (reflect_New TInt)) s \<and> broadcast_finished s \<and>
     broadcastError (br_shared s) = Some (LibError DialFailed) \<and> canceled (br_shared s) \<and>
     bc_output (br_shared s) = Some \<lparr>rv_Type = TPtr TInt, rv_Val = VPtr (VInt 5)\<rparr>"
proof -
  obtain s A B where s: "broadcasting (\<lambda>_ _ _. True) sample_lbc [''tcp@a'', ''tcp@b''] (Some (reflect_New TInt)) s"
    "broadcast_finished s"
    "map snd (br_log s) = [(A, ''tcp@a'', Some (LibError DialFailed), VNil), (B, ''tcp@b'', None, VInt 5)]"
    using sample_two by (elim exE conjE)
  from broadcast_is_its_reports[OF s(1,2), of "\<lambda>lb. (Inr [''tcp@a'', ''tcp@b''], lb)"] s show ?thesis
    by (intro exI[of _ s]) (simp add: first_error_def first_reply_def set_output_def reflect_New_def)
qed

text \<open>
  A broadcast to distinct servers never panics, provided that its output is nil or a pointer:
  when a call has succeeded, its client is still in the map.
\<close>

theorem broadcast_never_panics:
  assumes "broadcasting may l servers output s" and "distinct servers" and "clonable output"
  shows "br_panic s = None"
  using bck.reach_invar[of l servers "output" may s] assms by (simp add: keyed_def)

theorem broadcast_never_panics_witness:
  "\<exists>s. broadcasting (\<lambda>_ _ _. True) sample_lbc [''tcp@b''] (Some (reflect_New TInt)) s \<and> broadcast_finished s \<and>
     br_panic s = None"
  using sample_broadcast broadcast_never_panics[of sample_lbc "[''tcp@b'']" "Some (reflect_New TInt)" "\<lambda>_ _ _. True"]
  by (auto simp: clonable_def pointer_target_def reflect_New_def)

text \<open>
  C30. A broadcast to a list that has a server twice can crash the client: the first call succeeds, its
  client is shut down, the second goroutine finds it unavailable and drops it but cannot dial again,
  and the first one, when it reports, dereferences the client that is gone.
\<close>

theorem duplicate_server_can_crash:
  assumes "lbc_inv l" and "lbc_dial env a l = (Inr i, l1)"
    and "fst (XMakeDial env2 a [lbc_connectionInfo l]) = Inl err"
    and "\<And>c. may c None reply" and "clonable output" and "output \<noteq> None"
  shows "\<exists>s. broadcasting may l [a, a] output s \<and> br_panic s = Some NilDereference"
proof -
  let ?c = "(clients l1 ! i)\<lparr>isShutdown := True\<rparr>"
  let ?l2 = "l1\<lparr>clients := (clients l1)[i := ?c]\<rparr>"
  have m: "map_of (serverAddressToClientMap l1) a = Some i" using lbc_dial_result[OF assms(2)] by simp
  have len: "i < length (clients l1)"
    using lbc_inv_dial[OF assms(1,2)] map_of_SomeD[OF m] by (auto simp: lbc_inv_def)
  have "lbc_connectionInfo l1 = lbc_connectionInfo l" using dial_keeps_info[OF assms(2)] .
  with m len assms(3) obtain l3 where l3: "lbc_dial env2 a ?l2 = (Inl err, l3)"
    by (auto simp: lbc_dial_def Let_def IsAvailable_def close_client_def)
  have gone: "a \<notin> keys (serverAddressToClientMap l3)"
    using lbc_dial_result[OF l3] by (simp add: keys_iff_map_of)
  let ?s0 = "bc_start l [a, a] output"
  let ?s1 = "?s0\<lparr>br_lbc := l1, br_pcs := [BCalling i, BDial]\<rparr>"
  let ?s2 = "?s1\<lparr>br_pcs := [BReporting None reply, BDial]\<rparr>"
  let ?s3 = "?s2\<lparr>br_lbc := ?l2\<rparr>"
  let ?s4 = "?s3\<lparr>br_lbc := l3, br_pcs := [BReporting None reply, BReporting (Some err) VNil]\<rparr>"
  have cl: "clonable (bc_output (broadcast_start output))" using assms(5) by (simp add: broadcast_start_def)
  have r0: "broadcasting may l [a, a] output ?s0" by (rule reach_init) simp
  have s1: "broadcast_step may ?s0 ?s1"
    using bc_dialed[of ?s0 0 env i l1 may] assms(2) cl by (simp add: bc_start_def)
  have s2: "broadcast_step may ?s1 ?s2"
    using bc_returned[of ?s1 0 i may None reply] assms(4) by (simp add: bc_start_def)
  have s3: "broadcast_step may ?s2 ?s3"
    using bc_change[of ?s2 i may ?c] len by (simp add: bc_start_def)
  have s4: "broadcast_step may ?s3 ?s4"
    using bc_not_dialed[of ?s3 1 env2 err l3 may VNil] l3 cl by (simp add: bc_start_def)
  have s5: "broadcast_step may ?s4 (?s4\<lparr>br_panic := Some NilDereference\<rparr>)"
    by (rule bc_report_panic[of _ 0 None reply])
      (use gone assms(6) in \<open>simp_all add: bc_start_def broadcast_report_def broadcast_start_def del: not_None_eq\<close>)
  from broadcasting_step[OF broadcasting_step[OF reach_step[OF broadcasting_step[OF broadcasting_step[OF r0 s1] s2] s3] s4] s5]
  show ?thesis by (intro exI conjI) (assumption, simp)
qed

theorem duplicate_server_can_crash_witness:
  "\<exists>s. broadcasting (\<lambda>_ _ _. True) sample_lbc [''tcp@b'', ''tcp@b''] (Some (reflect_New TInt)) s \<and>
     br_panic s = Some NilDereference"
proof -
  let ?down = "sample_dial\<lparr>de_dial := (\<lambda>_ _ _. Inl DialFailed)\<rparr>"
  have inv: "lbc_inv sample_lbc" by (simp add: lbc_inv_def sample_lbc_def CreateLoadBalancedClient_def)
  obtain l1 where l1: "lbc_dial sample_dial ''tcp@b'' sample_lbc = (Inr 0, l1)"
    using sample_lbc_dial[of "lbc_loadBalancer sample_lbc"] by auto
  have d: "fst (XMakeDial ?down ''tcp@b'' [lbc_connectionInfo sample_lbc]) = Inl (LibError DialFailed)"
    by (simp add: sample_lbc_def CreateLoadBalancedClient_def XMakeDial_def MakeDial_def MakeDialWithTimeout_def
        ParseConnectionInfo_def sample_dial_def)
  show ?thesis
    by (rule duplicate_server_can_crash[OF inv l1 d]) (simp_all add: clonable_def pointer_target_def reflect_New_def)
qed

end
