(* ===== verification/Dial_Race.thy ===== *)
theory Dial_Race
  imports Dial
begin

text \<open>
  The goroutines of \<^verbatim>\<open>MakeDialWithTimeout\<close> once the connection is there: the caller waits for the
  client or for the timer, and a goroutine creates the client and hands it over through an unbuffered
  channel. The function of \<open>Dial\<close>, which is told whether the timer wins, is what every interleaving
  comes to; and the goroutine that loses against the timer is never released.
\<close>

subsection \<open>State and steps\<close>

text \<open>
  The goroutine is creating the client, or it waits to send what \<^verbatim>\<open>createClient\<close> returned, or it has
  ended. The result of the caller is there when it has returned; the deferred function closes the
  connection if that is an error. The creation is one step: a timer that fires inside it is one that
  fires before it (and then the connection is closed) or after it.
\<close>

datatype dial_worker =
    DCreating
  | DSending "go_error + Client"
  | DEnded

record dial_race =
  dr_conn :: connection
  dr_result :: "(go_error + Client) option"
  dr_worker :: dial_worker

type_synonym create_client = "connection \<Rightarrow> ConnectionInfo \<Rightarrow> (go_error + Client) \<times> connection"

definition dial_start :: "connection \<Rightarrow> dial_race" where
  "dial_start c = \<lparr>dr_conn = c, dr_result = None, dr_worker = DCreating\<rparr>"

definition deferred_close :: "go_error + Client \<Rightarrow> connection \<Rightarrow> connection" where
  "deferred_close r c = (case r of Inl err \<Rightarrow> snd (conn_Close c) | Inr client \<Rightarrow> c)"

inductive dial_step :: "create_client \<Rightarrow> ConnectionInfo \<Rightarrow> dial_race \<Rightarrow> dial_race \<Rightarrow> bool"
  for createClient info where
  created: "dr_worker s = DCreating \<Longrightarrow> createClient (dr_conn s) info = (r, c) \<Longrightarrow>
    dial_step createClient info s (s\<lparr>dr_conn := c, dr_worker := DSending r\<rparr>)"
| handed_over: "dr_worker s = DSending r \<Longrightarrow> dr_result s = None \<Longrightarrow>
    dial_step createClient info s
      (s\<lparr>dr_conn := deferred_close r (dr_conn s), dr_result := Some r, dr_worker := DEnded\<rparr>)"
| timer_fired: "ConnectionTimeout info \<noteq> 0 \<Longrightarrow> dr_result s = None \<Longrightarrow>
    dial_step createClient info s
      (s\<lparr>dr_conn := deferred_close (Inl ConnectTimeout) (dr_conn s), dr_result := Some (Inl ConnectTimeout)\<rparr>)"

inductive_cases dial_stepE: "dial_step createClient info s t"

abbreviation dial_reach :: "create_client \<Rightarrow> ConnectionInfo \<Rightarrow> connection \<Rightarrow> dial_race \<Rightarrow> bool" where
  "dial_reach createClient info c \<equiv> reach (\<lambda>s. s = dial_start c) (dial_step createClient info)"

definition dial_stuck :: "ConnectionInfo \<Rightarrow> dial_race \<Rightarrow> bool" where
  "dial_stuck info s \<longleftrightarrow> dr_worker s \<noteq> DCreating \<and>
     (dr_result s = None \<longrightarrow> dr_worker s = DEnded \<and> ConnectionTimeout info = 0)"

lemma dial_stuck_iff: "dial_stuck info s \<longleftrightarrow> (\<nexists>t. dial_step createClient info s t)"
proof
  show "\<nexists>t. dial_step createClient info s t" if "dial_stuck info s"
    using that by (auto simp: dial_stuck_def elim: dial_stepE)
  show "dial_stuck info s" if no: "\<nexists>t. dial_step createClient info s t"
  proof -
    have "dr_worker s \<noteq> DCreating" using no created[of s createClient info] by (metis surj_pair)
    then show ?thesis
      using no handed_over[of s _ createClient info] timer_fired[of info s createClient]
      by (cases "dr_worker s"; cases "dr_result s") (auto simp: dial_stuck_def)
  qed
qed

lemma dial_begun: "dial_reach createClient info c (dial_start c)"
  by (rule reach_init) simp

lemmas dial_simps = deferred_close_def conn_Close_def dial_start_def

subsection \<open>Invariant\<close>

definition timed_out :: "ConnectionInfo \<Rightarrow> dial_race \<Rightarrow> bool" where
  "timed_out info s \<longleftrightarrow> ConnectionTimeout info \<noteq> 0 \<and> dr_result s = Some (Inl ConnectTimeout) \<and> \<not> conn_open (dr_conn s)"

definition dial_inv :: "create_client \<Rightarrow> ConnectionInfo \<Rightarrow> connection \<Rightarrow> dial_race \<Rightarrow> bool" where
  "dial_inv createClient info c s \<longleftrightarrow>
     (case dr_worker s of
        DCreating \<Rightarrow> dr_result s = None \<and> dr_conn s = c \<or> timed_out info s
      | DSending r \<Rightarrow> dr_result s = None \<and> createClient c info = (r, dr_conn s) \<or> timed_out info s
      | DEnded \<Rightarrow> (\<exists>r c1. createClient c info = (r, c1) \<and> dr_result s = Some r \<and> dr_conn s = deferred_close r c1))"

text \<open>
  What \<^verbatim>\<open>createClient\<close> must not do is open a connection that is closed. Both functions that the
  program passes satisfy this.
\<close>

locale client_creator =
  fixes createClient :: create_client
  assumes stays_closed: "createClient c info = (r, c1) \<Longrightarrow> \<not> conn_open c \<Longrightarrow> \<not> conn_open c1"
    and client_open: "createClient c info = (Inr client, c1) \<Longrightarrow> conn_open c1"
begin

lemma dial_inv_start: "dial_inv createClient info c (dial_start c)"
  by (simp add: dial_inv_def dial_start_def)

lemma dial_inv_step: "dial_inv createClient info c s \<Longrightarrow> dial_step createClient info s t \<Longrightarrow> dial_inv createClient info c t"
  by (erule dial_stepE)
    (auto simp: dial_inv_def timed_out_def deferred_close_def conn_Close_def dest: stays_closed
      split: dial_worker.splits sum.splits)

lemma dial_reach_inv: "dial_reach createClient info c s \<Longrightarrow> dial_inv createClient info c s"
  by (induction rule: reach.induct) (auto intro: dial_inv_start dial_inv_step)

text \<open>A caller that has returned either gave up at the timer or has what the goroutine created.\<close>

lemma returned_cases:
  assumes "dial_reach createClient info c s" and "dr_result s = Some r"
  obtains "timed_out info s" "r = Inl ConnectTimeout" "dr_worker s \<noteq> DEnded"
  | c1 where "createClient c info = (r, c1)" "dr_conn s = deferred_close r c1" "dr_worker s = DEnded"
  using dial_reach_inv[OF assms(1)] assms(2) that
  by (auto simp: dial_inv_def timed_out_def split: dial_worker.splits)

lemma late_run:
  assumes "ConnectionTimeout info \<noteq> 0"
  obtains s where "dial_reach createClient info c s" "dr_result s = Some (Inl ConnectTimeout)" "\<not> conn_open (dr_conn s)"
proof -
  have "dial_step createClient info (dial_start c) (\<lparr>dr_conn = snd (conn_Close c), dr_result = Some (Inl ConnectTimeout),
      dr_worker = DCreating\<rparr>)"
    using timer_fired[OF assms, of "dial_start c" createClient] by (simp add: dial_start_def deferred_close_def)
  from reach_step[OF dial_begun this] show ?thesis using that by (auto simp: conn_Close_def)
qed

lemma early_run:
  assumes "createClient c info = (r, c1)"
  obtains s where "dial_reach createClient info c s" "dr_result s = Some r" "dr_conn s = deferred_close r c1"
proof -
  let ?s = "\<lparr>dr_conn = c1, dr_result = None, dr_worker = DSending r\<rparr>"
  have "dial_step createClient info (dial_start c) ?s"
    using created[of "dial_start c" createClient info r c1] assms by (simp add: dial_start_def)
  then have s: "dial_reach createClient info c ?s" by (rule reach_step[OF dial_begun])
  have "dial_step createClient info ?s \<lparr>dr_conn = deferred_close r c1, dr_result = Some r, dr_worker = DEnded\<rparr>"
    using handed_over[of ?s r createClient info] by simp
  from reach_step[OF s this] show ?thesis using that by simp
qed

text \<open>The outcomes of the goroutines are those of the function with the timer as its argument.\<close>

lemma outcomes:
  assumes "ParseConnectionInfo infos = Inr info" and "de_dial env p a (ConnectionTimeout info) = Inr c"
  shows "(\<exists>s. dial_reach createClient info c s \<and> dr_result s = Some r \<and> conn_open (dr_conn s) = ok) \<longleftrightarrow>
    (\<exists>late c1. MakeDialWithTimeout (env\<lparr>de_late := late\<rparr>) createClient p a infos = (r, Some c1) \<and> conn_open c1 = ok)"
    (is "?l \<longleftrightarrow> ?r")
proof -
  obtain r0 c0 where r0: "createClient c info = (r0, c0)" by fastforce
  have run: "MakeDialWithTimeout (env\<lparr>de_late := late\<rparr>) createClient p a infos =
      (if ConnectionTimeout info \<noteq> 0 \<and> late then (Inl ConnectTimeout, Some (snd (conn_Close c)))
       else (r0, Some (deferred_close r0 c0)))" for late
    using assms r0 by (simp add: MakeDialWithTimeout_def deferred_close_def split: sum.split)
  show ?thesis
  proof
    assume ?l
    then obtain s where s: "dial_reach createClient info c s" "dr_result s = Some r" "conn_open (dr_conn s) = ok" by blast
    from s(1,2) show ?r
    proof (cases rule: returned_cases)
      case 1
      then have "MakeDialWithTimeout (env\<lparr>de_late := True\<rparr>) createClient p a infos = (r, Some (snd (conn_Close c)))"
        using run[of True] by (simp add: timed_out_def)
      then show ?thesis using 1 s(3) by (intro exI[of _ True]) (auto simp: timed_out_def conn_Close_def)
    next
      case (2 c1)
      then show ?thesis using s(3) run[of False] r0 by auto
    qed
  next
    assume ?r
    then consider "ConnectionTimeout info \<noteq> 0" "r = Inl ConnectTimeout" "\<not> ok"
      | "r = r0" "conn_open (deferred_close r0 c0) = ok"
      unfolding run by (auto simp: conn_Close_def split: if_splits)
    then show ?l
    proof cases
      case 1
      from late_run[OF 1(1), of c] show ?thesis using 1(2,3) by metis
    next
      case 2
      from early_run[OF r0] show ?thesis using 2 by metis
    qed
  qed
qed

text \<open>Nothing can move: the caller has returned, and the goroutine has ended or waits for ever to send.\<close>

lemma stuck_returned:
  assumes "dial_reach createClient info c s" and "dial_stuck info s"
  shows "\<exists>r. dr_result s = Some r \<and>
    (dr_worker s = DEnded \<and> createClient c info = (r, snd (createClient c info)) \<or>
     timed_out info s \<and> (\<exists>r1. dr_worker s = DSending r1))"
  using dial_reach_inv[OF assms(1)] assms(2)
  by (auto simp: dial_inv_def dial_stuck_def timed_out_def split: dial_worker.splits)

end

lemma CreateClient_stays_closed: "CreateClient addr c info = (r, c1) \<Longrightarrow> \<not> conn_open c \<Longrightarrow> \<not> conn_open c1"
  by (auto simp: CreateClient_def write_info_def conn_Close_def Let_def split: option.splits)

interpretation plain: client_creator "CreateClient addr"
  by unfold_locales (auto dest: CreateClient_stays_closed CreateClient_open)

interpretation http: client_creator "CreateClientHTTP reply addr"
  by unfold_locales (auto simp: CreateClientHTTP_def dest: CreateClient_stays_closed CreateClient_open
      split: sum.splits if_splits)

subsection \<open>Properties\<close>

text \<open>
  C27. Dialing under every interleaving: the results and the state of the connection that the caller
  of \<^verbatim>\<open>MakeDialWithTimeout\<close> can see, whatever the timer and the goroutine do, are exactly those of the
  function that is told which of the two is first. A result that is an error comes with a closed
  connection, and a client with an open one.
\<close>

theorem dial_goroutines_refine:
  assumes "create = CreateClient addr \<or> create = CreateClientHTTP reply addr"
    and "ParseConnectionInfo infos = Inr info" and "de_dial env p a (ConnectionTimeout info) = Inr c"
  shows "(\<exists>s. dial_reach create info c s \<and> dr_result s = Some r \<and> conn_open (dr_conn s) = ok) \<longleftrightarrow>
    (\<exists>client. r = Inr client) = ok \<and>
    (\<exists>late c1. MakeDialWithTimeout (env\<lparr>de_late := late\<rparr>) create p a infos = (r, Some c1))"
proof -
  have o: "(\<exists>s. dial_reach create info c s \<and> dr_result s = Some r \<and> conn_open (dr_conn s) = ok) \<longleftrightarrow>
    (\<exists>late c1. MakeDialWithTimeout (env\<lparr>de_late := late\<rparr>) create p a infos = (r, Some c1) \<and> conn_open c1 = ok)"
    using assms(1) plain.outcomes[OF assms(2,3)] http.outcomes[OF assms(2,3)] by blast
  have cl: "\<And>c info client c1. create c info = (Inr client, c1) \<Longrightarrow> conn_open c1 \<and> connection (cl_coder client) = c1"
    using assms(1) CreateClient_open CreateClientHTTP_open by blast
  have "conn_open c1 \<longleftrightarrow> (\<exists>client. r = Inr client)"
    if "MakeDialWithTimeout (env\<lparr>de_late := late\<rparr>) create p a infos = (r, Some c1)" for late c1
  proof -
    have "case r of Inl err \<Rightarrow> (\<forall>c. Some c1 = Some c \<longrightarrow> \<not> conn_open c)
      | Inr client \<Rightarrow> Some c1 = Some (connection (cl_coder client)) \<and> conn_open (connection (cl_coder client))"
      by (rule dial_outcome[OF that]) (rule cl)
    then show ?thesis by (cases r) auto
  qed
  then show ?thesis unfolding o by blast
qed

theorem dial_goroutines_refine_witness:
  "(\<exists>s. dial_reach (CreateClient ''me'') DefaultConnectionInfo (sample_connection []) s \<and>
        dr_result s = Some (Inl ConnectTimeout) \<and> conn_open (dr_conn s) = False)"
proof -
  have p: "ParseConnectionInfo [] = Inr DefaultConnectionInfo" by (simp add: ParseConnectionInfo_def)
  have d: "de_dial sample_dial ''tcp'' ''a'' (ConnectionTimeout DefaultConnectionInfo) = Inr (sample_connection [])"
    by (simp add: sample_dial_def)
  have "MakeDialWithTimeout (sample_dial\<lparr>de_late := True\<rparr>) (CreateClient ''me'') ''tcp'' ''a'' [] =
      (Inl ConnectTimeout, Some (snd (conn_Close (sample_connection []))))"
    using p d by (simp add: MakeDialWithTimeout_def DefaultConnectionInfo_def time_defs)
  then show ?thesis
    using dial_goroutines_refine[OF _ p d, of "CreateClient ''me''" "''me''" "\<lambda>_. []" "Inl ConnectTimeout" False] by blast
qed

text \<open>
  The caller always returns, and with what it returns the goroutine has ended, except after a timeout:
  then it has created a client or an error and waits for ever to send it.
\<close>

theorem dial_returns:
  assumes "dial_reach (CreateClient addr) info c s" and "dial_stuck info s"
  shows "\<exists>r. dr_result s = Some r \<and> (dr_worker s = DEnded \<or> r = Inl ConnectTimeout \<and> (\<exists>r1. dr_worker s = DSending r1))"
  using plain.stuck_returned[OF assms] by (auto simp: timed_out_def)

text \<open>The goroutine that loses against the timer never ends.\<close>

theorem late_creator_never_ends:
  assumes "(dial_step create info)\<^sup>*\<^sup>* s t" and "dr_result s \<noteq> None" and "dr_worker s \<noteq> DEnded"
  shows "dr_result t = dr_result s \<and> dr_worker t \<noteq> DEnded"
  using assms
proof (induction rule: rtranclp_induct)
  case (step t u)
  from step.hyps(2) step.IH[OF step.prems] step.prems show ?case by cases auto
qed simp

end
