(* ===== verification/Cluster.thy ===== *)
theory Cluster
  imports Server Load_Balancer
begin

text \<open>
  Servers, the registry and a registry-side balancer over time: the heartbeat goroutines of any number
  of servers, the registry that they post to, and a balancer that fetches the list when its own is old.
  Two bounds describe the network: a heartbeat is posted within \<open>dl\<close> of its tick, and a GET of the
  balancer is answered, or fails, within \<open>da\<close>. How old a list can be then follows.
  (Nobody replaces the list of the balancer by hand, which \<^verbatim>\<open>UpdateServerList\<close> would allow.)
\<close>

subsection \<open>The list on its way from the registry to the balancer\<close>

text \<open>An address that survives being joined with others by commas, split again and trimmed.\<close>

definition address_ok :: "string \<Rightarrow> bool" where
  "address_ok a \<longleftrightarrow> a \<noteq> [] \<and> trimmed a \<and> CHR '','' \<notin> set a"

definition listed_servers :: "http_header \<Rightarrow> string list" where
  "listed_servers h = keep_servers (strings_Split CHR '','' (header_Get h ''Get-SpartanRPC-AliveServers''))"

abbreviation get_request :: http_request where
  "get_request \<equiv> \<lparr>req_Method = ''GET'', req_Header = []\<rparr>"

lemma header_names_agree:
  "canonical_key True ''Get-SpartanRPC-AliveServers'' = canonical_key True ''GET-SpartanRPC-AliveServers''"
  by code_simp

lemma header_read_back:
  "header_Get (header_Set ''GET-SpartanRPC-AliveServers'' v h) ''Get-SpartanRPC-AliveServers'' = v"
  by (simp only: header_Get_Set header_names_agree if_True simp_thms)

lemma listed_servers_answer:
  assumes "\<forall>a \<in> set (fst (getAliveServerList clk reg)). address_ok a"
  shows "listed_servers (resp_Header (fst (reg_ServeHTTP clk get_request reg))) = fst (getAliveServerList clk reg)"
proof -
  let ?as = "fst (getAliveServerList clk reg)"
  have "header_Get (resp_Header (fst (reg_ServeHTTP clk get_request reg))) ''Get-SpartanRPC-AliveServers'' =
      strings_Join CHR '','' ?as"
    by (simp add: reg_ServeHTTP_def header_read_back split_def Let_def)
  moreover have "keep_servers (strings_Split CHR '','' (strings_Join CHR '','' ?as)) = ?as"
  proof (cases "?as = []")
    case False
    then show ?thesis using assms by (simp add: Split_Join keep_servers_id address_ok_def)
  qed (simp add: strings_TrimSpace_def)
  ultimately show ?thesis by (simp add: listed_servers_def)
qed

subsection \<open>State\<close>

text \<open>
  A server with its heartbeat goroutine: the rate, the time of its first heartbeat, and when the next
  tick is due (none when the goroutine has ended).
\<close>

record Beating =
  bt_server :: Server
  bt_rate :: duration
  bt_since :: time
  bt_due :: "time option"

text \<open>
  The balancer holds its mutex from the check of the age of its list to the answer; \<open>Asked\<close> and
  \<open>Answered\<close> have the reading of the clock at the check. Between its refresh and its selection a caller
  does not hold the mutex: \<open>cu_selecting\<close> are the callers there, each with the time at which its refresh
  ended. \<open>cu_posted\<close> is a history: all heartbeats that the registry has received, the latest first.
  \<open>cu_returned\<close> is what the last call of the balancer returned: when its refresh ended, when it returned,
  and what.
\<close>

datatype asking =
    Idle
  | Asked time
  | Answered time "go_error + http_header"

datatype lb_call =
    CallGetServer LoadBalancingMode
  | CallGetServerList

record Cluster =
  cu_now :: time
  cu_registry :: Registry
  cu_posted :: "(string \<times> time) list"
  cu_servers :: "Beating list"
  cu_balancer :: LoadBalancerRegistrySide
  cu_asking :: asking
  cu_selecting :: "(time \<times> lb_call) list"
  cu_returned :: "(time \<times> time \<times> lb_call \<times> (go_error + string list)) option"

definition cluster_started :: "duration \<Rightarrow> duration \<Rightarrow> Cluster \<Rightarrow> bool" where
  "cluster_started timeout lb_timeout s \<longleftrightarrow>
     (\<exists>lis src. CreateRegistry lis timeout = Ret (Inr (cu_registry s)) \<and>
        cu_balancer s = CreateLoadBalancerRegistrySide src (RegistryURL (cu_registry s)) lb_timeout) \<and>
     zero_time \<le> cu_now s \<and> cu_posted s = [] \<and> cu_servers s = [] \<and> cu_asking s = Idle \<and>
     cu_selecting s = [] \<and> cu_returned s = None"

subsection \<open>Steps\<close>

text \<open>A heartbeat reaches the registry and is answered, or the sender gets an error (either way round).\<close>

definition heartbeat_arrives :: "Server \<Rightarrow> Cluster \<Rightarrow> http_response \<times> Cluster" where
  "heartbeat_arrives srv s =
     (let (resp, reg) = reg_LaunchAndServe DefaultRegistryPath (\<lambda>_. cu_now s) (heartbeat_request srv) (cu_registry s)
      in (resp, s\<lparr>cu_registry := reg, cu_posted := (ServerAddress srv, cu_now s) # cu_posted s\<rparr>))"

definition heartbeat_posted :: "Server \<Rightarrow> Cluster \<Rightarrow> go_error + http_response \<Rightarrow> Cluster \<Rightarrow> bool" where
  "heartbeat_posted srv s answer s1 \<longleftrightarrow>
     (case answer of
        Inr resp \<Rightarrow> (resp, s1) = heartbeat_arrives srv s
      | Inl err \<Rightarrow> s1 = s \<or> s1 = snd (heartbeat_arrives srv s))"

definition next_tick :: "Server \<Rightarrow> go_error + http_response \<Rightarrow> time \<Rightarrow> time option" where
  "next_tick srv answer t = (if sendHeartbeat srv (\<lambda>_. answer) = None then Some t else None)"

text \<open>A listing reads the clock several times and ends at \<open>u\<close>.\<close>

definition list_at :: "(string \<Rightarrow> time) \<Rightarrow> time \<Rightarrow> Cluster \<Rightarrow> http_response \<times> Cluster" where
  "list_at clk u s =
     (let (resp, reg) = reg_LaunchAndServe DefaultRegistryPath clk get_request (cu_registry s)
      in (resp, s\<lparr>cu_registry := reg, cu_now := u\<rparr>))"

definition asked_at :: "asking \<Rightarrow> time option" where
  "asked_at k = (case k of Idle \<Rightarrow> None | Asked t \<Rightarrow> Some t | Answered t r \<Rightarrow> Some t)"

definition may_wait :: "duration \<Rightarrow> duration \<Rightarrow> time \<Rightarrow> Cluster \<Rightarrow> bool" where
  "may_wait da dl t s \<longleftrightarrow> cu_now s \<le> t \<and>
     list_all (\<lambda>sv. case bt_due sv of None \<Rightarrow> True | Some u \<Rightarrow> t \<le> u + dl) (cu_servers s) \<and>
     (case asked_at (cu_asking s) of None \<Rightarrow> True | Some t0 \<Rightarrow> t \<le> t0 + da)"

definition refresh_due :: "time \<Rightarrow> LoadBalancerRegistrySide \<Rightarrow> bool" where
  "refresh_due now rs \<longleftrightarrow> \<not> time_After (time_Add (lastUpdate rs) (lbTimeout rs)) now"

definition lb_select ::
  "lb_call \<Rightarrow> LoadBalancerClientSide \<Rightarrow> (go_error + string list) \<times> LoadBalancerClientSide" where
  "lb_select call lb =
     (case call of
        CallGetServerList \<Rightarrow> cs_GetServerList lb
      | CallGetServer mode \<Rightarrow>
          (case cs_GetServer lb mode of (Inl err, lb1) \<Rightarrow> (Inl err, lb1) | (Inr a, lb1) \<Rightarrow> (Inr [a], lb1)))"

inductive cluster_step :: "duration \<Rightarrow> duration \<Rightarrow> Cluster \<Rightarrow> Cluster \<Rightarrow> bool" for da dl where
  time_passes: "may_wait da dl t s \<Longrightarrow> cluster_step da dl s (s\<lparr>cu_now := t\<rparr>)"
| server_joins: "address_ok (ServerAddress srv) \<Longrightarrow> 0 < heart_rate h \<Longrightarrow> 0 \<le> e \<Longrightarrow> e \<le> dl \<Longrightarrow>
    heartbeat_posted srv s answer s1 \<Longrightarrow>
    cluster_step da dl s (s1\<lparr>cu_servers := cu_servers s1 @
      [\<lparr>bt_server = srv, bt_rate = heart_rate h, bt_since = cu_now s,
        bt_due = next_tick srv answer (cu_now s + e + heart_rate h)\<rparr>]\<rparr>)"
| server_beats: "k < length (cu_servers s) \<Longrightarrow> sv = cu_servers s ! k \<Longrightarrow> bt_due sv = Some u \<Longrightarrow> u \<le> cu_now s \<Longrightarrow>
    heartbeat_posted (bt_server sv) s answer s1 \<Longrightarrow>
    cluster_step da dl s (s1\<lparr>cu_servers := (cu_servers s1)
      [k := sv\<lparr>bt_due := next_tick (bt_server sv) answer (u + bt_rate sv)\<rparr>]\<rparr>)"
| server_stops: "k < length (cu_servers s) \<Longrightarrow>
    cluster_step da dl s (s\<lparr>cu_servers := (cu_servers s)[k := (cu_servers s ! k)\<lparr>bt_due := None\<rparr>]\<rparr>)"
| other_client: "\<forall>a. cu_now s \<le> clk a \<and> clk a \<le> u \<Longrightarrow> may_wait da dl u s \<Longrightarrow>
    cluster_step da dl s (snd (list_at clk u s))"
| balancer_asks: "cu_asking s = Idle \<Longrightarrow> refresh_due (cu_now s) (cu_balancer s) \<Longrightarrow>
    cluster_step da dl s (s\<lparr>cu_asking := Asked (cu_now s)\<rparr>)"
| registry_answers: "cu_asking s = Asked t0 \<Longrightarrow> \<forall>a. cu_now s \<le> clk a \<and> clk a \<le> u \<Longrightarrow> may_wait da dl u s \<Longrightarrow>
    list_at clk u s = (resp, s1) \<Longrightarrow>
    cluster_step da dl s (s1\<lparr>cu_asking := Answered t0 (Inr (resp_Header resp))\<rparr>)"
| no_answer: "cu_asking s = Asked t0 \<Longrightarrow>
    cluster_step da dl s (s\<lparr>cu_asking := Answered t0 (Inl err)\<rparr>)"
| fresh_call: "cu_asking s = Idle \<Longrightarrow> env_now env = cu_now s \<Longrightarrow>
    \<not> refresh_due (cu_now s) (cu_balancer s) \<Longrightarrow> rs_RefreshServerList env (cu_balancer s) = (None, rs) \<Longrightarrow>
    cluster_step da dl s (s\<lparr>cu_balancer := rs, cu_selecting := cu_selecting s @ [(cu_now s, call)]\<rparr>)"
| refreshed: "cu_asking s = Answered t0 answer \<Longrightarrow>
    rs_RefreshServerList \<lparr>env_now = t0, env_get = (\<lambda>_. answer), env_later = cu_now s\<rparr> (cu_balancer s) = (None, rs) \<Longrightarrow>
    cluster_step da dl s
      (s\<lparr>cu_balancer := rs, cu_asking := Idle, cu_selecting := cu_selecting s @ [(cu_now s, call)]\<rparr>)"
| refresh_failed: "cu_asking s = Answered t0 answer \<Longrightarrow>
    rs_RefreshServerList \<lparr>env_now = t0, env_get = (\<lambda>_. answer), env_later = cu_now s\<rparr> (cu_balancer s) = (Some err, rs) \<Longrightarrow>
    cluster_step da dl s
      (s\<lparr>cu_balancer := rs, cu_asking := Idle, cu_returned := Some (cu_now s, cu_now s, call, Inl err)\<rparr>)"
| selects: "cu_asking s = Idle \<Longrightarrow> cu_selecting s = cs1 @ (t, call) # cs2 \<Longrightarrow>
    lb_select call (clientSide (cu_balancer s)) = (r, lb) \<Longrightarrow>
    cluster_step da dl s
      (s\<lparr>cu_balancer := (cu_balancer s)\<lparr>clientSide := lb\<rparr>, cu_selecting := cs1 @ cs2,
         cu_returned := Some (t, cu_now s, call, r)\<rparr>)"

abbreviation cluster_reach :: "duration \<Rightarrow> duration \<Rightarrow> duration \<Rightarrow> duration \<Rightarrow> Cluster \<Rightarrow> bool" where
  "cluster_reach da dl timeout lb_timeout \<equiv> reach (cluster_started timeout lb_timeout) (cluster_step da dl)"

inductive_cases cluster_stepE: "cluster_step da dl s t"

subsection \<open>Lists that are recent and complete\<close>

text \<open>
  A list is recent at \<open>hi\<close> when each of its servers has posted less than the timeout before \<open>hi\<close>. It is
  complete from \<open>lo\<close> to \<open>hi\<close> when it has all servers whose heartbeat from before \<open>lo\<close> is young at \<open>hi\<close>.
\<close>

definition young :: "duration \<Rightarrow> time \<Rightarrow> time \<Rightarrow> bool" where
  "young timeout b t \<longleftrightarrow> timeout = 0 \<or> t < b + timeout"

definition recent :: "duration \<Rightarrow> (string \<times> time) list \<Rightarrow> time \<Rightarrow> string list \<Rightarrow> bool" where
  "recent timeout posted hi xs \<longleftrightarrow> (\<forall>a \<in> set xs. \<exists>b. (a, b) \<in> set posted \<and> young timeout b hi)"

definition complete :: "duration \<Rightarrow> (string \<times> time) list \<Rightarrow> time \<Rightarrow> time \<Rightarrow> string list \<Rightarrow> bool" where
  "complete timeout posted lo hi xs \<longleftrightarrow> (\<forall>(a, b) \<in> set posted. b < lo \<and> young timeout b hi \<longrightarrow> a \<in> set xs)"

lemma young_mono: "young timeout b t \<Longrightarrow> u \<le> t \<Longrightarrow> young timeout b u"
  by (auto simp: young_def)

lemma recent_mono: "recent timeout posted hi xs \<Longrightarrow> h \<le> hi \<Longrightarrow> set ys \<subseteq> set xs \<Longrightarrow> recent timeout posted h ys"
  unfolding recent_def using young_mono by (meson subsetD)

lemma recent_Cons: "recent timeout posted hi xs \<Longrightarrow> recent timeout (e # posted) hi xs"
  unfolding recent_def by (meson list.set_intros(2))

lemma complete_mono: "complete timeout posted lo hi xs \<Longrightarrow> l \<le> lo \<Longrightarrow> hi \<le> h \<Longrightarrow> complete timeout posted l h xs"
  unfolding complete_def using young_mono by fastforce

lemma complete_Cons: "complete timeout posted lo hi xs \<Longrightarrow> lo \<le> b \<Longrightarrow> complete timeout ((a, b) # posted) lo hi xs"
  by (auto simp: complete_def)

subsection \<open>Invariant\<close>

definition posted_ok :: "time \<Rightarrow> (string \<times> time) list \<Rightarrow> bool" where
  "posted_ok now posted \<longleftrightarrow>
     (\<forall>(a, b) \<in> set posted. address_ok a \<and> b \<le> now \<and> (\<exists>b'. map_of posted a = Some b' \<and> b \<le> b'))"

definition asking_ok :: "duration \<Rightarrow> duration \<Rightarrow> time \<Rightarrow> (string \<times> time) list \<Rightarrow> asking \<Rightarrow> bool" where
  "asking_ok da timeout now posted k \<longleftrightarrow>
     (case asked_at k of None \<Rightarrow> True | Some t0 \<Rightarrow> t0 \<le> now \<and> now \<le> t0 + da) \<and>
     (case k of
        Answered t0 (Inr h) \<Rightarrow>
          recent timeout posted t0 (listed_servers h) \<and> complete timeout posted t0 now (listed_servers h)
      | _ \<Rightarrow> True)"

definition balancer_ok ::
  "duration \<Rightarrow> duration \<Rightarrow> time \<Rightarrow> (string \<times> time) list \<Rightarrow> LoadBalancerRegistrySide \<Rightarrow> bool" where
  "balancer_ok da timeout now posted rs \<longleftrightarrow> 0 < lbTimeout rs \<and> lastUpdate rs \<le> now \<and>
     recent timeout posted (lastUpdate rs - da) (rs_servers rs) \<and>
     complete timeout posted (lastUpdate rs - da) (lastUpdate rs) (rs_servers rs)"

text \<open>
  A caller that is to select finds a list that was young enough when its refresh ended at \<open>t\<close>, or a
  younger one; what it hands out at \<open>t'\<close> is from the list of some update \<open>u\<close> of that kind.
\<close>

definition selecting_ok :: "time \<Rightarrow> LoadBalancerRegistrySide \<Rightarrow> (time \<times> lb_call) list \<Rightarrow> bool" where
  "selecting_ok now rs cs \<longleftrightarrow> (\<forall>(t, call) \<in> set cs. t \<le> now \<and> t < lastUpdate rs + lbTimeout rs)"

definition returned_ok ::
  "duration \<Rightarrow> duration \<Rightarrow> duration \<Rightarrow> time \<Rightarrow> (string \<times> time) list \<Rightarrow>
     (time \<times> time \<times> lb_call \<times> (go_error + string list)) option \<Rightarrow> bool" where
  "returned_ok da timeout age now posted ret \<longleftrightarrow>
     (case ret of
        Some (t, t', call, Inr xs) \<Rightarrow> t \<le> t' \<and> t' \<le> now \<and>
          (\<exists>u. t < u + age \<and> u \<le> t' \<and> recent timeout (filter (\<lambda>e. snd e \<le> t') posted) (u - da) xs \<and>
             (call = CallGetServerList \<longrightarrow> complete timeout posted (u - da) u xs))
      | _ \<Rightarrow> True)"

text \<open>The heartbeats of a server whose goroutine runs leave no gap since its first.\<close>

definition beats_ok :: "duration \<Rightarrow> time \<Rightarrow> (string \<times> time) list \<Rightarrow> Beating \<Rightarrow> bool" where
  "beats_ok dl now posted sv \<longleftrightarrow> address_ok (ServerAddress (bt_server sv)) \<and> 0 < bt_rate sv \<and> 
     (case bt_due sv of
        None \<Rightarrow> True
      | Some u \<Rightarrow> now \<le> u + dl \<and>
          (\<exists>b. (ServerAddress (bt_server sv), b) \<in> set posted \<and> b \<le> now \<and> u \<le> b + bt_rate sv + dl) \<and>
          (\<forall>x. bt_since sv \<le> x \<and> x \<le> now \<longrightarrow>
             (\<exists>b. (ServerAddress (bt_server sv), b) \<in> set posted \<and> b \<le> x \<and> x \<le> b + bt_rate sv + 2 * dl)))"

definition cluster_inv :: "duration \<Rightarrow> duration \<Rightarrow> duration \<Rightarrow> duration \<Rightarrow> Cluster \<Rightarrow> bool" where
  "cluster_inv da dl timeout age s \<longleftrightarrow>
     Timeout (cu_registry s) = timeout \<and> lbTimeout (cu_balancer s) = age \<and> 
     agrees (cu_now s) (map_of (cu_posted s)) (cu_registry s) \<and> posted_ok (cu_now s) (cu_posted s) \<and>
     asking_ok da timeout (cu_now s) (cu_posted s) (cu_asking s) \<and>
     balancer_ok da timeout (cu_now s) (cu_posted s) (cu_balancer s) \<and>
     returned_ok da timeout age (cu_now s) (cu_posted s) (cu_returned s) \<and>
     (\<forall>t0. asked_at (cu_asking s) = Some t0 \<longrightarrow> refresh_due t0 (cu_balancer s)) \<and>
     selecting_ok (cu_now s) (cu_balancer s) (cu_selecting s) \<and>
     (\<forall>sv \<in> set (cu_servers s). beats_ok dl (cu_now s) (cu_posted s) sv)"

lemmas ok_defs = posted_ok_def asking_ok_def balancer_ok_def selecting_ok_def returned_ok_def beats_ok_def

text \<open>Each part survives waiting and one more heartbeat.\<close>

lemma agrees_wait: "agrees t lb reg \<Longrightarrow> t \<le> u \<Longrightarrow> agrees u lb reg"
  unfolding agrees_def using agrees_at_mono by blast

lemma posted_ok_wait: "posted_ok now posted \<Longrightarrow> now \<le> t \<Longrightarrow> posted_ok t posted"
  unfolding posted_ok_def by fastforce

lemma asking_ok_wait:
  "asking_ok da timeout now posted k \<Longrightarrow> now \<le> t \<Longrightarrow> (\<And>t0. asked_at k = Some t0 \<Longrightarrow> t \<le> t0 + da) \<Longrightarrow>
   asking_ok da timeout t posted k"
  by (auto simp: asking_ok_def split: option.splits asking.splits sum.splits intro: complete_mono)

lemma balancer_ok_wait: "balancer_ok da timeout now posted rs \<Longrightarrow> now \<le> t \<Longrightarrow> balancer_ok da timeout t posted rs"
  by (auto simp: balancer_ok_def)

lemma selecting_ok_wait: "selecting_ok now rs cs \<Longrightarrow> now \<le> t \<Longrightarrow> selecting_ok t rs cs"
  by (auto simp: selecting_ok_def)

lemma returned_ok_wait: "returned_ok da timeout age now posted ret \<Longrightarrow> now \<le> t \<Longrightarrow> returned_ok da timeout age t posted ret"
  by (auto simp: returned_ok_def split: option.splits sum.splits)

lemma beats_ok_wait:
  assumes "beats_ok dl now posted sv" and "now \<le> t" and "\<And>u. bt_due sv = Some u \<Longrightarrow> t \<le> u + dl"
  shows "beats_ok dl t posted sv"
proof (cases "bt_due sv")
  case (Some u)
  let ?a = "ServerAddress (bt_server sv)"
  from assms(1) Some obtain b where b: "(?a, b) \<in> set posted" "b \<le> now" "u \<le> b + bt_rate sv + dl"
    by (auto simp: beats_ok_def)
  have "\<exists>b. (?a, b) \<in> set posted \<and> b \<le> x \<and> x \<le> b + bt_rate sv + 2 * dl" if "bt_since sv \<le> x" "x \<le> t" for x
  proof (cases "x \<le> now")
    case True
    then show ?thesis using assms(1) Some that by (auto simp: beats_ok_def)
  next
    case False
    then show ?thesis using b assms(3)[OF Some] that by (intro exI[of _ b]) auto
  qed
  then show ?thesis using assms Some b by (auto simp: beats_ok_def)
qed (use assms in \<open>simp add: beats_ok_def\<close>)

lemma posted_ok_Cons: "posted_ok now posted \<Longrightarrow> address_ok a \<Longrightarrow> posted_ok now ((a, now) # posted)"
  unfolding posted_ok_def by fastforce

lemma asking_ok_Cons: "asking_ok da timeout now posted k \<Longrightarrow> asking_ok da timeout now ((a, now) # posted) k"
  by (auto simp: asking_ok_def asked_at_def split: asking.splits sum.splits intro: recent_Cons complete_Cons)

lemma balancer_ok_Cons:
  "balancer_ok da timeout now posted rs \<Longrightarrow> 0 \<le> da \<Longrightarrow> balancer_ok da timeout now ((a, now) # posted) rs"
  by (auto simp: balancer_ok_def intro: recent_Cons complete_Cons)

lemma returned_ok_Cons:
  assumes "returned_ok da timeout age now posted ret" and "0 \<le> da"
  shows "returned_ok da timeout age now ((a, now) # posted) ret"
proof (cases "\<exists>t t' call xs. ret = Some (t, t', call, Inr xs)")
  case True
  then obtain t t' call xs where r: "ret = Some (t, t', call, Inr xs)" by blast
  with assms(1) obtain u where u: "t \<le> t'" "t' \<le> now" "t < u + age" "u \<le> t'"
    "recent timeout (filter (\<lambda>e. snd e \<le> t') posted) (u - da) xs"
    "call = CallGetServerList \<longrightarrow> complete timeout posted (u - da) u xs"
    by (auto simp: returned_ok_def)
  have "recent timeout (filter (\<lambda>e. snd e \<le> t') ((a, now) # posted)) (u - da) xs"
    using u(5) by (simp add: recent_Cons)
  moreover have "call = CallGetServerList \<longrightarrow> complete timeout ((a, now) # posted) (u - da) u xs"
    using u assms(2) by (auto intro: complete_Cons)
  ultimately show ?thesis using r u(1-4) by (auto simp: returned_ok_def)
qed (auto simp: returned_ok_def split: option.splits sum.splits)

lemma beats_ok_Cons: "beats_ok dl now posted sv \<Longrightarrow> beats_ok dl now (e # posted) sv"
  unfolding beats_ok_def by (fastforce split: option.splits)


subsection \<open>The steps keep the invariant\<close>

lemma cluster_inv_wait:
  assumes "cluster_inv da dl timeout age s" and "may_wait da dl t s"
  shows "cluster_inv da dl timeout age (s\<lparr>cu_now := t\<rparr>)"
proof -
  have t: "cu_now s \<le> t" "\<And>sv u. sv \<in> set (cu_servers s) \<Longrightarrow> bt_due sv = Some u \<Longrightarrow> t \<le> u + dl"
    "\<And>t0. asked_at (cu_asking s) = Some t0 \<Longrightarrow> t \<le> t0 + da"
    using assms(2) by (auto simp: may_wait_def list_all_iff split: option.splits)
  then show ?thesis
    using assms(1) by (auto simp: cluster_inv_def intro: agrees_wait posted_ok_wait asking_ok_wait
        balancer_ok_wait selecting_ok_wait returned_ok_wait beats_ok_wait)
qed

lemma heartbeat_arrives_eq:
  assumes "ServerAddress srv \<noteq> []"
  shows "snd (heartbeat_arrives srv s) =
    s\<lparr>cu_registry := reg_event_step (cu_registry s) (Beat (cu_now s) (ServerAddress srv)),
      cu_posted := (ServerAddress srv, cu_now s) # cu_posted s\<rparr>"
  using assms
  by (simp add: heartbeat_arrives_def reg_LaunchAndServe_def heartbeat_request_def step_Beat reg_ServeHTTP_def
      header_Get_Set Let_def)

lemma cluster_inv_arrives:
  assumes "cluster_inv da dl timeout age s" and "address_ok (ServerAddress srv)" and "0 \<le> da"
  shows "cluster_inv da dl timeout age (snd (heartbeat_arrives srv s))"
proof -
  let ?a = "ServerAddress srv"
  have a: "?a \<noteq> []" using assms(2) by (simp add: address_ok_def)
  have age: "0 < age" using assms(1) by (simp add: cluster_inv_def balancer_ok_def)
  have "agrees (cu_now s) ((map_of (cu_posted s))(?a \<mapsto> cu_now s)) (reg_event_step (cu_registry s) (Beat (cu_now s) ?a))"
    using agrees_Beat[of "cu_now s" "map_of (cu_posted s)" "cu_registry s" "cu_now s" ?a] assms(1) a
    by (simp add: cluster_inv_def)
  moreover have "Timeout (reg_event_step (cu_registry s) (Beat (cu_now s) ?a)) = timeout"
    using assms(1) by (simp add: step_Beat cluster_inv_def)
  ultimately show ?thesis
    using assms age unfolding heartbeat_arrives_eq[OF a]
    by (auto simp: cluster_inv_def intro: posted_ok_Cons asking_ok_Cons balancer_ok_Cons returned_ok_Cons beats_ok_Cons)
qed

lemma heartbeat_posted_cases:
  assumes "heartbeat_posted srv s answer s1"
  shows "s1 = s \<and> (\<exists>err. answer = Inl err) \<or> s1 = snd (heartbeat_arrives srv s)"
  using assms by (auto simp: heartbeat_posted_def split: sum.splits) (metis snd_conv)

text \<open>A heartbeat goroutine that goes on has had its heartbeat received.\<close>

lemma cluster_inv_posted:
  assumes "cluster_inv da dl timeout age s" and "address_ok (ServerAddress srv)" and "0 \<le> da"
    and "heartbeat_posted srv s answer s1"
  shows "cluster_inv da dl timeout age s1" and "cu_now s1 = cu_now s" and "cu_servers s1 = cu_servers s"
    and "next_tick srv answer t = None \<or>
      next_tick srv answer t = Some t \<and> (ServerAddress srv, cu_now s) \<in> set (cu_posted s1)"
  using heartbeat_posted_cases[OF assms(4)] cluster_inv_arrives[OF assms(1-3)] assms(1,2)
    heartbeat_arrives_eq[of srv s]
  by (auto simp: address_ok_def next_tick_def sendHeartbeat_def split: if_splits)

lemma cluster_inv_servers:
  "cluster_inv da dl timeout age s \<Longrightarrow> (\<And>sv. sv \<in> set svs \<Longrightarrow> beats_ok dl (cu_now s) (cu_posted s) sv) \<Longrightarrow>
   cluster_inv da dl timeout age (s\<lparr>cu_servers := svs\<rparr>)"
  by (simp add: cluster_inv_def)

lemma beats_ok_joins:
  assumes "(ServerAddress srv, now) \<in> set posted \<or> due = None" and "due = None \<or> due = Some (now + e + rate)"
    and "address_ok (ServerAddress srv)" and "0 < rate" and "0 \<le> e" and "e \<le> dl"
  shows "beats_ok dl now posted \<lparr>bt_server = srv, bt_rate = rate, bt_since = now, bt_due = due\<rparr>"
  using assms by (auto simp: beats_ok_def intro!: exI[of _ now])

lemma beats_ok_beats:
  assumes "beats_ok dl now posted sv" and "bt_due sv = Some u" and "u \<le> now"
    and "(ServerAddress (bt_server sv), now) \<in> set posted \<or> due = None" and "due = None \<or> due = Some (u + bt_rate sv)"
  shows "beats_ok dl now posted (sv\<lparr>bt_due := due\<rparr>)"
  using assms by (auto simp: beats_ok_def intro!: exI[of _ now])

lemma beats_ok_stops: "beats_ok dl now posted sv \<Longrightarrow> beats_ok dl now posted (sv\<lparr>bt_due := None\<rparr>)"
  by (simp add: beats_ok_def)


text \<open>What a listing that ends at \<open>u\<close> answers is recent at its start and complete at its end.\<close>

lemma list_at_eq:
  "list_at clk u s =
     (fst (reg_ServeHTTP clk get_request (cu_registry s)),
      s\<lparr>cu_registry := reg_event_step (cu_registry s) (Listing clk u), cu_now := u\<rparr>)"
  by (simp add: list_at_def reg_LaunchAndServe_def reg_event_step_def event_request_def event_clock_def split_def Let_def)

lemma cluster_inv_list:
  assumes "cluster_inv da dl timeout age s" and "\<forall>a. cu_now s \<le> clk a \<and> clk a \<le> u" and "may_wait da dl u s"
  shows "cluster_inv da dl timeout age (snd (list_at clk u s))"
proof -
  let ?s = "s\<lparr>cu_now := u\<rparr>"
  have "cluster_inv da dl timeout age ?s" by (rule cluster_inv_wait[OF assms(1,3)])
  moreover have "agrees u (map_of (cu_posted s)) (reg_event_step (cu_registry s) (Listing clk u))"
    using agrees_Listing assms(1,2) unfolding cluster_inv_def by blast
  moreover have "Timeout (reg_event_step (cu_registry s) (Listing clk u)) = timeout"
    using assms(1) by (simp add: step_Listing getAlive_eq cluster_inv_def)
  ultimately show ?thesis by (simp add: list_at_eq cluster_inv_def)
qed

lemma listing_received:
  assumes "agrees now (map_of posted) reg" and "posted_ok now posted" and "\<forall>a. now \<le> clk a \<and> clk a \<le> u"
  shows "set (listed_servers (resp_Header (fst (reg_ServeHTTP clk get_request reg)))) =
    alive_in (Timeout reg) (map_of posted) clk"
proof -
  let ?A = "alive_in (Timeout reg) (map_of posted) clk"
  have l: "fst (getAliveServerList clk reg) = sorted_list_of_set ?A"
    using assms(3) by (intro listing_agrees[OF assms(1)]) simp
  have "?A \<subseteq> fst ` set posted" by (auto simp: alive_in_def intro: rev_image_eqI dest!: map_of_SomeD)
  then have fin: "finite ?A" using finite_subset by blast
  have "address_ok a" if "a \<in> ?A" for a
    using that assms(2) by (auto simp: alive_in_def posted_ok_def dest!: map_of_SomeD)
  then show ?thesis using fin by (subst listed_servers_answer) (simp_all add: l)
qed

lemma listing_recent_complete:
  assumes "agrees now (map_of posted) reg" and "posted_ok now posted" and "\<forall>a. now \<le> clk a \<and> clk a \<le> u"
    and "t0 \<le> now"
  shows "recent (Timeout reg) posted t0 (listed_servers (resp_Header (fst (reg_ServeHTTP clk get_request reg))))"
    and "complete (Timeout reg) posted t0 u (listed_servers (resp_Header (fst (reg_ServeHTTP clk get_request reg))))"
proof -
  have "young (Timeout reg) b t0" if "Timeout reg = 0 \<or> clk a < b + Timeout reg" for a b
    using that assms(3)[rule_format, of a] assms(4) by (auto simp: young_def)
  then show "recent (Timeout reg) posted t0 (listed_servers (resp_Header (fst (reg_ServeHTTP clk get_request reg))))"
    unfolding recent_def listing_received[OF assms(1-3)] by (auto simp: alive_in_def dest: map_of_SomeD)
  have "Timeout reg = 0 \<or> clk a < b' + Timeout reg" if "young (Timeout reg) b u" "b \<le> b'" for a b b'
    using that assms(3)[rule_format, of a] by (auto simp: young_def)
  then show "complete (Timeout reg) posted t0 u (listed_servers (resp_Header (fst (reg_ServeHTTP clk get_request reg))))"
    using assms(2) unfolding complete_def listing_received[OF assms(1-3)]
    by (fastforce simp: alive_in_def posted_ok_def)
qed

lemma cluster_inv_answers:
  assumes "cluster_inv da dl timeout age s" and "cu_asking s = Asked t0"
    and "\<forall>a. cu_now s \<le> clk a \<and> clk a \<le> u" and "may_wait da dl u s" and "list_at clk u s = (resp, s1)"
  shows "cluster_inv da dl timeout age (s1\<lparr>cu_asking := Answered t0 (Inr (resp_Header resp))\<rparr>)"
proof -
  have s1: "cluster_inv da dl timeout age s1" "cu_now s1 = u" "cu_posted s1 = cu_posted s" "cu_asking s1 = Asked t0"
    "resp = fst (reg_ServeHTTP clk get_request (cu_registry s))"
    using cluster_inv_list[OF assms(1,3,4)] assms(2,5) by (auto simp: list_at_eq)
  have "agrees (cu_now s) (map_of (cu_posted s)) (cu_registry s)" "posted_ok (cu_now s) (cu_posted s)" "t0 \<le> cu_now s"
    "Timeout (cu_registry s) = timeout"
    using assms(1,2) by (auto simp: cluster_inv_def asking_ok_def asked_at_def)
  from listing_recent_complete[OF this(1,2) assms(3) this(3)] this(4) s1 show ?thesis
    by (simp add: cluster_inv_def asking_ok_def asked_at_def)
qed

subsection \<open>Calls of the balancer\<close>

lemma lb_select_list:
  assumes "lb_select call lb = (r, lb1)"
  shows "serverList lb1 = serverList lb"
    and "r = Inr xs \<Longrightarrow> set xs \<subseteq> set (serverList lb) \<and> (call = CallGetServerList \<longrightarrow> xs = serverList lb)"
proof -
  have m: "serverList lb2 = serverList lb" "q = Inr a \<Longrightarrow> a \<in> set (serverList lb)"
    if "cs_GetServer lb mode = (q, lb2)" for q lb2 a mode
    using that cs_GetServer_serverList[of lb mode] cs_GetServer_member[of lb mode] by auto
  show "serverList lb1 = serverList lb"
    using assms m(1) by (auto simp: lb_select_def cs_GetServerList_def split: lb_call.splits prod.splits sum.splits)
  show "r = Inr xs \<Longrightarrow> set xs \<subseteq> set (serverList lb) \<and> (call = CallGetServerList \<longrightarrow> xs = serverList lb)"
    using assms m(2) by (auto simp: lb_select_def cs_GetServerList_def split: lb_call.splits prod.splits sum.splits)
qed

lemma cluster_inv_selects:
  assumes "cluster_inv da dl timeout age s" and "cu_asking s = Idle" and "cu_selecting s = cs1 @ (t, call) # cs2"
    and "lb_select call (clientSide (cu_balancer s)) = (r, lb)"
  shows "cluster_inv da dl timeout age (s\<lparr>cu_balancer := (cu_balancer s)\<lparr>clientSide := lb\<rparr>,
    cu_selecting := cs1 @ cs2, cu_returned := Some (t, cu_now s, call, r)\<rparr>)"
proof -
  let ?rs = "cu_balancer s" and ?p = "cu_posted s"
  have b: "balancer_ok da timeout (cu_now s) ?p ?rs" "lbTimeout ?rs = age" "posted_ok (cu_now s) ?p"
    and t: "t \<le> cu_now s" "t < lastUpdate ?rs + age"
    using assms(1,3) by (auto simp: cluster_inv_def selecting_ok_def)
  have all: "filter (\<lambda>e. snd e \<le> cu_now s) ?p = ?p"
    using b(3) by (intro filter_True) (auto simp: posted_ok_def)
  have "returned_ok da timeout age (cu_now s) ?p (Some (t, cu_now s, call, r))"
  proof (cases r)
    case (Inr xs)
    from lb_select_list(2)[OF assms(4) Inr]
    have x: "set xs \<subseteq> set (rs_servers ?rs)" "call = CallGetServerList \<Longrightarrow> xs = rs_servers ?rs" by auto
    have "recent timeout (filter (\<lambda>e. snd e \<le> cu_now s) ?p) (lastUpdate ?rs - da) xs"
      unfolding all using b(1) x(1) by (auto simp: balancer_ok_def intro: recent_mono)
    then show ?thesis using b(1) t x(2) Inr by (auto simp: returned_ok_def balancer_ok_def)
  qed (simp add: returned_ok_def)
  moreover have "selecting_ok (cu_now s) ?rs (cs1 @ cs2)"
    using assms(1,3) by (auto simp: cluster_inv_def selecting_ok_def)
  ultimately show ?thesis
    using assms(1,2) lb_select_list(1)[OF assms(4)]
    by (simp add: cluster_inv_def balancer_ok_def selecting_ok_def asked_at_def)
qed

lemma cluster_inv_fresh:
  assumes "cluster_inv da dl timeout age s" and "env_now env = cu_now s"
    and "\<not> refresh_due (cu_now s) (cu_balancer s)" and "rs_RefreshServerList env (cu_balancer s) = (None, rs)"
  shows "cluster_inv da dl timeout age
    (s\<lparr>cu_balancer := rs, cu_selecting := cu_selecting s @ [(cu_now s, call)]\<rparr>)"
proof -
  have "cu_now s < lastUpdate (cu_balancer s) + lbTimeout (cu_balancer s)"
    using assms(3) by (simp add: refresh_due_def time_defs)
  moreover have "rs = cu_balancer s" using assms(2,4) calculation rs_refresh_fresh[of env] by simp
  ultimately show ?thesis using assms(1) by (auto simp: cluster_inv_def selecting_ok_def)
qed

text \<open>An answer that came in time replaces the list; an error keeps it and is what the call returns.\<close>

lemma answered_refresh:
  assumes "cluster_inv da dl timeout age s" and "cu_asking s = Answered t0 answer"
    and "rs_RefreshServerList \<lparr>env_now = t0, env_get = (\<lambda>_. answer), env_later = cu_now s\<rparr> (cu_balancer s) = (err, rs)"
  obtains e where "answer = Inl e" "err = Some e" "rs = cu_balancer s"
  | h where "answer = Inr h" "err = None" "rs_servers rs = listed_servers h" "lastUpdate rs = cu_now s"
      "lbTimeout rs = age"
proof -
  have "refresh_due t0 (cu_balancer s)" "lbTimeout (cu_balancer s) = age"
    using assms(1,2) by (auto simp: cluster_inv_def asked_at_def)
  then show ?thesis
    using assms(3) that
    by (cases answer) (auto simp: rs_RefreshServerList_def refresh_due_def listed_servers_def Let_def)
qed

lemma cluster_inv_refreshed:
  assumes "cluster_inv da dl timeout age s" and "cu_asking s = Answered t0 answer"
    and "rs_RefreshServerList \<lparr>env_now = t0, env_get = (\<lambda>_. answer), env_later = cu_now s\<rparr> (cu_balancer s) = (None, rs)"
  shows "cluster_inv da dl timeout age
    (s\<lparr>cu_balancer := rs, cu_asking := Idle, cu_selecting := cu_selecting s @ [(cu_now s, call)]\<rparr>)"
proof -
  from answered_refresh[OF assms] obtain h where h: "answer = Inr h" "rs_servers rs = listed_servers h"
    "lastUpdate rs = cu_now s" "lbTimeout rs = age" by blast
  have l: "recent timeout (cu_posted s) t0 (listed_servers h)" "complete timeout (cu_posted s) t0 (cu_now s) (listed_servers h)"
    and t0: "cu_now s - da \<le> t0"
    and age: "0 < age" "lastUpdate (cu_balancer s) \<le> cu_now s" "lbTimeout (cu_balancer s) = age"
    using assms(1,2) h(1) by (auto simp: cluster_inv_def asking_ok_def asked_at_def balancer_ok_def)
  have "balancer_ok da timeout (cu_now s) (cu_posted s) rs"
    using h age recent_mono[OF l(1) t0] complete_mono[OF l(2) t0] by (simp add: balancer_ok_def)
  moreover have "selecting_ok (cu_now s) rs (cu_selecting s @ [(cu_now s, call)])"
    using assms(1) h age by (fastforce simp: cluster_inv_def selecting_ok_def)
  ultimately show ?thesis using assms(1) h(4) by (simp add: cluster_inv_def asking_ok_def asked_at_def)
qed

lemma cluster_inv_refresh_failed:
  assumes "cluster_inv da dl timeout age s" and "cu_asking s = Answered t0 answer"
    and "rs_RefreshServerList \<lparr>env_now = t0, env_get = (\<lambda>_. answer), env_later = cu_now s\<rparr> (cu_balancer s) = (Some err, rs)"
  shows "cluster_inv da dl timeout age
    (s\<lparr>cu_balancer := rs, cu_asking := Idle, cu_returned := Some (cu_now s, cu_now s, call, Inl err)\<rparr>)"
proof -
  from answered_refresh[OF assms] have "rs = cu_balancer s" by blast
  then show ?thesis using assms(1) by (simp add: cluster_inv_def asking_ok_def asked_at_def returned_ok_def)
qed

subsection \<open>The invariant holds\<close>

lemma cluster_inv_step:
  assumes "cluster_step da dl s t" and "cluster_inv da dl timeout age s" and "0 \<le> da" and "0 \<le> dl"
  shows "cluster_inv da dl timeout age t"
  using assms(1)
proof cases
  case (server_joins srv h e answer s1)
  note p = cluster_inv_posted[OF assms(2) server_joins(2) assms(3) server_joins(6)]
  let ?due = "next_tick srv answer (cu_now s + e + heart_rate h)"
  have "beats_ok dl (cu_now s) (cu_posted s1) \<lparr>bt_server = srv, bt_rate = heart_rate h, bt_since = cu_now s, bt_due = ?due\<rparr>"
    by (rule beats_ok_joins[where e = e]) (use server_joins p(4)[of "cu_now s + e + heart_rate h"] in \<open>auto split: option.splits\<close>)
  then show ?thesis
    using p(1,2) unfolding server_joins(1) by (intro cluster_inv_servers) (auto simp: cluster_inv_def)
next
  case (server_beats k sv u answer s1)
  have "sv \<in> set (cu_servers s)" using server_beats(2,3) by simp
  then have sv: "beats_ok dl (cu_now s) (cu_posted s) sv" using assms(2) by (auto simp: cluster_inv_def)
  then have a: "address_ok (ServerAddress (bt_server sv))" by (simp add: beats_ok_def)
  note p = cluster_inv_posted[OF assms(2) a assms(3) server_beats(6)]
  let ?due = "next_tick (bt_server sv) answer (u + bt_rate sv)"
  have all: "\<And>sv. sv \<in> set (cu_servers s) \<Longrightarrow> beats_ok dl (cu_now s) (cu_posted s1) sv"
    using p(1-3) by (simp add: cluster_inv_def)
  have "beats_ok dl (cu_now s) (cu_posted s1) (sv\<lparr>bt_due := ?due\<rparr>)"
    by (rule beats_ok_beats[OF all server_beats(4,5)])
      (use \<open>sv \<in> _\<close> p(4)[of "u + bt_rate sv"] in \<open>auto split: option.splits\<close>)
  with all show ?thesis
    using p(1-3) unfolding server_beats(1)
    by (intro cluster_inv_servers) (auto dest!: subsetD[OF set_update_subset_insert])
next
  case (server_stops k)
  then show ?thesis
    using assms(2) unfolding server_stops(1)
    by (intro cluster_inv_servers)
      (auto simp: cluster_inv_def dest!: subsetD[OF set_update_subset_insert] intro!: beats_ok_stops)
next
  case (balancer_asks)
  then show ?thesis using assms(2,3) by (auto simp: cluster_inv_def asking_ok_def asked_at_def)
next
  case (no_answer t0 err)
  then show ?thesis using assms(2) by (auto simp: cluster_inv_def asking_ok_def asked_at_def)
next
  case (time_passes t)
  then show ?thesis using cluster_inv_wait[OF assms(2)] by simp
next
  case (other_client clk u)
  then show ?thesis using cluster_inv_list[OF assms(2)] by simp
next
  case (registry_answers t0 clk u resp s1)
  then show ?thesis using cluster_inv_answers[OF assms(2)] by simp
next
  case (fresh_call env rs call)
  then show ?thesis using cluster_inv_fresh[OF assms(2)] by simp
next
  case (refreshed t0 answer rs call)
  then show ?thesis using cluster_inv_refreshed[OF assms(2)] by simp
next
  case (refresh_failed t0 answer err rs call)
  then show ?thesis using cluster_inv_refresh_failed[OF assms(2)] by simp
next
  case (selects cs1 t call cs2 r lb)
  then show ?thesis using cluster_inv_selects[OF assms(2)] by simp
qed

definition list_age :: "duration \<Rightarrow> duration" where
  "list_age lb_timeout = (if lb_timeout = 0 then defaultUpdateTimeout else lb_timeout)"

lemma created_balancer:
  "lbTimeout (CreateLoadBalancerRegistrySide src url lb_timeout) = list_age lb_timeout \<and>
   lastUpdate (CreateLoadBalancerRegistrySide src url lb_timeout) = 0 \<and>
   rs_servers (CreateLoadBalancerRegistrySide src url lb_timeout) = []"
  by (simp add: CreateLoadBalancerRegistrySide_def CreateLoadBalancerClientSide_def list_age_def time_defs split: prod.split)

lemma cluster_inv_started:
  assumes "cluster_started timeout lb_timeout s" and "0 \<le> da" and "0 \<le> lb_timeout"
  shows "cluster_inv da dl timeout (list_age lb_timeout) s"
proof -
  have "lbTimeout (cu_balancer s) = list_age lb_timeout" "lastUpdate (cu_balancer s) = 0" "rs_servers (cu_balancer s) = []"
    "reg_map (cu_registry s) = []" "Timeout (cu_registry s) = timeout"
    using assms(1) by (auto simp: cluster_started_def created_balancer dest: CreateRegistry_fields)
  moreover have "0 < list_age lb_timeout" using assms(3) by (simp add: list_age_def defaultUpdateTimeout_def time_defs)
  ultimately show ?thesis
    using assms by (simp add: cluster_started_def cluster_inv_def agrees_def ok_defs recent_def complete_def asked_at_def time_defs)
qed

interpretation cluster_run: step_system "cluster_started timeout lb_timeout" "cluster_step da dl"
  "\<lambda>s. 0 \<le> da \<longrightarrow> 0 \<le> dl \<longrightarrow> 0 \<le> lb_timeout \<longrightarrow> cluster_inv da dl timeout (list_age lb_timeout) s"
  by unfold_locales (auto intro: cluster_inv_started cluster_inv_step)


subsection \<open>A sample run\<close>

text \<open>The sample server posts at 0; the balancer, with the default age of its list, fetches the list at 20 s.\<close>

definition sample_cluster :: Cluster where
  "sample_cluster =
     (let reg = sample_registry\<lparr>Timeout := DefaultTimeout\<rparr>
      in \<lparr>cu_now = 0, cu_registry = reg, cu_posted = [], cu_servers = [],
          cu_balancer = CreateLoadBalancerRegistrySide sample_source (RegistryURL reg) 0, cu_asking = Idle,
          cu_selecting = [], cu_returned = None\<rparr>)"

definition sample_joined :: Cluster where
  "sample_joined = sample_cluster\<lparr>
     cu_registry := registerServer 0 (ServerAddress sample_server) (cu_registry sample_cluster),
     cu_posted := [(ServerAddress sample_server, 0)],
     cu_servers := [\<lparr>bt_server = sample_server, bt_rate = heart_rate 0, bt_since = 0, bt_due = Some (heart_rate 0)\<rparr>]\<rparr>"

lemma sample_cluster_joins: "cluster_reach time_Second time_Second DefaultTimeout 0 sample_joined"
proof (rule reach_step)
  have "CreateRegistry (Some sample_listener) DefaultTimeout = Ret (Inr (cu_registry sample_cluster))"
    by (simp add: CreateRegistry_def sample_cluster_def sample_listener_def sample_registry_def slice_to_def slice_from_def)
  then show "reach (cluster_started DefaultTimeout 0) (cluster_step time_Second time_Second) sample_cluster"
    by (intro reach_init) (auto simp: cluster_started_def sample_cluster_def zero_time_def Let_def)
  let ?h = "heartbeat_arrives sample_server sample_cluster"
  have now: "cu_now sample_cluster = 0" "cu_servers sample_cluster = []" by (simp_all add: sample_cluster_def Let_def)
  have a: "address_ok (ServerAddress sample_server)"
    by (simp add: sample_server_def address_ok_def trimmed_def is_space_def)
  then have eq: "snd ?h = sample_cluster\<lparr>cu_registry := registerServer 0 (ServerAddress sample_server) (cu_registry sample_cluster),
      cu_posted := [(ServerAddress sample_server, 0)]\<rparr>"
    by (simp add: address_ok_def heartbeat_arrives_eq step_Beat sample_cluster_def Let_def)
  have "heartbeat_posted sample_server sample_cluster (Inr (fst ?h)) (snd ?h)" by (simp add: heartbeat_posted_def)
  from server_joins[OF a _ _ _ this, of 0 0 time_Second time_Second]
  show "cluster_step time_Second time_Second sample_cluster sample_joined"
    by (simp add: eq now next_tick_def sendHeartbeat_def sample_joined_def heart_rate_def DefaultTimeout_def time_defs)
qed

lemma sample_cluster_lists:
  "\<exists>s. cluster_reach time_Second time_Second DefaultTimeout 0 s \<and> cu_servers s = cu_servers sample_joined \<and>
     cu_posted s = cu_posted sample_joined \<and>
     cu_returned s = Some (20 * time_Second, 20 * time_Second, CallGetServerList, Inr [ServerAddress sample_server])"
proof -
  let ?t = "20 * time_Second" and ?D = "time_Second"
  let ?s2 = "sample_joined\<lparr>cu_now := ?t\<rparr>"
  let ?s3 = "?s2\<lparr>cu_asking := Asked ?t\<rparr>"
  let ?l = "list_at (\<lambda>_. ?t) ?t ?s3"
  let ?s4 = "(snd ?l)\<lparr>cu_asking := Answered ?t (Inr (resp_Header (fst ?l)))\<rparr>"
  let ?env = "\<lparr>env_now = ?t, env_get = (\<lambda>_. Inr (resp_Header (fst ?l))), env_later = ?t\<rparr>"
  let ?rs = "cu_balancer sample_cluster"
  note defs = sample_joined_def sample_cluster_def may_wait_def asked_at_def heart_rate_def DefaultTimeout_def time_defs Let_def
  have "cluster_step ?D ?D sample_joined ?s2" by (rule time_passes) (simp add: defs)
  with sample_cluster_joins have r2: "cluster_reach ?D ?D DefaultTimeout 0 ?s2" by (rule reach_step)
  have "cluster_step ?D ?D ?s2 ?s3"
    using balancer_asks[of ?s2 ?D ?D] by (simp add: defs refresh_due_def created_balancer list_age_def defaultUpdateTimeout_def)
  with r2 have r3: "cluster_reach ?D ?D DefaultTimeout 0 ?s3" by (rule reach_step)
  have "cluster_step ?D ?D ?s3 ?s4"
    by (rule registry_answers[of _ _ "\<lambda>_. ?t" ?t]) (simp_all add: defs)
  with r3 have r4: "cluster_reach ?D ?D DefaultTimeout 0 ?s4" by (rule reach_step)
  let ?reg = "registerServer 0 (ServerAddress sample_server) (cu_registry sample_cluster)"
  have g: "fst (getAliveServerList (\<lambda>_. ?t) ?reg) = [ServerAddress sample_server]"
    by (simp add: getAlive_eq registerServer_def is_alive_def sample_registry_def defs)
  have "listed_servers (resp_Header (fst ?l)) = [ServerAddress sample_server]"
    using listed_servers_answer[of "\<lambda>_. ?t" ?reg] g
    by (simp add: list_at_eq sample_joined_def sample_server_def address_ok_def trimmed_def is_space_def)
  moreover have "\<exists>rs1. rs_RefreshServerList ?env ?rs = (None, rs1) \<and> lastUpdate rs1 = ?t \<and>
      rs_servers rs1 = listed_servers (resp_Header (fst ?l))"
    using rs_refresh_stale[of ?rs ?env "resp_Header (fst ?l)"]
    by (simp add: listed_servers_def defs created_balancer list_age_def defaultUpdateTimeout_def)
  ultimately obtain rs1 where rs1: "rs_RefreshServerList ?env ?rs = (None, rs1)" "rs_servers rs1 = [ServerAddress sample_server]"
    by auto
  let ?s5 = "?s4\<lparr>cu_balancer := rs1, cu_asking := Idle, cu_selecting := [(?t, CallGetServerList)]\<rparr>"
  have "cluster_step ?D ?D ?s4 ?s5"
    using refreshed[of ?s4 ?t "Inr (resp_Header (fst ?l))" rs1 ?D ?D CallGetServerList] rs1
    by (simp add: list_at_eq sample_joined_def sample_cluster_def Let_def)
  with r4 have r5: "cluster_reach ?D ?D DefaultTimeout 0 ?s5" by (rule reach_step)
  let ?s6 = "?s5\<lparr>cu_balancer := (cu_balancer ?s5)\<lparr>clientSide := clientSide rs1\<rparr>, cu_selecting := [], cu_returned := Some (?t, ?t, CallGetServerList, Inr [ServerAddress sample_server])\<rparr>"
  have "cluster_step ?D ?D ?s5 ?s6"
    using selects[of ?s5 "[]" ?t CallGetServerList "[]" "Inr [ServerAddress sample_server]" "clientSide rs1" ?D ?D] rs1
    by (simp add: list_at_eq lb_select_def cs_GetServerList_def)
  with r5 have "cluster_reach ?D ?D DefaultTimeout 0 ?s6" by (rule reach_step)
  then show ?thesis by (intro exI[of _ ?s6]) (simp add: list_at_eq)
qed

subsection \<open>Properties\<close>

text \<open>
  C16. A selected server was alive a short while ago: whatever a balancer hands out at \<open>t'\<close> to a caller
  whose refresh ended at \<open>t\<close>, by GetServer or GetServerList, with any number of servers and callers and any
  interleaving, has posted a heartbeat by \<open>t'\<close>, and not longer before \<open>t\<close> than the timeout of the registry,
  that of the balancer, and the time an answer of the registry may take. (With the timeout 0 a server
  is never given up.)
\<close>

theorem selection_is_recent:
  assumes "cluster_reach da dl timeout lb_timeout s" and "0 \<le> da" and "0 \<le> dl" and "0 \<le> lb_timeout"
    and "cu_returned s = Some (t, t', call, Inr xs)" and "a \<in> set xs"
  shows "\<exists>b. (a, b) \<in> set (cu_posted s) \<and> b \<le> t' \<and> (timeout = 0 \<or> t < b + timeout + list_age lb_timeout + da)"
proof -
  have "cluster_inv da dl timeout (list_age lb_timeout) s" using cluster_run.reach_invar[OF assms(1)] assms(2-4) by simp
  then show ?thesis
    using assms(5,6) by (fastforce simp: cluster_inv_def returned_ok_def recent_def young_def)
qed

theorem selection_is_recent_witness:
  "\<exists>s. cluster_reach time_Second time_Second DefaultTimeout 0 s \<and> cu_returned s \<noteq> None \<and>
     (\<exists>b. (ServerAddress sample_server, b) \<in> set (cu_posted s) \<and> 20 * time_Second < b + DefaultTimeout + 11 * time_Second)"
proof -
  obtain s where s: "cluster_reach time_Second time_Second DefaultTimeout 0 s"
    "cu_returned s = Some (20 * time_Second, 20 * time_Second, CallGetServerList, Inr [ServerAddress sample_server])"
    using sample_cluster_lists by blast
  then show ?thesis
    using selection_is_recent[OF s(1) _ _ _ s(2), of "ServerAddress sample_server"]
    by (auto simp: list_age_def defaultUpdateTimeout_def DefaultTimeout_def time_defs)
qed

text \<open>
  C17. A server whose heartbeat goroutine runs is found: as soon as it has posted for as long as a list of
  the balancer may be old, every list that the balancer hands out contains it, if its rate, two delays of
  a heartbeat, the age of a list and the time of an answer together are less than the registry's timeout.
\<close>

theorem beating_server_listed:
  assumes "cluster_reach da dl timeout lb_timeout s" and "0 \<le> da" and "0 \<le> dl" and "0 \<le> lb_timeout"
    and "cu_returned s = Some (t, t', CallGetServerList, Inr xs)"
    and "sv \<in> set (cu_servers s)" and "bt_due sv \<noteq> None" and "bt_since sv + list_age lb_timeout + da \<le> t"
    and "timeout = 0 \<or> bt_rate sv + 2 * dl + list_age lb_timeout + da < timeout"
  shows "ServerAddress (bt_server sv) \<in> set xs"
proof -
  have inv: "cluster_inv da dl timeout (list_age lb_timeout) s" using cluster_run.reach_invar[OF assms(1)] assms(2-4) by simp
  then obtain u where u: "t < u + list_age lb_timeout" "u \<le> t'" "t' \<le> cu_now s" "complete timeout (cu_posted s) (u - da) u xs"
    and age: "0 < list_age lb_timeout"
    using assms(5) by (auto simp: cluster_inv_def balancer_ok_def returned_ok_def)
  let ?x = "u - da - 1"
  have "beats_ok dl (cu_now s) (cu_posted s) sv" using inv assms(6) by (simp add: cluster_inv_def)
  with assms(7) have "\<forall>x. bt_since sv \<le> x \<and> x \<le> cu_now s \<longrightarrow>
      (\<exists>b. (ServerAddress (bt_server sv), b) \<in> set (cu_posted s) \<and> b \<le> x \<and> x \<le> b + bt_rate sv + 2 * dl)"
    by (auto simp: beats_ok_def)
  moreover have "bt_since sv \<le> ?x" "?x \<le> cu_now s" using u assms(2,8) by simp_all
  ultimately obtain b where b: "(ServerAddress (bt_server sv), b) \<in> set (cu_posted s)" "b \<le> ?x" "?x \<le> b + bt_rate sv + 2 * dl"
    by blast
  then have "young timeout b u" using assms(9) age by (auto simp: young_def)
  then show ?thesis using u(4) b by (auto simp: complete_def)
qed

theorem beating_server_listed_witness:
  "\<exists>s xs. cluster_reach time_Second time_Second DefaultTimeout 0 s \<and>
     cu_returned s = Some (20 * time_Second, 20 * time_Second, CallGetServerList, Inr xs) \<and> ServerAddress sample_server \<in> set xs"
proof -
  obtain s where s: "cluster_reach time_Second time_Second DefaultTimeout 0 s" "cu_servers s = cu_servers sample_joined"
    "cu_returned s = Some (20 * time_Second, 20 * time_Second, CallGetServerList, Inr [ServerAddress sample_server])"
    using sample_cluster_lists by blast
  then show ?thesis
    using beating_server_listed[OF s(1) _ _ _ s(3), of "hd (cu_servers sample_joined)"]
    by (auto simp: sample_joined_def list_age_def defaultUpdateTimeout_def heart_rate_def DefaultTimeout_def time_defs)
qed

end
