(* ===== verification/Balanced_Calls.thy ===== *)
theory Balanced_Calls
  imports Client_Wire Load_Balanced_Client
begin

text \<open>
  The load-balanced client in use: any number of goroutines call it, alone or for a broadcast, others
  close it, and the goroutines of its clients run meanwhile. Every client runs as a client of its own
  does (\<open>Client_Calls\<close>), every call is the call of one client, and no open connection is lost.
\<close>

subsection \<open>State\<close>

text \<open>
  A goroutine has what it was asked (method, input, output); it waits for the balancer, has an address
  to dial, has client \<open>i\<close>, waits as caller \<open>k\<close> of client \<open>i\<close>, or has returned. \<open>bl_runs\<close> are the
  states of the clients' goroutines, \<open>bl_dialed\<close> the addresses that the clients were dialed for.
\<close>

type_synonym call_args = "string \<times> go_value \<times> reflect_value option"

datatype balanced_pc =
    BSelecting call_args
  | BHasAddress call_args string
  | BHasClient call_args string nat
  | BWaiting call_args string nat nat
  | BReturned call_args "(string \<times> nat \<times> nat) option" "go_error option"

record 'lb Balanced =
  bl_client :: "'lb LoadBalancedClient"
  bl_runs :: "Calls list"
  bl_dialed :: "string list"
  bl_callers :: "balanced_pc list"

definition balanced_start :: "'lb \<Rightarrow> LoadBalancingMode \<Rightarrow> ConnectionInfo option \<Rightarrow> 'lb Balanced" where
  "balanced_start lb mode info =
     \<lparr>bl_client = CreateLoadBalancedClient lb mode info, bl_runs = [], bl_dialed = [], bl_callers = []\<rparr>"

subsection \<open>Steps\<close>

text \<open>
  A section under the mutex of the load-balanced client changes some clients (it closes them) and may
  make a new one, whose receiver starts.
\<close>

definition follow_runs :: "Client list \<Rightarrow> Calls list \<Rightarrow> Calls list" where
  "follow_runs cs runs =
     map (\<lambda>i. if i < length runs then (runs ! i)\<lparr>cc_client := cs ! i\<rparr> else calls_start (cs ! i)) [0..<length cs]"

definition follow_client :: "string \<Rightarrow> 'lb LoadBalancedClient \<Rightarrow> 'lb Balanced \<Rightarrow> 'lb Balanced" where
  "follow_client a l s = s\<lparr>bl_client := l, bl_runs := follow_runs (clients l) (bl_runs s),
     bl_dialed := bl_dialed s @ replicate (length (clients l) - length (bl_dialed s)) a\<rparr>"

text \<open>A caller of client \<open>i\<close> starts there as its next caller; what it runs afterwards is \<open>calls_step\<close>.\<close>

definition run_call :: "call_args \<Rightarrow> Calls \<Rightarrow> Calls" where
  "run_call args r = (case args of (serviceDotMethod, inputs, output) \<Rightarrow>
     r\<lparr>cc_callers := cc_callers r @ [CSending],
       cc_client := (cc_client r)\<lparr>heap := heap (cc_client r) @ [new_call serviceDotMethod inputs output 1]\<rparr>\<rparr>)"

definition set_run :: "nat \<Rightarrow> Calls \<Rightarrow> 'lb Balanced \<Rightarrow> 'lb Balanced" where
  "set_run i r s = s\<lparr>bl_runs := (bl_runs s)[i := r],
     bl_client := (bl_client s)\<lparr>clients := (clients (bl_client s))[i := cc_client r]\<rparr>\<rparr>"

text \<open>The goroutines of a client neither start callers nor close it: those are steps of this machine.\<close>

definition inner_step :: "Calls \<Rightarrow> Calls \<Rightarrow> bool" where
  "inner_step r r' \<longleftrightarrow> calls_step r r' \<and> length (cc_callers r') = length (cc_callers r) \<and>
     isClosed (cc_client r') = isClosed (cc_client r)"

abbreviation set_pc :: "nat \<Rightarrow> balanced_pc \<Rightarrow> 'lb Balanced \<Rightarrow> 'lb Balanced" where
  "set_pc j p s \<equiv> s\<lparr>bl_callers := (bl_callers s)[j := p]\<rparr>"

inductive balanced_step ::
  "('e \<Rightarrow> 'lb \<Rightarrow> LoadBalancingMode \<Rightarrow> (go_error + string) \<times> 'lb) \<Rightarrow>
   ('e \<Rightarrow> 'lb \<Rightarrow> (go_error + string list) \<times> 'lb) \<Rightarrow> 'lb Balanced \<Rightarrow> 'lb Balanced \<Rightarrow> bool" for get_server get_list where
  bl_call: "balanced_step get_server get_list s (s\<lparr>bl_callers := bl_callers s @ [BSelecting args]\<rparr>)"
| bl_broadcast: "get_list e (lbc_loadBalancer (bl_client s)) = (Inr as, lb) \<Longrightarrow>
    balanced_step get_server get_list s (s\<lparr>bl_client := (bl_client s)\<lparr>lbc_loadBalancer := lb\<rparr>,
      bl_callers := bl_callers s @ map (BHasAddress args) as\<rparr>)"
| bl_selected: "j < length (bl_callers s) \<Longrightarrow> bl_callers s ! j = BSelecting args \<Longrightarrow>
    get_server e (lbc_loadBalancer (bl_client s)) (lbc_mode (bl_client s)) = (Inr a, lb) \<Longrightarrow>
    balanced_step get_server get_list s
      (set_pc j (BHasAddress args a) (s\<lparr>bl_client := (bl_client s)\<lparr>lbc_loadBalancer := lb\<rparr>\<rparr>))"
| bl_not_selected: "j < length (bl_callers s) \<Longrightarrow> bl_callers s ! j = BSelecting args \<Longrightarrow>
    get_server e (lbc_loadBalancer (bl_client s)) (lbc_mode (bl_client s)) = (Inl err, lb) \<Longrightarrow>
    balanced_step get_server get_list s
      (set_pc j (BReturned args None (Some err)) (s\<lparr>bl_client := (bl_client s)\<lparr>lbc_loadBalancer := lb\<rparr>\<rparr>))"
| bl_dials: "j < length (bl_callers s) \<Longrightarrow> bl_callers s ! j = BHasAddress args a \<Longrightarrow>
    lbc_dial env a (bl_client s) = (Inr i, l) \<Longrightarrow>
    balanced_step get_server get_list s (set_pc j (BHasClient args a i) (follow_client a l s))"
| bl_not_dialed: "j < length (bl_callers s) \<Longrightarrow> bl_callers s ! j = BHasAddress args a \<Longrightarrow>
    lbc_dial env a (bl_client s) = (Inl err, l) \<Longrightarrow>
    balanced_step get_server get_list s (set_pc j (BReturned args None (Some err)) (follow_client a l s))"
| bl_starts: "j < length (bl_callers s) \<Longrightarrow> bl_callers s ! j = BHasClient args a i \<Longrightarrow>
    balanced_step get_server get_list s
      (set_pc j (BWaiting args a i (length (cc_callers (bl_runs s ! i)))) (set_run i (run_call args (bl_runs s ! i)) s))"
| bl_returns: "j < length (bl_callers s) \<Longrightarrow> bl_callers s ! j = BWaiting args a i k \<Longrightarrow>
    cc_callers (bl_runs s ! i) ! k = CReturned r \<Longrightarrow>
    balanced_step get_server get_list s (set_pc j (BReturned args (Some (a, i, k)) r) s)"
| bl_closes: "lbc_Close (bl_client s) = (e1, l) \<Longrightarrow>
    balanced_step get_server get_list s (follow_client [] l s)"
| bl_inner: "i < length (bl_runs s) \<Longrightarrow> inner_step (bl_runs s ! i) r \<Longrightarrow>
    balanced_step get_server get_list s (set_run i r s)"

definition balanced_started :: "'lb Balanced \<Rightarrow> bool" where
  "balanced_started s \<longleftrightarrow> (\<exists>lb mode info. s = balanced_start lb mode info)"

abbreviation balanced_reach ::
  "('e \<Rightarrow> 'lb \<Rightarrow> LoadBalancingMode \<Rightarrow> (go_error + string) \<times> 'lb) \<Rightarrow>
   ('e \<Rightarrow> 'lb \<Rightarrow> (go_error + string list) \<times> 'lb) \<Rightarrow> 'lb Balanced \<Rightarrow> bool" where
  "balanced_reach get_server get_list \<equiv> reach balanced_started (balanced_step get_server get_list)"

subsection \<open>A client on its own\<close>

lemma calls_step_returned:
  assumes "calls_step s t" and "k < length (cc_callers s)" and "cc_callers s ! k = CReturned r"
  shows "cc_callers t ! k = CReturned r \<and> k < length (cc_callers t)"
  using assms by cases (auto simp: nth_append nth_list_update)

lemma calls_step_lengths:
  assumes "calls_step s t" and "length (cc_callers s) = length (heap (cc_client s))"
  shows "length (cc_callers t) = length (heap (cc_client t))"
  using assms by cases (auto dest!: heap_lengths frame_ops)

lemma calls_step_open:
  assumes "calls_step s t" and "\<not> conn_open (connection (cl_coder (cc_client s)))"
  shows "\<not> conn_open (connection (cl_coder (cc_client t)))"
proof -
  consider "quiet_coder (cc_client s) (cc_client t)" | i k r where "send_encode i k (cc_client s) = (r, cc_client t)"
    using calls_step_writes[OF assms(1)] by blast
  then show ?thesis
  proof cases
    case 1
    then show ?thesis using assms(2) by (auto simp: quiet_coder_def)
  next
    case (2 i k r)
    then have "cc_client t = snd (send_encode i k (cc_client s))" by simp
    then show ?thesis using assms(2) by (simp add: send_encode_def Let_def split_def encode_keeps_open)
  qed
qed

text \<open>A closed client has closed its connection.\<close>

definition closed_ok :: "Client \<Rightarrow> bool" where
  "closed_ok c \<longleftrightarrow> (isClosed c \<longrightarrow> \<not> conn_open (connection (cl_coder c)))"

lemma closed_ok_inner: "inner_step r r' \<Longrightarrow> closed_ok (cc_client r) \<Longrightarrow> closed_ok (cc_client r')"
  by (auto simp: inner_step_def closed_ok_def dest: calls_step_open)

lemma closed_ok_Close: "closed_ok c \<Longrightarrow> closed_ok (snd (client_Close c)) \<and> isClosed (snd (client_Close c))"
  by (auto simp: closed_ok_def client_Close_def jc_Close_def conn_Close_def Let_def split: prod.splits)


subsection \<open>What a section under the mutex does to the clients\<close>

definition fresh_client :: "Client \<Rightarrow> bool" where
  "fresh_client c \<longleftrightarrow> calls_started (calls_start c) \<and> \<not> isClosed c"

definition tended :: "Client list \<Rightarrow> Client list \<Rightarrow> bool" where
  "tended cs cs' \<longleftrightarrow> length cs \<le> length cs' \<and>
     (\<forall>i < length cs'. if i < length cs then cs' ! i = cs ! i \<or> cs' ! i = snd (client_Close (cs ! i)) else fresh_client (cs' ! i))"

lemma Close_twice: "snd (client_Close (snd (client_Close c))) = snd (client_Close c)"
  using closed_ok_Close by (simp add: client_Close_def Let_def split: prod.splits)

lemma tended_refl [simp]: "tended cs cs"
  by (simp add: tended_def)

lemma tended_append: "tended cs cs' \<Longrightarrow> fresh_client c \<Longrightarrow> tended cs (cs' @ [c])"
  by (auto simp: tended_def nth_append less_Suc_eq)

lemma Close_again:
  "c' = c \<or> c' = snd (client_Close c) \<Longrightarrow> snd (client_Close c') = snd (client_Close c)"
  by (auto simp: Close_twice)

lemma tended_close:
  assumes "tended cs (clients l)" and "i < length cs"
  shows "tended cs (clients (close_client i l))"
proof -
  have "snd (client_Close (clients l ! i)) = snd (client_Close (cs ! i))"
    using assms by (intro Close_again) (auto simp: tended_def)
  then show ?thesis
    using assms by (auto simp: tended_def close_client_def nth_list_update)
qed

lemma close_client_isClosed:
  "i < length (clients l) \<Longrightarrow> isClosed (clients (close_client i l) ! i)"
  "isClosed (clients l ! j) \<Longrightarrow> j < length (clients l) \<Longrightarrow> isClosed (clients (close_client i l) ! j)"
proof -
  have "isClosed (snd (client_Close c))" for c by (simp add: client_Close_def split: prod.splits)
  then show "i < length (clients l) \<Longrightarrow> isClosed (clients (close_client i l) ! i)"
    "isClosed (clients l ! j) \<Longrightarrow> j < length (clients l) \<Longrightarrow> isClosed (clients (close_client i l) ! j)"
    by (auto simp: close_client_def) (cases "i = j"; simp)
qed

lemma close_entries_tended:
  assumes "tended cs (clients l)" and "\<forall>(a, i) \<in> set es. i < length cs"
  shows "tended cs (clients (close_entries es l)) \<and> length (clients (close_entries es l)) = length (clients l) \<and>
    (\<forall>j < length (clients l). isClosed (clients l ! j) \<or> j \<in> snd ` set es \<longrightarrow> isClosed (clients (close_entries es l) ! j))"
  using assms
proof (induction es l rule: close_entries.induct)
  case (2 a i es l)
  let ?l1 = "close_client i l"
  let ?l2 = "?l1\<lparr>serverAddressToClientMap := AList.delete a (serverAddressToClientMap ?l1)\<rparr>"
  have i: "i < length cs" "i < length (clients l)" using "2.prems" by (auto simp: tended_def)
  have "tended cs (clients ?l2)" using tended_close[OF "2.prems"(1) i(1)] by simp
  from "2.IH"[OF refl this] "2.prems"(2) show ?case
    using close_client_isClosed[where l = l] i(2) by (auto simp: Let_def)
qed simp

text \<open>A dial keeps an available client, or forgets a closed one, and may add a new one.\<close>

lemma XMakeDial_fresh: "fst (XMakeDial env a infos) = Inr c \<Longrightarrow> fresh_client c"
proof -
  have "fresh_client client" if "CreateClient addr c' info = (Inr client, c1)" for client addr c' info c1
    using that by (auto simp: CreateClient_def fresh_client_def calls_started_def new_Client_def Let_def
        split: option.splits prod.splits)
  then show "fst (XMakeDial env a infos) = Inr c \<Longrightarrow> fresh_client c"
    by (auto simp: XMakeDial_def MakeDial_def MakeDialHTTP_def MakeDialWithTimeout_def CreateClientHTTP_def
        split: list.splits if_splits sum.splits prod.splits)
qed

lemma lbc_dial_cases:
  assumes "lbc_dial env a l = (r, l')"
  obtains (old) i where "map_of (serverAddressToClientMap l) a = Some i" "l' = l" "r = Inr i"
  | (other) l1 where "l1 = l \<and> map_of (serverAddressToClientMap l) a = None \<or>
        (\<exists>i. map_of (serverAddressToClientMap l) a = Some i \<and>
           l1 = (close_client i l)\<lparr>serverAddressToClientMap := AList.delete a (serverAddressToClientMap l)\<rparr>)"
      "(\<exists>err. r = Inl err \<and> l' = l1) \<or>
       (\<exists>c. fresh_client c \<and> r = Inr (length (clients l1)) \<and> l' = l1\<lparr>clients := clients l1 @ [c],
          serverAddressToClientMap := AList.update a (length (clients l1)) (serverAddressToClientMap l1)\<rparr>)"
proof (cases "\<exists>i. map_of (serverAddressToClientMap l) a = Some i \<and> IsAvailable (clients l ! i)")
  case True
  then obtain i where i: "map_of (serverAddressToClientMap l) a = Some i" "IsAvailable (clients l ! i)" by blast
  then have "lbc_dial env a l = (Inr i, l)" by (simp add: lbc_dial_def)
  then show ?thesis using assms by (intro old[OF i(1)]) simp_all
next
  case False
  define l1 where "l1 = (case map_of (serverAddressToClientMap l) a of None \<Rightarrow> l
    | Some i \<Rightarrow> (close_client i l)\<lparr>serverAddressToClientMap := AList.delete a (serverAddressToClientMap l)\<rparr>)"
  have d: "lbc_dial env a l = (case fst (XMakeDial env a [lbc_connectionInfo l1]) of
      Inl err \<Rightarrow> (Inl err, l1)
    | Inr c \<Rightarrow> (Inr (length (clients l1)), l1\<lparr>clients := clients l1 @ [c],
        serverAddressToClientMap := AList.update a (length (clients l1)) (serverAddressToClientMap l1)\<rparr>))"
    using False unfolding lbc_dial_def l1_def Let_def
    by (cases "map_of (serverAddressToClientMap l) a") (simp_all split: sum.split)
  have r: "(\<exists>err. r = Inl err \<and> l' = l1) \<or>
       (\<exists>c. fresh_client c \<and> r = Inr (length (clients l1)) \<and> l' = l1\<lparr>clients := clients l1 @ [c],
          serverAddressToClientMap := AList.update a (length (clients l1)) (serverAddressToClientMap l1)\<rparr>)"
  proof (cases "fst (XMakeDial env a [lbc_connectionInfo l1])")
    case (Inr c)
    then show ?thesis using assms d XMakeDial_fresh[OF Inr] by (intro disjI2 exI[of _ c]) simp
  next
    case (Inl e)
    then show ?thesis using assms d by (intro disjI1 exI[of _ e]) simp
  qed
  show ?thesis by (rule other[OF _ r]) (auto simp: l1_def split: option.split)
qed


subsection \<open>Invariant\<close>

abbreviation bl_map :: "'lb Balanced \<Rightarrow> (string, nat) dict" where
  "bl_map s \<equiv> serverAddressToClientMap (bl_client s)"

text \<open>The clients and the map: a client that is not closed is in the map, under the address it was dialed for.\<close>

definition kept :: "'lb LoadBalancedClient \<Rightarrow> string list \<Rightarrow> bool" where
  "kept l ds \<longleftrightarrow> lbc_inv l \<and> length ds = length (clients l) \<and>
     (\<forall>a i. map_of (serverAddressToClientMap l) a = Some i \<longrightarrow> ds ! i = a) \<and>
     (\<forall>i < length ds. closed_ok (clients l ! i) \<and>
        (\<not> isClosed (clients l ! i) \<longrightarrow> map_of (serverAddressToClientMap l) (ds ! i) = Some i))"

text \<open>Every client runs as one of its own.\<close>

definition runs_ok :: "Client list \<Rightarrow> Calls list \<Rightarrow> bool" where
  "runs_ok cs runs \<longleftrightarrow> cs = map cc_client runs \<and>
     (\<forall>r \<in> set runs. calls_reach r \<and> length (cc_callers r) = length (heap (cc_client r)))"

text \<open>A goroutine that waits or has returned is, or was, one caller of one client, with what it was asked.\<close>

definition asked :: "call_args \<Rightarrow> string \<times> go_value \<times> go_type option" where
  "asked args = (case args of (f, x, y) \<Rightarrow> (f, x, map_option rv_Type y))"

definition calls_at :: "Calls list \<Rightarrow> string list \<Rightarrow> call_args \<Rightarrow> string \<Rightarrow> nat \<Rightarrow> nat \<Rightarrow> bool" where
  "calls_at runs ds args a i k \<longleftrightarrow> i < length runs \<and> ds ! i = a \<and> k < length (cc_callers (runs ! i)) \<and>
     given (heap (cc_client (runs ! i)) ! k) = asked args"

fun pc_ok :: "Calls list \<Rightarrow> string list \<Rightarrow> balanced_pc \<Rightarrow> bool" where
  "pc_ok runs ds (BHasClient args a i) = (i < length runs \<and> ds ! i = a)"
| "pc_ok runs ds (BWaiting args a i k) = calls_at runs ds args a i k"
| "pc_ok runs ds (BReturned args (Some (a, i, k)) r) =
     (calls_at runs ds args a i k \<and> cc_callers (runs ! i) ! k = CReturned r)"
| "pc_ok runs ds (BReturned args None r) = (r \<noteq> None)"
| "pc_ok runs ds _ = True"

fun place :: "balanced_pc \<Rightarrow> (nat \<times> nat) option" where
  "place (BWaiting args a i k) = Some (i, k)"
| "place (BReturned args (Some (a, i, k)) r) = Some (i, k)"
| "place _ = None"

definition apart :: "balanced_pc list \<Rightarrow> bool" where
  "apart ps \<longleftrightarrow> (\<forall>j < length ps. \<forall>j' < length ps. j \<noteq> j' \<longrightarrow> place (ps ! j) \<noteq> None \<longrightarrow> place (ps ! j) \<noteq> place (ps ! j'))"

definition balanced_inv :: "'lb Balanced \<Rightarrow> bool" where
  "balanced_inv s \<longleftrightarrow> kept (bl_client s) (bl_dialed s) \<and> runs_ok (clients (bl_client s)) (bl_runs s) \<and>
     (\<forall>p \<in> set (bl_callers s). pc_ok (bl_runs s) (bl_dialed s) p) \<and> apart (bl_callers s)"

subsection \<open>The callers are not disturbed\<close>

definition evolves :: "Calls list \<Rightarrow> Calls list \<Rightarrow> bool" where
  "evolves runs runs' \<longleftrightarrow> length runs \<le> length runs' \<and>
     (\<forall>i < length runs. \<forall>k < length (cc_callers (runs ! i)). k < length (cc_callers (runs' ! i)) \<and>
        given (heap (cc_client (runs' ! i)) ! k) = given (heap (cc_client (runs ! i)) ! k) \<and>
        (\<forall>r. cc_callers (runs ! i) ! k = CReturned r \<longrightarrow> cc_callers (runs' ! i) ! k = CReturned r))"

lemma pc_ok_evolves:
  assumes "evolves runs runs'" and "length ds = length runs" and "pc_ok runs ds p"
  shows "pc_ok runs' (ds @ es) p"
  using assms
  by (induction runs ds p rule: pc_ok.induct) (auto simp: evolves_def calls_at_def nth_append)

lemma evolves_step:
  assumes "i < length runs" and "calls_step (runs ! i) r"
    and "length (cc_callers (runs ! i)) = length (heap (cc_client (runs ! i)))"
  shows "evolves runs (runs[i := r])"
proof -
  have "k < length (cc_callers r) \<and>
      given (heap (cc_client r) ! k) = given (heap (cc_client (runs ! i)) ! k) \<and>
      (\<forall>q. cc_callers (runs ! i) ! k = CReturned q \<longrightarrow> cc_callers r ! k = CReturned q)"
    if "k < length (cc_callers (runs ! i))" for k
    using that calls_step_given[OF assms(2)] calls_step_returned[OF assms(2)] calls_step_length[OF assms(2)]
      calls_step_lengths[OF assms(2,3)] assms(3) by simp
  then have "\<forall>j < length runs. \<forall>k < length (cc_callers (runs ! j)). k < length (cc_callers (runs[i := r] ! j)) \<and>
      given (heap (cc_client (runs[i := r] ! j)) ! k) = given (heap (cc_client (runs ! j)) ! k) \<and>
      (\<forall>q. cc_callers (runs ! j) ! k = CReturned q \<longrightarrow> cc_callers (runs[i := r] ! j) ! k = CReturned q)"
    using assms(1) by (metis nth_list_update_eq nth_list_update_neq)
  then show ?thesis by (simp add: evolves_def)
qed

text \<open>A step of a client.\<close>

lemma balanced_inv_run:
  assumes inv: "balanced_inv s" and i: "i < length (bl_runs s)" and st: "calls_step (bl_runs s ! i) r"
    and cl: "isClosed (cc_client r) = isClosed (cc_client (bl_runs s ! i))"
  shows "balanced_inv (set_run i r s)"
proof -
  let ?l = "bl_client s" and ?ds = "bl_dialed s" and ?r = "bl_runs s ! i"
  have ro: "clients ?l = map cc_client (bl_runs s)" "calls_reach ?r" "length (cc_callers ?r) = length (heap (cc_client ?r))"
    and len: "length ?ds = length (bl_runs s)"
    using inv i by (auto simp: balanced_inv_def runs_ok_def kept_def)
  have "closed_ok (cc_client ?r)" using inv i len ro(1) by (auto simp: balanced_inv_def kept_def)
  then have co: "closed_ok (cc_client r)" using cl calls_step_open[OF st] by (auto simp: closed_ok_def)
  have k: "kept (?l\<lparr>clients := (clients ?l)[i := cc_client r]\<rparr>) ?ds"
    using inv co cl ro(1) i len by (auto simp: balanced_inv_def kept_def lbc_inv_def nth_list_update)
  have "calls_reach r" "length (cc_callers r) = length (heap (cc_client r))"
    using reach_step[OF ro(2) st] calls_step_lengths[OF st ro(3)] by auto
  then have "runs_ok ((clients ?l)[i := cc_client r]) ((bl_runs s)[i := r])"
    using inv by (auto simp: balanced_inv_def runs_ok_def map_update dest!: subsetD[OF set_update_subset_insert])
  moreover have "\<forall>p \<in> set (bl_callers s). pc_ok ((bl_runs s)[i := r]) ?ds p"
    using pc_ok_evolves[OF evolves_step[OF i st ro(3)] len, of _ "[]"] inv by (simp add: balanced_inv_def)
  ultimately show ?thesis using inv k by (simp add: balanced_inv_def set_run_def)
qed


subsection \<open>The sections under the mutex keep the clients\<close>

lemma follow_runs_nth:
  "i < length cs \<Longrightarrow> follow_runs cs runs ! i =
     (if i < length runs then (runs ! i)\<lparr>cc_client := cs ! i\<rparr> else calls_start (cs ! i))"
  by (simp add: follow_runs_def)

lemma follow_runs_length [simp]: "length (follow_runs cs runs) = length cs"
  by (simp add: follow_runs_def)

lemma runs_ok_follow:
  assumes "runs_ok cs runs" and "tended cs cs'"
  shows "runs_ok cs' (follow_runs cs' runs)" and "evolves runs (follow_runs cs' runs)"
proof -
  have cs: "cs = map cc_client runs" and len: "length runs \<le> length cs'"
    using assms by (auto simp: runs_ok_def tended_def)
  have old: "(cs' ! i = cc_client (runs ! i) \<or> cs' ! i = snd (client_Close (cc_client (runs ! i)))) \<and>
      heap (cs' ! i) = heap (cc_client (runs ! i))" if "i < length runs" for i
    using that assms(2) len frame_ops(1)[of "cc_client (runs ! i)"] unfolding tended_def cs
    by (metis length_map less_le_trans nth_map surjective_pairing)
  have good: "calls_reach r \<and> length (cc_callers r) = length (heap (cc_client r))"
    if "r = follow_runs cs' runs ! i" "i < length cs'" for r i
  proof (cases "i < length runs")
    case True
    then have ro: "calls_reach (runs ! i)" "length (cc_callers (runs ! i)) = length (heap (cc_client (runs ! i)))"
      using assms(1) by (auto simp: runs_ok_def)
    have "r = runs ! i \<or> calls_step (runs ! i) r"
      using old[OF True] True that close[of "runs ! i" "fst (client_Close (cc_client (runs ! i)))"]
      by (auto simp: follow_runs_nth)
    then have "calls_reach r" using ro(1) reach_step by metis
    then show ?thesis using ro(2) old[OF True] True that by (simp add: follow_runs_nth)
  next
    case False
    then have "fresh_client (cs' ! i)" using assms(2) that(2) by (auto simp: tended_def cs)
    then show ?thesis
      using False that by (auto simp: follow_runs_nth fresh_client_def calls_started_def calls_start_def new_Client_def
          intro!: reach_init)
  qed
  have "cs' = map cc_client (follow_runs cs' runs)"
    by (rule nth_equalityI) (simp_all add: follow_runs_nth calls_start_def)
  then show "runs_ok cs' (follow_runs cs' runs)"
    using good by (auto simp: runs_ok_def in_set_conv_nth)
  show "evolves runs (follow_runs cs' runs)"
    using len old by (auto simp: evolves_def follow_runs_nth)
qed

lemma balanced_inv_follow:
  assumes inv: "balanced_inv s" and t: "tended (clients (bl_client s)) (clients l)"
    and k: "kept l (bl_dialed s @ replicate (length (clients l) - length (bl_dialed s)) a)"
  shows "balanced_inv (follow_client a l s)"
proof -
  have ro: "runs_ok (clients (bl_client s)) (bl_runs s)" and len: "length (bl_dialed s) = length (bl_runs s)"
    using inv by (auto simp: balanced_inv_def runs_ok_def kept_def)
  from pc_ok_evolves[OF runs_ok_follow(2)[OF ro t] len] inv runs_ok_follow(1)[OF ro t] k show ?thesis
    by (simp add: balanced_inv_def follow_client_def)
qed

lemma kept_drop:
  assumes "kept l ds" and "map_of (serverAddressToClientMap l) a = Some i"
  shows "kept ((close_client i l)\<lparr>serverAddressToClientMap := AList.delete a (serverAddressToClientMap l)\<rparr>) ds"
    (is "kept ?l ds")
proof -
  have i: "i < length (clients l)" and inv: "lbc_inv l" and d: "ds ! i = a"
    using assms map_of_SomeD[OF assms(2)] by (auto simp: kept_def lbc_inv_def)
  have c: "closed_ok (clients ?l ! j) \<and> (\<not> isClosed (clients ?l ! j) \<longrightarrow> j \<noteq> i \<and> \<not> isClosed (clients l ! j))"
    if "j < length ds" for j
    using that assms(1) i closed_ok_Close[of "clients l ! i"]
    by (cases "j = i") (auto simp: kept_def close_client_def)
  have m: "map_of (serverAddressToClientMap ?l) b = Some j \<longleftrightarrow> b \<noteq> a \<and> map_of (serverAddressToClientMap l) b = Some j" for b j
    by (simp add: delete_conv')
  have "ds ! j \<noteq> a" if "j < length ds" "j \<noteq> i" "\<not> isClosed (clients l ! j)" for j
    using that assms by (auto simp: kept_def)
  then show ?thesis
    using assms(1) c lbc_inv_drop[OF inv] unfolding kept_def m by simp
qed

lemma kept_put:
  assumes "kept l ds" and "map_of (serverAddressToClientMap l) a = None" and "fresh_client c"
  shows "kept (l\<lparr>clients := clients l @ [c],
    serverAddressToClientMap := AList.update a (length (clients l)) (serverAddressToClientMap l)\<rparr>) (ds @ [a])"
    (is "kept ?l _")
proof -
  have inv: "lbc_inv l" and len: "length ds = length (clients l)" using assms(1) by (auto simp: kept_def)
  have b: "j < length ds" if "map_of (serverAddressToClientMap l) b = Some j" for b j
    using that map_of_SomeD[OF that] inv len by (auto simp: lbc_inv_def)
  have "ds ! j \<noteq> a" if "j < length ds" "\<not> isClosed (clients l ! j)" for j
    using that assms(1,2) by (auto simp: kept_def)
  then show ?thesis
    using assms(1,3) b len lbc_inv_put[OF inv]
    by (auto simp: kept_def update_conv' nth_append less_Suc_eq fresh_client_def closed_ok_def)
qed

lemma lbc_dial_keeps:
  assumes "kept l ds" and "lbc_dial env a l = (r, l')"
  shows "kept l' (ds @ replicate (length (clients l') - length ds) a) \<and> tended (clients l) (clients l') \<and>
    (\<forall>i. r = Inr i \<longrightarrow> i < length (clients l') \<and> (ds @ replicate (length (clients l') - length ds) a) ! i = a)"
  using assms(2)
proof (cases rule: lbc_dial_cases)
  case (old i)
  then show ?thesis using assms(1) map_of_SomeD[OF old(1)] by (auto simp: kept_def lbc_inv_def nth_append)
next
  case (other l1)
  have len: "length ds = length (clients l)" using assms(1) by (simp add: kept_def)
  have l1: "kept l1 ds \<and> tended (clients l) (clients l1) \<and> map_of (serverAddressToClientMap l1) a = None"
    using other(1)
  proof (elim disjE exE conjE)
    fix i
    assume i: "map_of (serverAddressToClientMap l) a = Some i"
      and l1: "l1 = (close_client i l)\<lparr>serverAddressToClientMap := AList.delete a (serverAddressToClientMap l)\<rparr>"
    have "i < length (clients l)" using assms(1) map_of_SomeD[OF i] by (auto simp: kept_def lbc_inv_def)
    then show ?thesis
      using kept_drop[OF assms(1) i] tended_close[OF tended_refl] by (simp add: l1 delete_conv')
  qed (use assms(1) in simp)
  then have len1: "length ds = length (clients l1)" by (simp add: kept_def)
  from other(2) show ?thesis
  proof (elim disjE exE conjE)
    fix c
    assume c: "fresh_client c" and "r = Inr (length (clients l1))"
      and "l' = l1\<lparr>clients := clients l1 @ [c], serverAddressToClientMap :=
        AList.update a (length (clients l1)) (serverAddressToClientMap l1)\<rparr>"
    then show ?thesis using kept_put[of l1 ds a c] l1 len1 tended_append by (auto simp: nth_append)
  qed (use l1 len1 in simp)
qed

lemma lbc_Close_keeps:
  assumes "kept l ds" and "lbc_Close l = (e, l')"
  shows "kept l' ds \<and> tended (clients l) (clients l') \<and> (\<forall>i < length (clients l'). isClosed (clients l' ! i))"
proof -
  let ?m = "serverAddressToClientMap l"
  have l': "l' = close_entries ?m l" and inv: "lbc_inv l" and len: "length ds = length (clients l)"
    using assms by (auto simp: lbc_Close_def kept_def)
  have r: "\<forall>(a, i) \<in> set ?m. i < length (clients l)" using inv by (simp add: lbc_inv_def)
  note t = close_entries_tended[OF tended_refl r, folded l']
  have all: "isClosed (clients l' ! i)" if "i < length (clients l)" for i
  proof (cases "isClosed (clients l ! i)")
    case False
    then have "map_of ?m (ds ! i) = Some i" using assms(1) that len by (simp add: kept_def)
    then have "i \<in> snd ` set ?m" by (force dest: map_of_SomeD)
    then show ?thesis using t that by blast
  qed (use t that in blast)
  have "map_of (serverAddressToClientMap l') = Map.empty"
    using close_entries_closed[OF r] unfolding l' by (auto simp: fun_eq_iff map_of_eq_None_iff)
  then have m: "serverAddressToClientMap l' = []" by (cases "serverAddressToClientMap l'") (auto simp: fun_eq_iff split: if_splits)
  have "closed_ok (clients l' ! i)" if "i < length (clients l)" for i
    using that t assms(1) len closed_ok_Close[of "clients l ! i"] unfolding tended_def kept_def by metis
  then show ?thesis using all t m len by (simp add: kept_def lbc_inv_def)
qed


subsection \<open>Every step keeps the invariant\<close>

lemma apart_set:
  assumes "apart ps" and "\<forall>j' < length ps. j' \<noteq> j \<longrightarrow> place p \<noteq> None \<longrightarrow> place (ps ! j') \<noteq> place p"
  shows "apart (ps[j := p])"
  using assms unfolding apart_def by (metis length_list_update nth_list_update_eq nth_list_update_neq)

lemma apart_append:
  assumes "apart ps" and "\<forall>q \<in> set qs. place q = None"
  shows "apart (ps @ qs)"
proof -
  have "place ((ps @ qs) ! j) = None" if "length ps \<le> j" "j < length (ps @ qs)" for j
    using that assms(2) by (simp add: nth_append)
  then show ?thesis using assms(1) unfolding apart_def by (metis linorder_not_le nth_append)
qed

lemma balanced_inv_pc:
  assumes "balanced_inv s" and "pc_ok (bl_runs s) (bl_dialed s) p"
    and "place p = None \<or> j < length (bl_callers s) \<and> place p = place (bl_callers s ! j)"
  shows "balanced_inv (set_pc j p s)"
proof -
  have a: "apart (bl_callers s)" using assms(1) by (simp add: balanced_inv_def)
  have "place (bl_callers s ! j') \<noteq> place p" if "j' < length (bl_callers s)" "j' \<noteq> j" "place p \<noteq> None" for j'
    using that assms(3) a unfolding apart_def by metis
  then have "apart ((bl_callers s)[j := p])" using a by (intro apart_set) auto
  then show ?thesis
    using assms(1,2) by (auto simp: balanced_inv_def dest!: subsetD[OF set_update_subset_insert])
qed

lemma balanced_inv_more:
  assumes "balanced_inv s" and "\<forall>q \<in> set qs. pc_ok (bl_runs s) (bl_dialed s) q \<and> place q = None"
  shows "balanced_inv (s\<lparr>bl_callers := bl_callers s @ qs\<rparr>)"
  using assms apart_append[of "bl_callers s" qs] by (auto simp: balanced_inv_def)

lemma balanced_inv_balancer:
  "balanced_inv s \<Longrightarrow> balanced_inv (s\<lparr>bl_client := (bl_client s)\<lparr>lbc_loadBalancer := lb\<rparr>\<rparr>)"
  by (simp add: balanced_inv_def kept_def lbc_inv_def)

lemma balanced_inv_dial:
  assumes "balanced_inv s" and "lbc_dial env a (bl_client s) = (r, l)"
  shows "balanced_inv (follow_client a l s)"
    and "r = Inr i \<Longrightarrow> pc_ok (bl_runs (follow_client a l s)) (bl_dialed (follow_client a l s)) (BHasClient args a i)"
proof -
  have k: "kept (bl_client s) (bl_dialed s)" using assms(1) by (simp add: balanced_inv_def)
  note d = lbc_dial_keeps[OF k assms(2)]
  show "balanced_inv (follow_client a l s)" using balanced_inv_follow[OF assms(1)] d by blast
  show "r = Inr i \<Longrightarrow> pc_ok (bl_runs (follow_client a l s)) (bl_dialed (follow_client a l s)) (BHasClient args a i)"
    using d by (simp add: follow_client_def)
qed

text \<open>A call that starts takes a place of its own.\<close>

lemma calls_step_run: "calls_step r (run_call args r)"
proof (cases args)
  case (fields f x y)
  then show ?thesis using calls_step.start[of r f x y] by (simp add: run_call_def)
qed

lemma balanced_inv_starts:
  assumes inv: "balanced_inv s" and j: "j < length (bl_callers s)" "bl_callers s ! j = BHasClient args a i"
  shows "balanced_inv (set_pc j (BWaiting args a i (length (cc_callers (bl_runs s ! i))))
    (set_run i (run_call args (bl_runs s ! i)) s))"
proof -
  let ?r = "bl_runs s ! i" and ?k = "length (cc_callers (bl_runs s ! i))"
  let ?s = "set_run i (run_call args ?r) s"
  have all: "\<forall>p \<in> set (bl_callers s). pc_ok (bl_runs s) (bl_dialed s) p" using inv by (simp add: balanced_inv_def)
  then have i: "i < length (bl_runs s)" "bl_dialed s ! i = a" using j by (metis nth_mem pc_ok.simps(1))+
  have ro: "length (cc_callers ?r) = length (heap (cc_client ?r))" using inv i(1) by (auto simp: balanced_inv_def runs_ok_def)
  have "isClosed (cc_client (run_call args ?r)) = isClosed (cc_client ?r)" by (simp add: run_call_def split: prod.split)
  from balanced_inv_run[OF inv i(1) calls_step_run this] have s: "balanced_inv ?s" .
  have "pc_ok (bl_runs ?s) (bl_dialed ?s) (BWaiting args a i ?k)"
    using i ro by (cases args) (simp add: set_run_def calls_at_def run_call_def given_def asked_def new_call_def nth_append)
  moreover have "place (bl_callers s ! j') \<noteq> Some (i, ?k)" if "j' < length (bl_callers s)" for j'
  proof -
    have "pc_ok (bl_runs s) (bl_dialed s) (bl_callers s ! j')" using all that by simp
    then show ?thesis by (cases "bl_callers s ! j'" rule: place.cases) (auto simp: calls_at_def)
  qed
  then have "apart ((bl_callers s)[j := BWaiting args a i ?k])"
    using inv by (intro apart_set) (auto simp: balanced_inv_def)
  ultimately show ?thesis
    using s by (auto simp: balanced_inv_def set_run_def dest!: subsetD[OF set_update_subset_insert])
qed

lemma balanced_inv_step:
  assumes "balanced_step get_server get_list s t" and inv: "balanced_inv s"
  shows "balanced_inv t"
proof -
  have at: "pc_ok (bl_runs s) (bl_dialed s) (bl_callers s ! j)" if "j < length (bl_callers s)" for j
    using inv that by (simp add: balanced_inv_def)
  from assms(1) show ?thesis
  proof cases
    case (bl_call args)
    then show ?thesis using balanced_inv_more[OF inv, of "[BSelecting args]"] by simp
  next
    case (bl_broadcast e as lb args)
    then show ?thesis using balanced_inv_more[OF balanced_inv_balancer[OF inv], of "map (BHasAddress args) as" lb] by simp
  next
    case (bl_selected j args e a lb)
    then show ?thesis using balanced_inv_pc[OF balanced_inv_balancer[OF inv, of lb]] by simp
  next
    case (bl_not_selected j args e err lb)
    then show ?thesis using balanced_inv_pc[OF balanced_inv_balancer[OF inv, of lb]] by simp
  next
    case (bl_dials j args a env i l)
    then show ?thesis
      using balanced_inv_pc[OF balanced_inv_dial(1)[OF inv bl_dials(4)] balanced_inv_dial(2)[OF inv bl_dials(4) refl]] by simp
  next
    case (bl_not_dialed j args a env err l)
    then show ?thesis using balanced_inv_pc[OF balanced_inv_dial(1)[OF inv bl_not_dialed(4)]] by simp
  next
    case (bl_starts j args a i)
    then show ?thesis using balanced_inv_starts[OF inv] by simp
  next
    case (bl_returns j args a i k r)
    then show ?thesis using balanced_inv_pc[OF inv, of "BReturned args (Some (a, i, k)) r" j] at[of j] by simp
  next
    case (bl_closes e1 l)
    have k: "kept (bl_client s) (bl_dialed s)" using inv by (simp add: balanced_inv_def)
    note c = lbc_Close_keeps[OF k bl_closes(2)]
    then have "length (clients l) = length (bl_dialed s)" by (simp add: kept_def)
    then show ?thesis using balanced_inv_follow[OF inv, of l "[]"] c bl_closes(1) by simp
  next
    case (bl_inner i r)
    then show ?thesis using balanced_inv_run[OF inv bl_inner(2)] by (simp add: inner_step_def)
  qed
qed

lemma balanced_inv_started: "balanced_started s \<Longrightarrow> balanced_inv s"
  by (auto simp: balanced_started_def balanced_start_def balanced_inv_def kept_def runs_ok_def apart_def
      CreateLoadBalancedClient_def lbc_inv_def)

interpretation balanced: step_system balanced_started "balanced_step get_server get_list" balanced_inv
  by unfold_locales (auto intro: balanced_inv_started balanced_inv_step)


subsection \<open>A sample run: a call that meets a closed client\<close>

lemma closed_call:
  assumes "length (cc_callers r) = length (heap (cc_client r))" and "cc_lock r = None" and "isClosed (cc_client r)"
  shows "\<exists>r1 r2. inner_step (run_call args r) r1 \<and> inner_step r1 r2 \<and>
    cc_callers r2 ! length (cc_callers r) = CReturned (Some ClientClosed)"
proof (cases args)
  case (fields f x y)
  let ?n = "length (cc_callers r)" and ?c = "cc_client (run_call args r)"
  let ?c1 = "?c\<lparr>heap := (heap ?c)[?n := (heap ?c ! ?n)\<lparr>call_Error := Some ClientClosed, call_Finish := (1, [?n])\<rparr>]\<rparr>"
  let ?r1 = "(run_call args r)\<lparr>cc_client := ?c1, cc_callers := (cc_callers (run_call args r))[?n := CWaiting]\<rparr>"
  have "send_add ?n ?c = Inl (Some ?c1)"
    using assms by (simp add: fields run_call_def send_add_def addCall_def fail_call_def finishCall_def update_call_def new_call_def nth_append)
  then have 1: "calls_step (run_call args r) ?r1"
    by (intro refuse) (simp_all add: fields run_call_def assms nth_append)
  obtain c2 where c2: "call_finished ?n ?c1 = Some (Some ClientClosed, c2)" "isClosed c2"
    using assms by (auto simp: fields run_call_def call_finished_def update_call_def new_call_def nth_append)
  let ?r2 = "?r1\<lparr>cc_client := c2, cc_callers := (cc_callers ?r1)[?n := CReturned (Some ClientClosed)]\<rparr>"
  have "calls_step ?r1 ?r2" using c2(1) by (intro finish) (simp_all add: fields run_call_def)
  with 1 c2(2) assms(3) show ?thesis
    by (intro exI[of _ ?r1] exI[of _ ?r2]) (simp add: inner_step_def fields run_call_def)
qed


text \<open>
  A goroutine selects and dials; then the load-balanced client is closed; then the call is made, and
  is refused by its client.
\<close>

abbreviation sample_args :: call_args where
  "sample_args \<equiv> (''Arithmetic.Addition'', VInt 3, None)"

abbreviation sample_reach :: "LoadBalancerClientSide Balanced \<Rightarrow> bool" where
  "sample_reach \<equiv> balanced_reach (\<lambda>e :: unit. cs_GetServer) (\<lambda>e. cs_GetServerList)"

lemma sample_balanced_dialed:
  "\<exists>s. sample_reach s \<and> bl_callers s = [BHasClient sample_args ''tcp@b'' 0] \<and> length (clients (bl_client s)) = 1 \<and>
     bl_dialed s = [''tcp@b''] \<and> conn_open (connection (cl_coder (clients (bl_client s) ! 0))) \<and> cc_lock (bl_runs s ! 0) = None \<and>
     cc_callers (bl_runs s ! 0) = []"
proof -
  let ?s0 = "\<lparr>bl_client = sample_lbc, bl_runs = [], bl_dialed = [], bl_callers = []\<rparr>"
  let ?s1 = "?s0\<lparr>bl_callers := [BSelecting sample_args]\<rparr>"
  have 0: "sample_reach ?s0"
    by (rule reach_init) (auto simp: balanced_started_def balanced_start_def sample_lbc_def)
  have "balanced_step (\<lambda>e :: unit. cs_GetServer) (\<lambda>e. cs_GetServerList) ?s0 ?s1"
    using bl_call[of "\<lambda>e. cs_GetServer" "\<lambda>e. cs_GetServerList" ?s0 sample_args] by simp
  with 0 have 1: "sample_reach ?s1" by (rule reach_step)
  let ?b = "lbc_loadBalancer sample_lbc"
  have "serverList ?b = [''tcp@a'', ''tcp@b'']" "serverIndex ?b = 1" "lbc_mode sample_lbc = RoundRobinSelectMode"
    by (simp_all add: sample_lbc_def CreateLoadBalancedClient_def CreateLoadBalancerClientSide_def rand_Intn_def
        sample_source_def MaxInt32_def)
  then obtain lb where g: "cs_GetServer ?b (lbc_mode sample_lbc) = (Inr ''tcp@b'', lb)"
    by (simp add: cs_GetServer_round_robin)
  let ?s2 = "set_pc 0 (BHasAddress sample_args ''tcp@b'') (?s1\<lparr>bl_client := sample_lbc\<lparr>lbc_loadBalancer := lb\<rparr>\<rparr>)"
  have "balanced_step (\<lambda>e :: unit. cs_GetServer) (\<lambda>e. cs_GetServerList) ?s1 ?s2"
    using bl_selected[of 0 ?s1 sample_args "\<lambda>e. cs_GetServer" "()" "''tcp@b''" lb "\<lambda>e. cs_GetServerList"] g by simp
  with 1 have 2: "sample_reach ?s2" by (rule reach_step)
  obtain l where l: "lbc_dial sample_dial ''tcp@b'' (bl_client ?s2) = (Inr 0, l)"
    using sample_lbc_dial[of lb] by auto
  let ?s3 = "set_pc 0 (BHasClient sample_args ''tcp@b'' 0) (follow_client ''tcp@b'' l ?s2)"
  have "balanced_step (\<lambda>e :: unit. cs_GetServer) (\<lambda>e. cs_GetServerList) ?s2 ?s3"
    by (rule bl_dials[OF _ _ l]) simp_all
  with 2 have 3: "sample_reach ?s3" by (rule reach_step)
  have n: "length (clients l) = 1" "conn_open (connection (cl_coder (clients l ! 0)))"
    using l by (auto simp: lbc_dial_def sample_lbc_def CreateLoadBalancedClient_def Let_def dest!: XMakeDial_available
        split: sum.splits)
  then show ?thesis
    using 3 by (intro exI[of _ ?s3]) (simp add: follow_client_def follow_runs_def calls_start_def)
qed

lemma sample_balanced_returned:
  "\<exists>s. sample_reach s \<and> bl_callers s = [BReturned sample_args (Some (''tcp@b'', 0, 0)) (Some ClientClosed)]"
proof -
  let ?step = "balanced_step (\<lambda>e :: unit. cs_GetServer) (\<lambda>e. cs_GetServerList)"
  obtain s where s: "sample_reach s" "bl_callers s = [BHasClient sample_args ''tcp@b'' 0]"
    "length (clients (bl_client s)) = 1" "cc_lock (bl_runs s ! 0) = None" "cc_callers (bl_runs s ! 0) = []"
    using sample_balanced_dialed by blast
  obtain e l where l: "lbc_Close (bl_client s) = (e, l)" by fastforce
  let ?t = "follow_client [] l s" and ?r = "\<lambda>s :: LoadBalancerClientSide Balanced. bl_runs s ! 0"
  have t: "sample_reach ?t" using s(1) bl_closes[OF l] by (rule reach_step)
  have inv: "balanced_inv s" "balanced_inv ?t" using balanced.reach_invar s(1) t by blast+
  then have k: "kept (bl_client s) (bl_dialed s)" by (simp add: balanced_inv_def)
  note c = lbc_Close_keeps[OF k l]
  have len: "length (bl_runs s) = 1" using inv(1) s(3) by (auto simp: balanced_inv_def runs_ok_def)
  have n: "length (bl_runs ?t) = 1" "isClosed (cc_client (?r ?t))" "cc_lock (?r ?t) = None" "cc_callers (?r ?t) = []"
    using c k s(3-5) len by (auto simp: follow_client_def follow_runs_nth kept_def)
  have heap: "length (cc_callers (?r ?t)) = length (heap (cc_client (?r ?t)))"
    using inv(2) n(1) by (auto simp: balanced_inv_def runs_ok_def)
  let ?u = "set_pc 0 (BWaiting sample_args ''tcp@b'' 0 0) (set_run 0 (run_call sample_args (?r ?t)) ?t)"
  have "?step ?t ?u"
    using bl_starts[of 0 ?t sample_args "''tcp@b''" 0] s(2) n(4) by (simp add: follow_client_def)
  with t have u: "sample_reach ?u" by (rule reach_step)
  from closed_call[OF heap n(3,2), of sample_args] obtain r1 r2 where
    r: "inner_step (run_call sample_args (?r ?t)) r1" "inner_step r1 r2" "cc_callers r2 ! 0 = CReturned (Some ClientClosed)"
    unfolding n(4) by auto
  have "?step ?u (set_run 0 r1 ?u)" by (rule bl_inner) (use n(1) r(1) in \<open>simp_all add: set_run_def\<close>)
  with u have v: "sample_reach (set_run 0 r1 ?u)" by (rule reach_step)
  have "?step (set_run 0 r1 ?u) (set_run 0 r2 (set_run 0 r1 ?u))"
    by (rule bl_inner) (use n(1) r(2) in \<open>simp_all add: set_run_def\<close>)
  with v have w: "sample_reach (set_run 0 r2 (set_run 0 r1 ?u))" by (rule reach_step)
  let ?w = "set_run 0 r2 (set_run 0 r1 ?u)"
  have "?step ?w (set_pc 0 (BReturned sample_args (Some (''tcp@b'', 0, 0)) (Some ClientClosed)) ?w)"
    by (rule bl_returns) (use n(1) r(3) s(2) in \<open>simp_all add: set_run_def follow_client_def\<close>)
  with w have "sample_reach (set_pc 0 (BReturned sample_args (Some (''tcp@b'', 0, 0)) (Some ClientClosed)) ?w)"
    by (rule reach_step)
  then show ?thesis using s(2) by (intro exI conjI) (assumption, simp add: set_run_def follow_client_def)
qed


subsection \<open>Properties\<close>

text \<open>
  C31. A load-balanced call is the call of one client: with any number of goroutines that call,
  broadcast and close, a goroutine that has returned without reaching a client has an error; any other
  has the result of a caller of its own (no other goroutine has the same), with its method and input,
  of a client that was dialed for its address, and that client has run as a client of its own does. So
  what \<open>Client_Calls\<close> shows holds of every client behind a load balancer.
\<close>

theorem balanced_call_is_a_call:
  assumes "balanced_reach get_server get_list s" and "j < length (bl_callers s)"
    and "bl_callers s ! j = BReturned (f, x, y) place_of_call r"
  shows "case place_of_call of
      None \<Rightarrow> r \<noteq> None
    | Some (a, i, k) \<Rightarrow>
        calls_reach (bl_runs s ! i) \<and> cc_callers (bl_runs s ! i) ! k = CReturned r \<and> bl_dialed s ! i = a \<and>
        given (heap (cc_client (bl_runs s ! i)) ! k) = (f, x, map_option rv_Type y) \<and>
        (\<forall>j' < length (bl_callers s). j' \<noteq> j \<longrightarrow> place (bl_callers s ! j') \<noteq> Some (i, k))"
proof -
  have inv: "balanced_inv s" using balanced.reach_invar[OF assms(1)] .
  then have p: "pc_ok (bl_runs s) (bl_dialed s) (BReturned (f, x, y) place_of_call r)" and ap: "apart (bl_callers s)"
    using assms(2,3) by (auto simp: balanced_inv_def dest!: nth_mem)
  show ?thesis
  proof (cases place_of_call)
    case (Some w)
    then obtain a i k where w: "place_of_call = Some (a, i, k)" by (cases w) auto
    have "\<forall>j' < length (bl_callers s). j' \<noteq> j \<longrightarrow> place (bl_callers s ! j') \<noteq> Some (i, k)"
      using ap assms(2,3) w unfolding apart_def by (metis option.distinct(1) place.simps(2))
    then show ?thesis
      using p w inv by (auto simp: balanced_inv_def runs_ok_def calls_at_def asked_def)
  qed (use p in simp)
qed

theorem balanced_call_is_a_call_witness:
  "\<exists>s. sample_reach s \<and> calls_reach (bl_runs s ! 0) \<and> cc_callers (bl_runs s ! 0) ! 0 = CReturned (Some ClientClosed)"
proof -
  obtain s where s: "sample_reach s" "bl_callers s = [BReturned sample_args (Some (''tcp@b'', 0, 0)) (Some ClientClosed)]"
    using sample_balanced_returned by blast
  show ?thesis using balanced_call_is_a_call[OF s(1), of 0] s by auto
qed

text \<open>
  C32. No open connection is lost: in every reachable state a client with an open connection is the one
  that the map has under the address it was dialed for (so there is at most one for each address), and
  closing the load-balanced client closes every connection that it has ever opened.
\<close>

theorem no_open_connection_lost:
  assumes "balanced_reach get_server get_list s" and "i < length (clients (bl_client s))"
  shows "(conn_open (connection (cl_coder (clients (bl_client s) ! i))) \<longrightarrow>
      map_of (bl_map s) (bl_dialed s ! i) = Some i) \<and>
    \<not> conn_open (connection (cl_coder (clients (snd (lbc_Close (bl_client s))) ! i)))"
proof -
  have k: "kept (bl_client s) (bl_dialed s)"
    using balanced.reach_invar[OF assms(1)] by (simp add: balanced_inv_def)
  have l: "lbc_Close (bl_client s) = (fst (lbc_Close (bl_client s)), snd (lbc_Close (bl_client s)))" by simp
  note c = lbc_Close_keeps[OF k l]
  then have "length (clients (snd (lbc_Close (bl_client s)))) = length (clients (bl_client s))"
    using k by (simp add: kept_def)
  then show ?thesis using k c assms(2) by (auto simp: kept_def closed_ok_def)
qed

theorem no_open_connection_lost_witness:
  "\<exists>s. sample_reach s \<and> conn_open (connection (cl_coder (clients (bl_client s) ! 0))) \<and> map_of (bl_map s) ''tcp@b'' = Some 0"
proof -
  obtain s where s: "sample_reach s" "length (clients (bl_client s)) = 1" "bl_dialed s = [''tcp@b'']"
    "conn_open (connection (cl_coder (clients (bl_client s) ! 0)))"
    using sample_balanced_dialed by blast
  then show ?thesis using no_open_connection_lost[OF s(1), of 0] by auto
qed

end
