(* ===== verification/Send_Mutex.thy ===== *)
theory Send_Mutex
  imports Rpc
begin

text \<open>
  What the send mutex of a connection is for (server.go, \<^verbatim>\<open>send_response\<close>). The other theories take a
  response as one step; here it is what the code does: lock, encode the header, encode the body,
  flush, unlock, with any number of goroutines at it, while the loop decodes requests from the same
  coder, the network delivers, and the connection may be closed at any time. The theorem is that the
  one-step view is right: the goroutines together do what a sequence of whole responses does.
\<close>

subsection \<open>The atomic view\<close>

text \<open>What happens to a coder besides sending: values arrive, a header or a body is decoded, it is closed.\<close>

inductive other_use :: "JsonCoder \<Rightarrow> JsonCoder \<Rightarrow> bool" where
  arrives: "other_use jc (deliver js jc)"
| decode_header: "other_use jc (snd (jc_DecodeMessageHeader jc h))"
| decode_body: "other_use jc (snd (jc_DecodeMessageBody jc b))"
| closes: "other_use jc (snd (jc_Close jc))"

text \<open>The coder and the responses that it has been given, whole.\<close>

type_synonym atomic = "JsonCoder \<times> (MessageHeader \<times> go_value) list"

inductive atomic_step :: "atomic \<Rightarrow> atomic \<Rightarrow> bool" where
  whole: "atomic_step (jc, log) (send_response jc h b, log @ [(h, b)])"
| other: "other_use jc jc' \<Longrightarrow> atomic_step (jc, log) (jc', log)"

subsection \<open>The goroutines\<close>

text \<open>
  Where a goroutine is in \<^verbatim>\<open>send_response\<close> and in \<^verbatim>\<open>EncodeMessageHeaderAndBody\<close>, with its header and its
  body; \<open>sm_lock\<close> is the mutex, and \<open>sm_order\<close> records the goroutines in the order in which they left
  the encoder.
\<close>

datatype sender_pc = AtLock | AtHeader | AtBody | AtFlush | AtUnlock | Returned

record Sending =
  sm_coder :: JsonCoder
  sm_lock :: "nat option"
  sm_senders :: "(sender_pc \<times> MessageHeader \<times> go_value) list"
  sm_order :: "nat list"

abbreviation move :: "nat \<Rightarrow> sender_pc \<Rightarrow> MessageHeader \<times> go_value \<Rightarrow> Sending \<Rightarrow> Sending" where
  "move i p m s \<equiv> s\<lparr>sm_senders := (sm_senders s)[i := (p, m)]\<rparr>"

text \<open>The encoder has returned: after the flush, or with the error of one of the two encodings.\<close>

definition encoded_by :: "nat \<Rightarrow> MessageHeader \<times> go_value \<Rightarrow> JsonCoder \<Rightarrow> Sending \<Rightarrow> Sending" where
  "encoded_by i m jc s = (move i AtUnlock m s)\<lparr>sm_coder := jc, sm_order := sm_order s @ [i]\<rparr>"

inductive sending_step :: "Sending \<Rightarrow> Sending \<Rightarrow> bool" where
  call: "sending_step s (s\<lparr>sm_senders := sm_senders s @ [(AtLock, h, b)]\<rparr>)"
| lock: "i < length (sm_senders s) \<Longrightarrow> sm_senders s ! i = (AtLock, m) \<Longrightarrow> sm_lock s = None \<Longrightarrow>
    sending_step s ((move i AtHeader m s)\<lparr>sm_lock := Some i\<rparr>)"
| header_encoded: "i < length (sm_senders s) \<Longrightarrow> sm_senders s ! i = (AtHeader, h, b) \<Longrightarrow>
    enc_Encode (sm_coder s) (header_value h) = (None, jc) \<Longrightarrow>
    sending_step s ((move i AtBody (h, b) s)\<lparr>sm_coder := jc\<rparr>)"
| header_refused: "i < length (sm_senders s) \<Longrightarrow> sm_senders s ! i = (AtHeader, h, b) \<Longrightarrow>
    enc_Encode (sm_coder s) (header_value h) = (Some e, jc) \<Longrightarrow>
    sending_step s (encoded_by i (h, b) jc s)"
| body_encoded: "i < length (sm_senders s) \<Longrightarrow> sm_senders s ! i = (AtBody, h, b) \<Longrightarrow>
    enc_Encode (sm_coder s) b = (None, jc) \<Longrightarrow>
    sending_step s ((move i AtFlush (h, b) s)\<lparr>sm_coder := jc\<rparr>)"
| body_refused: "i < length (sm_senders s) \<Longrightarrow> sm_senders s ! i = (AtBody, h, b) \<Longrightarrow>
    enc_Encode (sm_coder s) b = (Some e, jc) \<Longrightarrow>
    sending_step s (encoded_by i (h, b) jc s)"
| flush: "i < length (sm_senders s) \<Longrightarrow> sm_senders s ! i = (AtFlush, h, b) \<Longrightarrow>
    sending_step s (encoded_by i (h, b) (buf_Flush (sm_coder s)) s)"
| unlock: "i < length (sm_senders s) \<Longrightarrow> sm_senders s ! i = (AtUnlock, m) \<Longrightarrow>
    sending_step s ((move i Returned m s)\<lparr>sm_lock := None\<rparr>)"
| meanwhile: "other_use (sm_coder s) jc \<Longrightarrow> sending_step s (s\<lparr>sm_coder := jc\<rparr>)"

definition sending_start :: "JsonCoder \<Rightarrow> Sending \<Rightarrow> bool" where
  "sending_start jc s \<longleftrightarrow> s = \<lparr>sm_coder = jc, sm_lock = None, sm_senders = [], sm_order = []\<rparr>"

abbreviation sending_reach :: "JsonCoder \<Rightarrow> Sending \<Rightarrow> bool" where
  "sending_reach jc \<equiv> reach (sending_start jc) sending_step"

text \<open>The responses of the goroutines that have left the encoder, in that order.\<close>

definition responses :: "Sending \<Rightarrow> (MessageHeader \<times> go_value) list" where
  "responses s = map (\<lambda>i. snd (sm_senders s ! i)) (sm_order s)"

definition left_encoder :: "Sending \<Rightarrow> nat set" where
  "left_encoder s = {i. i < length (sm_senders s) \<and> fst (sm_senders s ! i) \<in> {AtUnlock, Returned}}"

subsection \<open>The other uses of the coder leave its encoder alone\<close>

lemma decode_fields:
  "wbuf (snd (jc_DecodeMessageHeader a h)) = wbuf a" "buf_err (snd (jc_DecodeMessageHeader a h)) = buf_err a"
  "enc_err (snd (jc_DecodeMessageHeader a h)) = enc_err a"
  "wbuf (snd (jc_DecodeMessageBody a b)) = wbuf a" "buf_err (snd (jc_DecodeMessageBody a b)) = buf_err a"
  "enc_err (snd (jc_DecodeMessageBody a b)) = enc_err a"
  by (simp_all add: jc_DecodeMessageHeader_def jc_DecodeMessageBody_def Let_def split: prod.split option.split)

lemma other_use_fields:
  assumes "other_use a a'"
  shows "wbuf a' = wbuf a \<and> buf_err a' = buf_err a \<and> enc_err a' = enc_err a \<and> sent a' = sent a \<and>
    (conn_open (connection a') \<longrightarrow> conn_open (connection a) \<and> healthy a' = healthy a)"
  using assms
proof cases
  case (arrives js)
  then show ?thesis by (simp add: deliver_def sent_def healthy_def)
next
  case (decode_header h)
  obtain r where "jc_DecodeMessageHeader a h = (r, a')" using decode_header by (cases "jc_DecodeMessageHeader a h") simp
  then show ?thesis
    using decode_header decode_wire(1)[of a h r a'] decode_open(1)[of a h r a'] by (simp add: decode_fields)
next
  case (decode_body b)
  obtain r where "jc_DecodeMessageBody a b = (r, a')" using decode_body by (cases "jc_DecodeMessageBody a b") simp
  then show ?thesis
    using decode_body decode_wire(2)[of a b r a'] decode_open(2)[of a b r a'] by (simp add: decode_fields)
next
  case closes
  then show ?thesis by (auto simp: jc_Close_def conn_Close_def sent_def Let_def)
qed

text \<open>So they commute with what is in the buffer.\<close>

lemma other_use_wbuf:
  assumes "other_use (a\<lparr>wbuf := w\<rparr>) c"
  shows "\<exists>a'. other_use a a' \<and> c = a'\<lparr>wbuf := w\<rparr>"
  using assms
proof cases
  case (arrives js)
  then show ?thesis using other_use.arrives[of a js] by (intro exI[of _ "deliver js a"]) (simp add: deliver_def)
next
  case (decode_header h)
  then show ?thesis
    using other_use.decode_header[of a h]
    by (intro exI[of _ "snd (jc_DecodeMessageHeader a h)"]) (simp add: jc_DecodeMessageHeader_def Let_def split: prod.split)
next
  case (decode_body b)
  then show ?thesis
    using other_use.decode_body[of a b]
    by (intro exI[of _ "snd (jc_DecodeMessageBody a b)"])
      (simp add: jc_DecodeMessageBody_def Let_def split: prod.split option.split)
next
  case closes
  then show ?thesis
    using other_use.closes[of a] by (intro exI[of _ "snd (jc_Close a)"]) (simp add: jc_Close_def Let_def split: prod.split)
qed

subsection \<open>The refinement\<close>

text \<open>The coder \<open>c\<close> while the holder of the mutex is at \<open>p\<close>, given the coder \<open>a\<close> of the atomic view.\<close>

fun partly :: "sender_pc \<Rightarrow> MessageHeader \<Rightarrow> go_value \<Rightarrow> JsonCoder \<Rightarrow> JsonCoder \<Rightarrow> bool" where
  "partly AtBody h b a c \<longleftrightarrow> enc_err a = None \<and> buf_err a = None \<and> c = a\<lparr>wbuf := wbuf a @ [header_json h]\<rparr>"
| "partly AtFlush h b a c \<longleftrightarrow> enc_err a = None \<and> buf_err a = None \<and>
     (\<exists>j. marshal b = Some j \<and> c = a\<lparr>wbuf := wbuf a @ [header_json h, j]\<rparr>)"
| "partly _ h b a c \<longleftrightarrow> c = a"

lemma partly_other:
  assumes "partly p h b a c" and "other_use c c'"
  shows "\<exists>a'. other_use a a' \<and> partly p h b a' c'"
proof (cases p)
  case AtBody
  then obtain a' where "other_use a a'" "c' = a'\<lparr>wbuf := wbuf a @ [header_json h]\<rparr>"
    using assms other_use_wbuf by fastforce
  then show ?thesis using AtBody assms(1) other_use_fields[of a a'] by auto
next
  case AtFlush
  then obtain j where j: "marshal b = Some j" "c = a\<lparr>wbuf := wbuf a @ [header_json h, j]\<rparr>"
    using assms(1) by auto
  then obtain a' where "other_use a a'" "c' = a'\<lparr>wbuf := wbuf a @ [header_json h, j]\<rparr>"
    using assms(2) other_use_wbuf by blast
  then show ?thesis using AtFlush assms(1) j(1) other_use_fields[of a a'] by auto
qed (use assms in auto)

lemma encode_header_partly:
  "enc_Encode a (header_value h) = (None, c) \<Longrightarrow> partly AtBody h b a c"
  by (auto simp: enc_Encode_def split: option.splits)

lemma encode_body_partly:
  "partly AtBody h b a c \<Longrightarrow> enc_Encode c b = (None, c') \<Longrightarrow> partly AtFlush h b a c'"
  by (auto simp: enc_Encode_def split: option.splits)

text \<open>However the encoder is left, the response has been given to the coder as a whole.\<close>

lemma left_whole:
  "enc_Encode a (header_value h) = (Some e, c) \<Longrightarrow> send_response a h b = c"
  "partly AtBody h b a c \<Longrightarrow> enc_Encode c b = (Some e, c') \<Longrightarrow> send_response a h b = c'"
  "partly AtFlush h b a c \<Longrightarrow> send_response a h b = buf_Flush c"
  by (auto simp: send_response_def jc_EncodeMessageHeaderAndBody_def enc_Encode_def Let_def split: option.splits)

text \<open>
  The mutex is held by the goroutine between lock and unlock, and by no other; the order lists those
  that have left the encoder, each once.
\<close>

definition mutex_inv :: "Sending \<Rightarrow> bool" where
  "mutex_inv s \<longleftrightarrow>
     (\<forall>i < length (sm_senders s). fst (sm_senders s ! i) \<notin> {AtLock, Returned} \<longleftrightarrow> sm_lock s = Some i) \<and>
     (\<forall>i. sm_lock s = Some i \<longrightarrow> i < length (sm_senders s)) \<and>
     distinct (sm_order s) \<and> set (sm_order s) = left_encoder s"

definition refines :: "JsonCoder \<Rightarrow> Sending \<Rightarrow> bool" where
  "refines jc s \<longleftrightarrow> mutex_inv s \<and>
     (\<exists>a. atomic_step\<^sup>*\<^sup>* (jc, []) (a, responses s) \<and>
        (case sm_lock s of None \<Rightarrow> sm_coder s = a
         | Some i \<Rightarrow> (case sm_senders s ! i of (p, h, b) \<Rightarrow> partly p h b a (sm_coder s))))"

lemma responses_frame [simp]:
  "responses (s\<lparr>sm_coder := jc\<rparr>) = responses s" "responses (s\<lparr>sm_lock := l\<rparr>) = responses s"
  "left_encoder (s\<lparr>sm_coder := jc\<rparr>) = left_encoder s" "left_encoder (s\<lparr>sm_lock := l\<rparr>) = left_encoder s"
  "left_encoder (s\<lparr>sm_order := is\<rparr>) = left_encoder s"
  by (simp_all add: responses_def left_encoder_def)

lemma responses_move:
  assumes "i < length (sm_senders s)" and "sm_senders s ! i = (q, m)"
  shows "responses (move i p m s) = responses s"
proof -
  have "snd ((sm_senders s)[i := (p, m)] ! j) = snd (sm_senders s ! j)" for j
    using assms by (cases "j = i") simp_all
  then show ?thesis by (simp add: responses_def)
qed

lemma left_encoder_move:
  "i < length (sm_senders s) \<Longrightarrow> left_encoder (move i p m s) =
     (if p \<in> {AtUnlock, Returned} then insert i (left_encoder s) else left_encoder s - {i})"
  by (auto simp: left_encoder_def nth_list_update)

lemma left_encoder_iff: "i < length (sm_senders s) \<Longrightarrow> sm_senders s ! i = (q, m) \<Longrightarrow>
    i \<in> left_encoder s \<longleftrightarrow> q \<in> {AtUnlock, Returned}"
  by (simp add: left_encoder_def)

text \<open>The mutex, for the kinds of steps that a goroutine takes.\<close>

lemma mutex_inv_move:
  assumes inv: "mutex_inv s" and i: "i < length (sm_senders s)" "sm_senders s ! i = (q, m)"
    and p: "p \<in> {AtUnlock, Returned} \<longleftrightarrow> q \<in> {AtUnlock, Returned}"
    and l: "sm_lock s = Some i \<or> sm_lock s = None \<and> q = AtLock"
    and l': "l = (if p \<in> {AtLock, Returned} then None else Some i)"
  shows "mutex_inv ((move i p m s)\<lparr>sm_lock := l\<rparr>)"
proof -
  have "left_encoder (move i p m s) = left_encoder s"
    using left_encoder_move[OF i(1)] left_encoder_iff[OF i] p by auto
  then show ?thesis using inv i l l' by (auto simp: mutex_inv_def nth_list_update)
qed

lemma mutex_inv_encoded:
  assumes inv: "mutex_inv s" and i: "i < length (sm_senders s)" "sm_senders s ! i = (q, m)"
    and q: "q \<in> {AtHeader, AtBody, AtFlush}"
  shows "mutex_inv (encoded_by i m jc s)"
proof -
  have h: "sm_lock s = Some i" using inv i q by (auto simp: mutex_inv_def)
  have "i \<notin> set (sm_order s)" using inv left_encoder_iff[OF i] q by (auto simp: mutex_inv_def)
  moreover have "left_encoder (encoded_by i m jc s) = insert i (left_encoder s)"
    using left_encoder_move[OF i(1), of AtUnlock m] by (simp add: encoded_by_def)
  ultimately show ?thesis
    using inv i h by (auto simp: mutex_inv_def encoded_by_def nth_list_update)
qed

lemma mutex_inv_call:
  assumes "mutex_inv s"
  shows "mutex_inv (s\<lparr>sm_senders := sm_senders s @ [(AtLock, m)]\<rparr>)"
    and "responses (s\<lparr>sm_senders := sm_senders s @ [(AtLock, m)]\<rparr>) = responses s"
proof -
  let ?t = "s\<lparr>sm_senders := sm_senders s @ [(AtLock, m)]\<rparr>"
  have "left_encoder ?t = left_encoder s" by (auto simp: left_encoder_def nth_append)
  then show "mutex_inv ?t" using assms by (auto simp: mutex_inv_def nth_append)
  have "i < length (sm_senders s)" if "i \<in> set (sm_order s)" for i
    using assms that by (auto simp: mutex_inv_def left_encoder_def)
  then show "responses ?t = responses s" by (auto simp: responses_def nth_append)
qed

lemma responses_encoded:
  assumes "i < length (sm_senders s)" and "sm_senders s ! i = (q, m)"
  shows "responses (encoded_by i m jc s) = responses s @ [m]"
  using responses_move[OF assms, of AtUnlock] assms by (simp add: responses_def encoded_by_def)

text \<open>The three ways to leave the encoder are the one step of the atomic view.\<close>

lemma refines_encoded:
  assumes r: "refines jc s" and i: "i < length (sm_senders s)" "sm_senders s ! i = (q, h, b)"
    and q: "q \<in> {AtHeader, AtBody, AtFlush}" and w: "\<And>a. partly q h b a (sm_coder s) \<Longrightarrow> send_response a h b = c"
  shows "refines jc (encoded_by i (h, b) c s)"
proof -
  have inv: "mutex_inv s" and l: "sm_lock s = Some i" using r i q by (auto simp: refines_def mutex_inv_def)
  obtain a where a: "atomic_step\<^sup>*\<^sup>* (jc, []) (a, responses s)" "partly q h b a (sm_coder s)"
    using r i(2) l by (auto simp: refines_def)
  have "atomic_step (a, responses s) (c, responses s @ [(h, b)])" using whole[of a "responses s" h b] w[OF a(2)] by simp
  with a(1) have "atomic_step\<^sup>*\<^sup>* (jc, []) (c, responses (encoded_by i (h, b) c s))"
    using responses_encoded[OF i] by simp
  then show ?thesis
    using mutex_inv_encoded[OF inv i q, of c] i(1) l by (auto simp: refines_def encoded_by_def)
qed

text \<open>The steps of a goroutine that the atomic view does not see.\<close>

lemma refines_move:
  assumes r: "refines jc s" and i: "i < length (sm_senders s)" "sm_senders s ! i = (q, h, b)"
    and p: "p \<in> {AtUnlock, Returned} \<longleftrightarrow> q \<in> {AtUnlock, Returned}"
    and l: "sm_lock s = Some i \<or> sm_lock s = None \<and> q = AtLock"
    and l': "l = (if p \<in> {AtLock, Returned} then None else Some i)"
    and w: "\<And>a. (sm_lock s = None \<longrightarrow> sm_coder s = a) \<Longrightarrow> (sm_lock s = Some i \<longrightarrow> partly q h b a (sm_coder s)) \<Longrightarrow>
      partly p h b a c"
  shows "refines jc ((move i p (h, b) s)\<lparr>sm_coder := c, sm_lock := l\<rparr>)"
proof -
  obtain a where a: "atomic_step\<^sup>*\<^sup>* (jc, []) (a, responses s)" "case sm_lock s of None \<Rightarrow> sm_coder s = a
         | Some i \<Rightarrow> (case sm_senders s ! i of (p, h, b) \<Rightarrow> partly p h b a (sm_coder s))"
    using r unfolding refines_def by blast
  have "mutex_inv ((move i p (h, b) s)\<lparr>sm_lock := l\<rparr>)"
    using r by (intro mutex_inv_move[OF _ i p l l']) (simp add: refines_def)
  then have "mutex_inv ((move i p (h, b) s)\<lparr>sm_coder := c, sm_lock := l\<rparr>)"
    by (simp add: mutex_inv_def left_encoder_def)
  moreover have "partly p h b a c" by (rule w) (use a(2) i(2) in auto)
  moreover from this have "p \<in> {AtLock, Returned} \<Longrightarrow> c = a" by auto
  ultimately show ?thesis
    using a(1) responses_move[OF i, of p] i(1) l'
    unfolding refines_def by (auto intro!: exI[of _ a] split: option.split)
qed

lemma refines_other:
  assumes r: "refines jc s" and o: "other_use (sm_coder s) c"
  shows "refines jc (s\<lparr>sm_coder := c\<rparr>)"
proof -
  obtain a where a: "atomic_step\<^sup>*\<^sup>* (jc, []) (a, responses s)" "case sm_lock s of None \<Rightarrow> sm_coder s = a
         | Some i \<Rightarrow> (case sm_senders s ! i of (p, h, b) \<Rightarrow> partly p h b a (sm_coder s))"
    using r unfolding refines_def by blast
  obtain a' where a': "other_use a a'" "case sm_lock s of None \<Rightarrow> c = a'
         | Some i \<Rightarrow> (case sm_senders s ! i of (p, h, b) \<Rightarrow> partly p h b a' c)"
  proof (cases "sm_lock s")
    case None
    then show ?thesis using that[of c] a(2) o by simp
  next
    case (Some i)
    obtain p h b where p: "sm_senders s ! i = (p, h, b)" by (cases "sm_senders s ! i") auto
    then have "partly p h b a (sm_coder s)" using a(2) Some by simp
    from partly_other[OF this o] obtain a' where "other_use a a'" "partly p h b a' c" by blast
    then show ?thesis using that[of a'] Some p by simp
  qed
  have "atomic_step\<^sup>*\<^sup>* (jc, []) (a', responses s)"
    using a(1) other[OF a'(1), of "responses s"] by (rule rtranclp.rtrancl_into_rtrancl)
  moreover have "mutex_inv (s\<lparr>sm_coder := c\<rparr>)" using r by (simp add: refines_def mutex_inv_def)
  ultimately show ?thesis
    using a'(2) unfolding refines_def by (intro conjI exI[of _ a']) (simp_all split: option.splits)
qed

lemma refines_call:
  assumes "refines jc s"
  shows "refines jc (s\<lparr>sm_senders := sm_senders s @ [(AtLock, m)]\<rparr>)"
proof -
  have inv: "mutex_inv s" using assms by (simp add: refines_def)
  then have "sm_lock s = Some i \<Longrightarrow> i < length (sm_senders s)" for i by (simp add: mutex_inv_def)
  then show ?thesis
    using assms mutex_inv_call[OF inv, of m] by (auto simp: refines_def nth_append split: option.splits)
qed

lemma move_held: "sm_lock s = l \<Longrightarrow> (move i p m s)\<lparr>sm_coder := c, sm_lock := l\<rparr> = (move i p m s)\<lparr>sm_coder := c\<rparr>"
  by (cases s) auto

lemma refines_step:
  assumes st: "sending_step s t" and r: "refines jc s"
  shows "refines jc t"
proof -
  have held: "sm_lock s = Some i" if "i < length (sm_senders s)" "sm_senders s ! i = (p, m)" "p \<notin> {AtLock, Returned}" for i p m
    using r that by (auto simp: refines_def mutex_inv_def)
  from st show ?thesis
  proof cases
    case (call h b)
    then show ?thesis using refines_call[OF r] by simp
  next
    case (lock i m)
    obtain h b where m: "m = (h, b)" by (cases m)
    show ?thesis
      using refines_move[OF r lock(2) lock(3)[unfolded m], of AtHeader "Some i" "sm_coder s"] lock m by simp
  next
    case (header_encoded i h b c)
    have "refines jc ((move i AtBody (h, b) s)\<lparr>sm_coder := c, sm_lock := Some i\<rparr>)"
      using held[OF header_encoded(2,3)] encode_header_partly[OF header_encoded(4), of b]
      by (intro refines_move[OF r header_encoded(2,3)]) auto
    then show ?thesis using header_encoded(1) move_held[OF held[OF header_encoded(2,3)]] by simp
  next
    case (header_refused i h b e c)
    have "refines jc (encoded_by i (h, b) c s)"
      by (rule refines_encoded[OF r header_refused(2,3)]) (use left_whole(1)[OF header_refused(4)] in auto)
    then show ?thesis using header_refused(1) by simp
  next
    case (body_encoded i h b c)
    have "refines jc ((move i AtFlush (h, b) s)\<lparr>sm_coder := c, sm_lock := Some i\<rparr>)"
      using held[OF body_encoded(2,3)] encode_body_partly[OF _ body_encoded(4)]
      by (intro refines_move[OF r body_encoded(2,3)]) auto
    then show ?thesis using body_encoded(1) move_held[OF held[OF body_encoded(2,3)]] by simp
  next
    case (body_refused i h b e c)
    have "refines jc (encoded_by i (h, b) c s)"
      by (rule refines_encoded[OF r body_refused(2,3)]) (simp, rule left_whole(2)[OF _ body_refused(4)])
    then show ?thesis using body_refused(1) by simp
  next
    case (flush i h b)
    have "refines jc (encoded_by i (h, b) (buf_Flush (sm_coder s)) s)"
      by (rule refines_encoded[OF r flush(2,3)]) (simp, rule left_whole(3))
    then show ?thesis using flush(1) by simp
  next
    case (unlock i m)
    obtain h b where m: "m = (h, b)" by (cases m)
    show ?thesis
      using refines_move[OF r unlock(2) unlock(3)[unfolded m], of Returned None "sm_coder s"] held[OF unlock(2,3)] unlock m
      by simp
  next
    case (meanwhile c)
    then show ?thesis using refines_other[OF r] by simp
  qed
qed

lemma refines_start: "sending_start jc s \<Longrightarrow> refines jc s"
  by (simp add: sending_start_def refines_def mutex_inv_def left_encoder_def responses_def)

interpretation sm: step_system "sending_start jc" sending_step "refines jc" for jc
  by unfold_locales (use refines_start refines_step in blast)+

subsection \<open>What is written\<close>

lemma partly_connection: "partly p h b a c \<Longrightarrow> connection c = connection a"
  by (cases p) auto

lemma atomic_wire:
  assumes "atomic_step\<^sup>*\<^sup>* (jc, []) (a, log)" and "healthy jc" and "encodable log"
  shows "(conn_open (connection a) \<longrightarrow> healthy a \<and> sent a = sent jc @ frames log) \<and>
    (\<exists>n \<le> length log. sent a = sent jc @ frames (take n log))"
  using assms(1,3)
proof (induction "(a, log)" arbitrary: a log rule: rtranclp_induct)
  case base
  then show ?case using assms(2) by (simp add: frames_def)
next
  case (step x)
  obtain a0 log0 where x: "x = (a0, log0)" by (cases x)
  from step(2) show ?case
    unfolding x
  proof cases
    case (whole h b)
    have enc: "encodable log0" "marshal b \<noteq> None" using step(4) whole(2) by simp_all
    have IH: "(conn_open (connection a0) \<longrightarrow> healthy a0 \<and> sent a0 = sent jc @ frames log0) \<and>
      (\<exists>n \<le> length log0. sent a0 = sent jc @ frames (take n log0))" using step(3)[OF x enc(1)] .
    have open_: "conn_open (connection a) = conn_open (connection a0)"
      using whole(1) by (simp add: send_response_def encode_keeps_open)
    show ?thesis
    proof (cases "conn_open (connection a0)")
      case True
      then have w: "sent a = sent jc @ frames log \<and> healthy a"
        using send_one[of log0 a0 "sent jc" h b] IH step(4) whole by simp
      then show ?thesis by (intro conjI impI exI[of _ "length log"]) simp_all
    next
      case False
      then have "sent a = sent a0" using whole(1) closed_encode by (simp add: send_response_def)
      moreover obtain n where "n \<le> length log0" "sent a0 = sent jc @ frames (take n log0)" using IH by blast
      ultimately have "n \<le> length log \<and> sent a = sent jc @ frames (take n log)" using whole(2) by simp
      then show ?thesis using False open_ by blast
    qed
  next
    case other
    then show ?thesis using step(3)[OF x] step(4) other_use_fields[OF other(2)] by auto
  qed
qed

text \<open>
  The steps of a connection in the other theories, which take a response as one step, are steps of the
  atomic view.
\<close>

lemma read_request_uses: "read_request srv jc = (r, jc') \<Longrightarrow> other_use\<^sup>*\<^sup>* jc jc'"
proof -
  assume r: "read_request srv jc = (r, jc')"
  let ?jc1 = "snd (jc_DecodeMessageHeader jc empty_header)"
  have 1: "other_use\<^sup>*\<^sup>* jc ?jc1" using other_use.decode_header by blast
  then have "other_use\<^sup>*\<^sup>* jc (snd (jc_DecodeMessageBody ?jc1 b))" for b
    using other_use.decode_body[of ?jc1 b] by (rule rtranclp.rtrancl_into_rtrancl)
  then have 2: "jc_DecodeMessageBody ?jc1 b = (x, jc2) \<Longrightarrow> other_use\<^sup>*\<^sup>* jc jc2" for b x jc2
    by (metis snd_conv)
  show ?thesis
    using r 1 2 by (auto simp: read_request_def read_header_def Let_def split: prod.splits option.splits go.splits if_splits)
qed

lemma uses_atomic: "other_use\<^sup>*\<^sup>* jc jc' \<Longrightarrow> atomic_step\<^sup>*\<^sup>* (jc, log) (jc', log)"
  by (induction rule: rtranclp_induct) (auto intro: other rtranclp.rtrancl_into_rtrancl)

lemma serve_step_atomic:
  assumes "serve_step limit s t"
  shows "atomic_step\<^sup>*\<^sup>* (sh_coder (sv_shared s), sh_log (sv_shared s)) (sh_coder (sv_shared t), sh_log (sv_shared t))"
  using assms
proof cases
  case turn
  let ?jc = "sh_coder (sv_shared s)" and ?srv = "sh_server (sv_shared s)"
  obtain r jc1 where r: "read_request ?srv ?jc = (r, jc1)" by fastforce
  have u: "atomic_step\<^sup>*\<^sup>* (?jc, sh_log (sv_shared s)) (jc1, sh_log (sv_shared s))"
    using uses_atomic[OF read_request_uses[OF r]] .
  have same: "jc' = jc1" if "serve_turn ?srv ?jc = (x, jc')" "\<forall>h. x \<noteq> Rejected h" for x jc'
    using that r by (auto simp: serve_turn_def Let_def split: go.splits option.splits prod.splits)
  show ?thesis
  proof (cases rule: loop_turn_cases[of s])
    case (rejected hdr jc')
    then have "jc' = send_response jc1 hdr invalidRequest"
      using r by (auto simp: serve_turn_def Let_def split: go.splits option.splits prod.splits)
    then have "atomic_step (jc1, sh_log (sv_shared s)) (jc', sh_log (sv_shared s) @ [(hdr, invalidRequest)])"
      using whole by simp
    with u show ?thesis using turn(1) rejected(2) by (simp add: rtranclp.rtrancl_into_rtrancl)
  qed (use u same turn in simp_all)
next
  case (handler i h' sh')
  from handler_step_log[OF handler(3)] show ?thesis
    using handler(1) whole by (elim disjE exE conjE) (simp_all add: r_into_rtranclp)
next
  case close
  then show ?thesis using other[OF closes, of "sh_coder (sv_shared s)"] by (simp add: close_coder_def r_into_rtranclp)
qed

subsection \<open>Properties\<close>

text \<open>
  C20. The send mutex makes responses whole: with any number of goroutines in \<^verbatim>\<open>send_response\<close> at once,
  each encoding its header, encoding its body and flushing in steps of its own, while others decode
  from the same coder and the connection may close, the coder is in every moment what a sequence of
  whole responses, in the order in which the goroutines left the encoder, would have made of it, but
  for what the holder of the mutex has put into the buffer; each goroutine is in that order exactly
  once. So what is written is a sequence of whole responses, header and body together: all of them while
  the connection is open (when every body can be encoded).
\<close>

theorem send_mutex_keeps_responses_whole:
  assumes "sending_reach jc s"
  shows "(\<exists>a. atomic_step\<^sup>*\<^sup>* (jc, []) (a, responses s) \<and> sent (sm_coder s) = sent a \<and> (sm_lock s = None \<longrightarrow> sm_coder s = a)) \<and>
    distinct (sm_order s) \<and> set (sm_order s) = left_encoder s \<and>
    (healthy jc \<and> encodable (responses s) \<longrightarrow>
       (\<exists>n. sent (sm_coder s) = sent jc @ frames (take n (responses s))) \<and>
       (conn_open (connection (sm_coder s)) \<longrightarrow> sent (sm_coder s) = sent jc @ frames (responses s)))"
proof -
  have r: "refines jc s" using sm.reach_invar[OF assms] .
  obtain a where a: "atomic_step\<^sup>*\<^sup>* (jc, []) (a, responses s)" "case sm_lock s of None \<Rightarrow> sm_coder s = a
         | Some i \<Rightarrow> (case sm_senders s ! i of (p, h, b) \<Rightarrow> partly p h b a (sm_coder s))"
    using r unfolding refines_def by blast
  have "connection (sm_coder s) = connection a"
    using a(2) by (auto split: option.splits prod.splits dest: partly_connection)
  then have "sent (sm_coder s) = sent a" "conn_open (connection (sm_coder s)) = conn_open (connection a)"
    by (simp_all add: sent_def)
  moreover have "sm_lock s = None \<longrightarrow> sm_coder s = a" using a(2) by auto
  ultimately show ?thesis
    using a(1) atomic_wire[OF a(1)] r by (auto simp: refines_def mutex_inv_def)
qed

text \<open>A goroutine that runs through \<^verbatim>\<open>send_response\<close> while others wait for the mutex.\<close>

lemma send_alone:
  assumes r: "sending_reach jc s" and l: "sm_lock s = None" and h: "healthy (sm_coder s)"
    and i: "i < length (sm_senders s)" "sm_senders s ! i = (AtLock, hdr, b)" and j: "marshal b = Some j"
  shows "\<exists>c. sending_reach jc (s\<lparr>sm_senders := (sm_senders s)[i := (Returned, hdr, b)], sm_coder := c, sm_order := sm_order s @ [i]\<rparr>) \<and>
    healthy c"
proof -
  let ?m = "(hdr, b)" and ?c = "sm_coder s"
  let ?c1 = "?c\<lparr>wbuf := [header_json hdr]\<rparr>" and ?c2 = "?c\<lparr>wbuf := [header_json hdr, j]\<rparr>"
  let ?s1 = "(move i AtHeader ?m s)\<lparr>sm_lock := Some i\<rparr>"
  let ?s2 = "(move i AtBody ?m ?s1)\<lparr>sm_coder := ?c1\<rparr>"
  let ?s3 = "(move i AtFlush ?m ?s2)\<lparr>sm_coder := ?c2\<rparr>"
  let ?s4 = "encoded_by i ?m (buf_Flush ?c2) ?s3"
  let ?s5 = "(move i Returned ?m ?s4)\<lparr>sm_lock := None\<rparr>"
  have c: "wbuf ?c = []" "buf_err ?c = None" "enc_err ?c = None" "conn_open (connection ?c)"
    using h by (simp_all add: healthy_def)
  have "sending_step s ?s1" using i l by (intro lock)
  with r have 1: "sending_reach jc ?s1" by (rule reach_step)
  have "sending_step ?s1 ?s2" using i c by (intro header_encoded[of i]) (simp_all add: enc_Encode_def)
  with 1 have 2: "sending_reach jc ?s2" by (rule reach_step)
  have "sending_step ?s2 ?s3" using i c j by (intro body_encoded[of i]) (simp_all add: enc_Encode_def)
  with 2 have 3: "sending_reach jc ?s3" by (rule reach_step)
  have "sending_step ?s3 ?s4" using sending_step.flush[of i ?s3 hdr b] i by simp
  with 3 have 4: "sending_reach jc ?s4" by (rule reach_step)
  have "sending_step ?s4 ?s5" using i by (intro unlock) (simp_all add: encoded_by_def)
  with 4 have 5: "sending_reach jc ?s5" by (rule reach_step)
  have "?s5 = s\<lparr>sm_senders := (sm_senders s)[i := (Returned, hdr, b)], sm_coder := buf_Flush ?c2, sm_order := sm_order s @ [i]\<rparr>"
    using l by (cases s) (simp add: encoded_by_def)
  moreover have "healthy (buf_Flush ?c2)" using c by (simp add: buf_Flush_def healthy_def)
  ultimately show ?thesis using 5 by auto
qed

text \<open>Two goroutines; the second one gets the mutex first.\<close>

theorem send_mutex_keeps_responses_whole_witness:
  "\<exists>s. sending_reach idle_coder s \<and> sm_order s = [1, 0] \<and>
    sent (sm_coder s) = [header_json (sample_header\<lparr>SequenceNumber := 2\<rparr>), JNum 8, header_json sample_header, JNum 7]"
proof -
  let ?h = "sample_header" and ?k = "sample_header\<lparr>SequenceNumber := 2\<rparr>"
  let ?s0 = "\<lparr>sm_coder = idle_coder, sm_lock = None, sm_senders = [], sm_order = []\<rparr>"
  let ?s2 = "?s0\<lparr>sm_senders := [(AtLock, ?h, VInt 7), (AtLock, ?k, VInt 8)]\<rparr>"
  have "sending_reach idle_coder ?s0" by (rule reach_init) (simp add: sending_start_def)
  moreover have "sending_step ?s0 (?s0\<lparr>sm_senders := [(AtLock, ?h, VInt 7)]\<rparr>)"
    using call[of ?s0 ?h "VInt 7"] by simp
  ultimately have "sending_reach idle_coder (?s0\<lparr>sm_senders := [(AtLock, ?h, VInt 7)]\<rparr>)" by (rule reach_step)
  moreover have "sending_step (?s0\<lparr>sm_senders := [(AtLock, ?h, VInt 7)]\<rparr>) ?s2"
    using call[of "?s0\<lparr>sm_senders := [(AtLock, ?h, VInt 7)]\<rparr>" ?k "VInt 8"] by simp
  ultimately have 2: "sending_reach idle_coder ?s2" by (rule reach_step)
  obtain c where c: "sending_reach idle_coder (?s2\<lparr>sm_senders := [(AtLock, ?h, VInt 7), (Returned, ?k, VInt 8)],
      sm_coder := c, sm_order := [1]\<rparr>)" "healthy c"
    using send_alone[OF 2, of 1 ?k "VInt 8" "JNum 8"] by auto
  obtain d where d: "sending_reach idle_coder (?s2\<lparr>sm_senders := [(Returned, ?h, VInt 7), (Returned, ?k, VInt 8)],
      sm_coder := d, sm_order := [1, 0]\<rparr>)" (is "sending_reach _ ?t") "healthy d"
    using send_alone[OF c(1), of 0 ?h "VInt 7" "JNum 7"] c(2) by auto
  have m: "responses ?t = [(?k, VInt 8), (?h, VInt 7)]" by (simp add: responses_def)
  have "healthy idle_coder" "encodable (responses ?t)" "conn_open (connection (sm_coder ?t))" "sent idle_coder = []"
    using d(2) by (simp_all add: responses_def encodable_def healthy_def[of d] idle_coder_def)
  then have "sent (sm_coder ?t) = frames (responses ?t)"
    using send_mutex_keeps_responses_whole[OF d(1)] by simp
  then show ?thesis using d(1) m by (intro exI[of _ ?t]) (simp add: frames_def)
qed

end
