(* ===== verification/Spec2Isabelle.thy ===== *)
theory Spec2Isabelle
  imports Progress Broadcast Dial_Race Cluster Balanced_Calls Send_Mutex
begin

text \<open>
  A verification of SpartanRPC, an RPC framework in Go (module Distributed-RPC-Framework).

  The program. A server (src/server) registers values whose suitable methods become remote methods
  (src/service). A client (src/client/client.go) dials a server, sends a \<^verbatim>\<open>ConnectionInfo\<close> and then
  requests, each a header and a body in JSON (src/coder); the server answers every request with a
  header that has the same sequence number and a body. A registry (src/registry) keeps the addresses
  that servers post as heartbeats and lists the alive ones. A load balancer (src/loadBalancer) selects
  a server from a fixed list or from the list of the registry, and the load-balanced client
  (src/client/load_balanced_client.go) keeps one client per server, calls one or broadcasts to all.

  The theories, and the code that each models.

    \<^item> \<open>Go_Base\<close>, \<open>Go_Strings\<close>, \<open>Go_Text\<close>, \<open>Go_Values\<close>, \<open>Go_Json_Laws\<close>: what the program uses of Go: panics,
      time, errors, maps, strings, UTF-8 and its repair, \<^verbatim>\<open>fmt.Errorf\<close> of one string, reflected types and
      values, the encoding and decoding of JSON, and the laws of those (a value whose strings are UTF-8
      decodes to what was encoded; decoding keeps types). \<open>Go_Base\<close> has the locale \<open>step_system\<close>, from
      which every state machine takes its invariant rule.
    \<^item> \<open>Coder\<close>: coder.go and json_coder.go. The Go interface \<^verbatim>\<open>Coder\<close> is the locale \<open>message_coder\<close>.
    \<^item> \<open>Service\<close>: service.go: registration, creation of inputs and outputs, the counted call.
    \<^item> \<open>Registry\<close>: registry.go, with the specification that remembers all heartbeats.
    \<^item> \<open>Load_Balancer\<close>: load_balancer_client_side.go and load_balancer_registry_side.go; the Go
      interface is the locale \<open>load_balancer\<close>, interpreted by both.
    \<^item> \<open>Info_Page\<close>: server_info.go, the template of the information page as html/template renders it.
    \<^item> \<open>Server\<close>: the sequential part of server.go: constructors, registration, search, reading a
      request, responses, one turn of the loop, the checks on a new connection, the HTTP endpoints,
      the heartbeat.
    \<^item> \<open>Request_Handle\<close>: the two goroutines of \<^verbatim>\<open>request_handle\<close> as a step relation.
    \<^item> \<open>Serve_Coder\<close>: the loop of \<^verbatim>\<open>serveCoder\<close>, all its handlers and the wait group, as a step relation.
    \<^item> \<open>Send_Mutex\<close>: \<^verbatim>\<open>send_response\<close> and \<^verbatim>\<open>EncodeMessageHeaderAndBody\<close> with a step for the lock, each of the
      two encodings, the flush and the unlock, for any number of goroutines, as a step relation; it
      refines the view of the other theories, where a response is one step.
    \<^item> \<open>Server_Process\<close>: the accept loop, any number of connections over one table of services, and
      registration at any time; a panic in any goroutine ends the process, as it does under
      \<^verbatim>\<open>LaunchAndAccept\<close>.
    \<^item> \<open>Client\<close>: the operations of client.go on the table of calls, sending and receiving.
    \<^item> \<open>Client_Calls\<close>: the goroutines of a client (callers, receiver, \<^verbatim>\<open>Close\<close>) as a step relation.
    \<^item> \<open>Dial\<close>: \<^verbatim>\<open>ParseConnectionInfo\<close>, \<^verbatim>\<open>CreateClient\<close>, the HTTP handshake and the dialing functions.
    \<^item> \<open>Dial_Race\<close>: the caller of \<^verbatim>\<open>MakeDialWithTimeout\<close>, its goroutine and its timer as a step relation. The
      locale \<open>client_creator\<close> is the contract of \<^verbatim>\<open>CreateClientFunctionType\<close>, interpreted by both creators.
    \<^item> \<open>Cluster\<close>: the heartbeat goroutines of any number of servers, the registry, and a registry-side
      balancer with any number of callers, over time, as a step relation.
    \<^item> \<open>Load_Balanced_Client\<close>: load_balanced_client.go without the broadcast.
    \<^item> \<open>Broadcast\<close>: \<^verbatim>\<open>BroadcastCall\<close>, its reports in a given order and its goroutines as a step relation.
    \<^item> \<open>Balanced_Calls\<close>: any number of goroutines that use a load-balanced client and close it, with the
      goroutines of all its clients, as a step relation over those of \<open>Client_Calls\<close>.
    \<^item> \<open>Rpc\<close>: one call through client, wire, server and service, and back, as a function.
    \<^item> \<open>Client_Wire\<close> and \<open>Server_Wire\<close>: what the goroutines of a client, and those of a connection of the
      server, write to and make of their wire; \<open>System\<close>: the two together. Its steps are those of
      \<open>calls_step\<close> and \<open>process_step\<close>, and the network, which delivers what was written in pieces of any
      size and may lose the connection; a read waits until something has arrived.
    \<^item> \<open>Progress\<close>: the steps of the connected system that its user does not have to ask for (\<open>works\<close>),
      how many there can be (\<open>system_rank\<close>), and what holds where there are none (\<open>stuck\<close>).
    \<^item> This theory: the properties that span client, server, registry and balancer.

  How state and effects are modelled. A struct is a record, an interface value that the program only
  passes on is a parameter. Pointers that are shared are positions: a call in the \<open>heap\<close> of its
  client, a client in the list of the load-balanced client, a service or method by the name under
  which it is registered. A map is an association list with distinct keys; where the order in which a map is
  ranged over could matter it is a parameter (the visits of \<^verbatim>\<open>sync.Map.Range\<close> on the information page) or a
  theorem says that it does not (the shutdown of a client, the rows of a table of the page). A function that can panic returns in \<^typ>\<open>'a go\<close>; an error is a
  value. Sequence numbers and counters are 64-bit words and wrap. A mutex is a critical section, that
  is, one step, and for the send mutex of a connection a theorem justifies that; a channel is its capacity and its queue, and an exchange on an unbuffered channel is
  one step of both sides. A timer may fire at any moment, so the properties hold for every timing. A
  connection is what the other side sends, in chunks, and what has been written to it; JSON text is
  represented by the value that it denotes. A string is a list of bytes; the encoder replaces bytes that
  are not UTF-8 as package json does, so what arrives is the repaired string, and the properties on what
  arrives unchanged ask for UTF-8. Functions, and maps with keys that JSON cannot print, are opaque
  values that cannot be encoded.

  What the lemmas show. Up: a remote call is a call: with any number of callers and connections and in
  any interleaving, a call that returns without an error has the output that its method computed from
  its input, every call runs at most once, and none hangs: after a bounded number of steps every call
  has returned, unless the server crashed and its connection is still there; that system is what a
  dial and an accept come to. A message sequence survives the wire, responses reach the call that they
  belong to, responses are written whole, no call is lost, a closed connection has answered every request exactly once, serving a
  connection terminates, the registry lists exactly the alive servers and the balancer sees them, over
  time a balancer hands out only servers that were alive a short while ago and every server that goes
  on posting, dialing comes to the same for every timing, round robin is fair, a load-balanced call is
  the call of one client, no open connection of a load-balanced client is lost, a broadcast is its
  reports in some order, the counters of the methods are exact and the information page shows them.
  Down: several properties state what the code does where that is surely not meant: an unknown method
  crashes the server, the body of a rejected request is decoded as a header, an error response shuts
  its client down, a connection without a processing limit is never closed, a request and a dial that
  time out leak a goroutine, the first request is lost when it comes together with the connection
  information.

  Assumptions. The code of the methods is a parameter. The theorems on remote calls take callers that
  name a registered method, pass a value of its input type and a new output of its output type
  (\<open>asks\<close>), and methods whose outputs JSON can express (\<open>expressible\<close>); the tables of services may
  grow at any time. \<open>Cluster\<close> bounds the network: a heartbeat arrives within \<open>dl\<close> of its tick and a GET of
  the balancer is answered, or fails, within \<open>da\<close>; both are parameters of the theorems, which say how
  the bounds enter. Addresses are not empty and have no comma and no white space at their ends.

  Bounds. The properties of a client's table assume fewer than 2^64 - 1 calls (\<open>few_calls\<close>), below
  which the sequence number does not wrap. The functions are total: the loops of the client and of
  the server end because every turn that goes on consumes a value of the connection, and a run of the
  goroutines of a connection has at most ten steps per value received, and three.

  What is not modelled. The calls of package log (except \<^verbatim>\<open>log.Panic\<close> and \<^verbatim>\<open>log.Fatal\<close>), the network
  below a connection (a connection delivers in order), the scheduler of Go (a run is any interleaving;
  no fairness is assumed), floating-point numbers and interface values in JSON, and the programs under src/test,
  whose sample service is the example of the witnesses.
\<close>

section \<open>Properties that span components\<close>

subsection \<open>Client and server: the handshake\<close>

text \<open>What a dialed client is, and what it has sent.\<close>

lemma dialed_json:
  assumes "MakeDial env protocol address infos = (Inr client, Some c)"
    and "de_dial env protocol address (ConnectionTimeout (cl_connectionInfo client)) = Inr c0"
    and "info_ok (cl_connectionInfo client)"
  shows "CoderType (cl_connectionInfo client) = Json"
    and "client = new_Client (NewJsonCoder c) (cl_connectionInfo client) (de_local env)"
    and "conn_sent c = conn_sent c0 @ [info_json (cl_connectionInfo client)]"
    and "conn_open c \<and> conn_recv c = conn_recv c0"
    and "IDNumber (cl_connectionInfo client) = MagicNumber"
proof -
  obtain info where info: "ParseConnectionInfo infos = Inr info"
    using assms(1) by (auto simp: MakeDial_def MakeDialWithTimeout_def split: sum.splits)
  with assms(1) obtain c1 where c1: "de_dial env protocol address (ConnectionTimeout info) = Inr c1"
    "CreateClient (de_local env) c1 info = (Inr client, c)"
    by (auto simp: MakeDial_def MakeDialWithTimeout_def split: sum.splits if_splits prod.splits)
  then have k: "CoderType info = Json \<and> client = new_Client (NewJsonCoder c) info (de_local env) \<and> cl_connectionInfo client = info \<and>
      conn_sent c = conn_sent c1 @ [info_json info] \<and> conn_recv c = conn_recv c1"
    by (auto simp: CreateClient_def write_info_def CoderInitializerMap_lookup new_Client_def Let_def split: if_splits)
  moreover have "conn_open c" using CreateClient_open[OF c1(2)] by blast
  moreover have "c1 = c0"
  proof -
    have i: "cl_connectionInfo client = info" using k by blast
    show ?thesis using assms(2)[unfolded i] c1(1) by simp
  qed
  ultimately show "CoderType (cl_connectionInfo client) = Json"
    "client = new_Client (NewJsonCoder c) (cl_connectionInfo client) (de_local env)"
    "conn_sent c = conn_sent c0 @ [info_json (cl_connectionInfo client)]"
    "conn_open c \<and> conn_recv c = conn_recv c0" "IDNumber (cl_connectionInfo client) = MagicNumber"
    using parsed_info(1)[OF info] by auto
qed

text \<open>
  A dialed client is served: when a dial succeeds and the server accepts the other end of the
  connection, with the information arriving as a chunk of its own, the server serves the connection
  with the information of the client, and its coder sees everything that the client sends later.
\<close>

lemma dialed_client_is_served:
  assumes "MakeDial env protocol address infos = (Inr client, Some c)"
    and "de_dial env protocol address (ConnectionTimeout (cl_connectionInfo client)) = Inr c0" and "conn_sent c0 = []"
    and "info_ok (cl_connectionInfo client)"
    and "conn_open sc" and "conn_recv sc = conn_sent c # later"
  shows "\<exists>jc. ServeConnection sc = Serving jc (cl_connectionInfo client) \<and> incoming jc = concat later \<and> healthy jc"
proof -
  note k = dialed_json[OF assms(1,2,4)]
  have "conn_recv sc = (info_json (cl_connectionInfo client) # []) # later" using k(3) assms(3,6) by simp
  from ServeConnection_chunk[OF assms(5) this assms(4) k(5,1)] show ?thesis by auto
qed

text \<open>
  C26. A dial starts the connected system: when a dial over a new connection succeeds and what it wrote has
  arrived, alone, at a server process that accepts the other end, the process starts to serve it, and the
  client and the process are in the initial state of the system that \<open>System\<close> and \<open>Progress\<close> are about.
\<close>

theorem dial_starts_system:
  assumes "MakeDial env protocol address infos = (Inr client, Some c)"
    and "de_dial env protocol address (ConnectionTimeout (cl_connectionInfo client)) = Inr c0"
    and "conn_sent c0 = []" and "conn_recv c0 = []" and "info_ok (cl_connectionInfo client)"
    and "process_reach p" and "pr_alive p" and "conn_open (sc :: connection)" and "conn_recv sc = [conn_sent c]" and "conn_sent sc = []"
  shows "\<exists>p'. process_step p p' \<and> system_started (length (pr_conns p)) (pr_server p)
    \<lparr>sys_calls = calls_start client, sys_process = p', sys_up = 1, sys_down = 0, sys_lost = False\<rparr>"
proof -
  note k = dialed_json[OF assms(1,2,5)]
  then have "conn_recv sc = (info_json (cl_connectionInfo client) # []) # []" using assms(3,9) by simp
  from ServeConnection_chunk[OF assms(8) this assms(5) k(5,1)] obtain jc where
    jc: "ServeConnection sc = Serving jc (cl_connectionInfo client)" "incoming jc = []" "healthy jc" "sent jc = []"
    using assms(10) by auto
  let ?p = "p\<lparr>pr_conns := pr_conns p @
    [(ProcessingTimeout (cl_connectionInfo client), serve_start (pr_server p) jc)]\<rparr>"
  have st: "process_step p ?p" by (rule pr_accept[OF assms(7) jc(1)])
  moreover have "\<exists>jc info addr. calls_start client = calls_start (new_Client jc info addr) \<and> healthy jc \<and>
      incoming jc = [] \<and> 1 = length (sent jc)"
    by (subst k(2), rule exI[of _ "NewJsonCoder c"])
      (use k(3,4) assms(3,4) in \<open>auto simp: NewJsonCoder_def healthy_def incoming_def sent_def\<close>)
  moreover have "process_reach ?p" using assms(6) st by (rule reach_step)
  ultimately have "system_started (length (pr_conns p)) (pr_server p)
    \<lparr>sys_calls = calls_start client, sys_process = ?p, sys_up = 1, sys_down = 0, sys_lost = False\<rparr>"
    using jc by (simp add: system_started_def nth_append) auto
  then show ?thesis using st by blast
qed

lemma sample_process_up: "process_reach \<lparr>pr_server = sample_server\<lparr>ServiceMap := []\<rparr>, pr_conns = []\<rparr>"
proof (rule reach_init)
  have "CreateServer (Some (Listener sample_server)) = Inr (sample_server\<lparr>ServiceMap := []\<rparr>)"
    by (simp add: CreateServer_def sample_server_def)
  then show "pr_started \<lparr>pr_server = sample_server\<lparr>ServiceMap := []\<rparr>, pr_conns = []\<rparr>"
    by (auto simp: pr_started_def)
qed

theorem dial_starts_system_witness:
  "\<exists>s. system_started 0 (sample_server\<lparr>ServiceMap := []\<rparr>) s \<and> sys_up s = 1"
proof -
  let ?c = "(sample_connection [])\<lparr>conn_sent := [info_json DefaultConnectionInfo]\<rparr>"
  let ?client = "new_Client (NewJsonCoder ?c) DefaultConnectionInfo ''tcp@127.0.0.1:7''"
  let ?p = "\<lparr>pr_server = sample_server\<lparr>ServiceMap := []\<rparr>, pr_conns = []\<rparr>"
  have d: "MakeDial sample_dial ''tcp'' ''127.0.0.1:9'' [] = (Inr ?client, Some ?c)"
    by (simp add: MakeDial_def MakeDialWithTimeout_def ParseConnectionInfo_def sample_dial_def CreateClient_json
        DefaultConnectionInfo_def sample_connection_def Let_def)
  have info: "cl_connectionInfo ?client = DefaultConnectionInfo" by (simp add: new_Client_def)
  have ok: "info_ok DefaultConnectionInfo"
    by (simp add: info_ok_def DefaultConnectionInfo_def int_ok_def MagicNumber_def time_defs)
  have "\<exists>p'. process_step ?p p' \<and> system_started (length (pr_conns ?p)) (pr_server ?p)
      \<lparr>sys_calls = calls_start ?client, sys_process = p', sys_up = 1, sys_down = 0, sys_lost = False\<rparr>"
    by (rule dial_starts_system[OF d, of "sample_connection []" ?p "sample_connection [[info_json DefaultConnectionInfo]]"])
      (simp_all add: info ok sample_process_up, simp_all add: sample_dial_def sample_connection_def pr_alive_def)
  then show ?thesis by (metis Process.select_convs(1) System.select_convs(3) Process.select_convs(2) list.size(3))
qed

text \<open>
  The two HTTP ends agree: what the server writes to a hijacked connection is a response that the
  client's handshake accepts, so over HTTP the client is created exactly as over a plain connection.
\<close>

theorem http_handshake_accepted:
  assumes "server_ServeHTTP \<lparr>req_Method = ''CONNECT'', req_Header = hdr\<rparr> (Inr sc) = Hijacked greeting result"
  shows "CreateClientHTTP (\<lambda>_. greeting) addr c info = CreateClient addr c info \<and> result = ServeConnection sc"
proof -
  have g: "greeting = ''HTTP/1.0 '' @ ConnectedToServerMessage @ [CHR 0x0A, CHR 0x0A]" "result = ServeConnection sc"
    using assms by (auto simp: server_ServeHTTP_def)
  have "http_ReadResponse greeting = Inr ConnectedToServerMessage"
    by (simp add: g(1) http_ReadResponse_def ConnectedToServerMessage_def strip_cr_def http_version_ok_def is_digit_def Let_def)
  then show ?thesis using g(2) by (simp add: CreateClientHTTP_def)
qed

theorem http_handshake_accepted_witness:
  "CreateClientHTTP (\<lambda>_. ''HTTP/1.0 200 Connected to Spartan RPC'' @ [CHR 0x0A, CHR 0x0A]) ''me'' (sample_connection []) DefaultConnectionInfo =
   CreateClient ''me'' (sample_connection []) DefaultConnectionInfo"
  using http_handshake_accepted[of "[]" "sample_connection []" "''HTTP/1.0 '' @ ConnectedToServerMessage @ [CHR 0x0A, CHR 0x0A]"
      "ServeConnection (sample_connection [])" "''me''" "sample_connection []" DefaultConnectionInfo]
  by (simp add: server_ServeHTTP_def ConnectedToServerMessage_def)

subsection \<open>Registry and load balancer\<close>

text \<open>
  C35. The registry's list reaches the balancer unchanged: when a refresh is due and is answered by the
  registry, the balancer holds exactly the alive servers, in the registry's order (for addresses that
  are not empty, have no comma, and no white space at their ends).
\<close>

theorem registry_list_reaches_balancer:
  assumes "lastUpdate rs + lbTimeout rs \<le> env_now env"
    and "env_get env (registryURL rs) =
      Inr (resp_Header (fst (reg_ServeHTTP clk \<lparr>req_Method = ''GET'', req_Header = []\<rparr> reg)))"
    and "\<forall>a \<in> set (fst (getAliveServerList clk reg)). a \<noteq> [] \<and> trimmed a \<and> CHR '','' \<notin> set a"
  shows "\<exists>rs1. rs_RefreshServerList env rs = (None, rs1) \<and> rs_servers rs1 = fst (getAliveServerList clk reg)"
proof -
  have "\<forall>a \<in> set (fst (getAliveServerList clk reg)). address_ok a" using assms(3) by (simp add: address_ok_def)
  from listed_servers_answer[OF this] show ?thesis
    using rs_refresh_stale[OF assms(1,2)] by (auto simp: listed_servers_def)
qed

theorem registry_list_reaches_balancer_witness:
  "\<exists>rs1. rs_RefreshServerList \<lparr>env_now = 50, env_get = (\<lambda>_. Inr (resp_Header (fst (reg_ServeHTTP (\<lambda>_. 40)
        \<lparr>req_Method = ''GET'', req_Header = []\<rparr> (registerServer 7 ''tcp@b'' (registerServer 5 ''tcp@a'' sample_registry)))))),
        env_later = 60\<rparr> (CreateLoadBalancerRegistrySide sample_source ''u'' 10) = (None, rs1) \<and>
     rs_servers rs1 = [''tcp@a'', ''tcp@b'']"
proof -
  let ?reg = "registerServer 7 ''tcp@b'' (registerServer 5 ''tcp@a'' sample_registry)"
  let ?env = "\<lparr>env_now = 50, env_get = (\<lambda>_. Inr (resp_Header (fst (reg_ServeHTTP (\<lambda>_. 40)
        \<lparr>req_Method = ''GET'', req_Header = []\<rparr> ?reg)))), env_later = 60\<rparr>"
  have l: "fst (getAliveServerList (\<lambda>_. 40) ?reg) = [''tcp@a'', ''tcp@b'']"
    by (simp add: getAliveServerList_def registerServer_def sample_registry_def is_alive_def time_defs)
  show ?thesis
    using registry_list_reaches_balancer[of "CreateLoadBalancerRegistrySide sample_source ''u'' 10" ?env "\<lambda>_. 40" ?reg] l
    by (simp add: CreateLoadBalancerRegistrySide_def time_defs trimmed_def is_space_def split: prod.split)
qed

end
